(* ===== verification/Prelude.thy ===== *)
theory Prelude
  imports Main "HOL-Library.Word"
begin

text \<open>
  Shared vocabulary of the development: the machine integers of the C code
  (\<open>__u8\<close> to \<open>__u64\<close> of linux/types.h as words of their width), the
  outcome type of operations that can abort, and the generic facts on words and
  lists that the component theories use.

  An operation of the code that can stop in an \<open>ASSERT\<close>, follow a pointer that
  leads nowhere or fail to return is a function into \<open>'a res\<close>: \<open>Inr\<close>
  carries the value, \<open>Inl\<close> the reason why there is none.
\<close>

unbundle bit_operations_syntax

section \<open>Types\<close>

type_synonym u8 = "8 word"
type_synonym u16 = "16 word"
type_synonym u32 = "32 word"
type_synonym u64 = "64 word"

text \<open>
  \<open>AssertFail\<close>: an \<open>ASSERT\<close> of the code is false (the build defines
  \<open>ASSERTION\<close>, so the process aborts).  \<open>Diverges\<close>: a loop does not end.
  \<open>BadPointer\<close>: a page pointer that was never allocated is followed.
  \<open>OutOfBounds\<close>: an array is accessed past its end.  \<open>DivByZero\<close>: a remainder by zero.
\<close>

datatype err = AssertFail | Diverges | BadPointer | OutOfBounds | DivByZero

type_synonym 'a res = "err + 'a"

definition bind_res :: "'a res \<Rightarrow> ('a \<Rightarrow> 'b res) \<Rightarrow> 'b res" where
  "bind_res m f = (case m of Inl e \<Rightarrow> Inl e | Inr x \<Rightarrow> f x)"

definition assert_res :: "bool \<Rightarrow> 'a res \<Rightarrow> 'a res" where
  "assert_res b m = (if b then m else Inl AssertFail)"

definition loop_res :: "'a option \<Rightarrow> 'a res" where
  "loop_res m = (case m of None \<Rightarrow> Inl Diverges | Some x \<Rightarrow> Inr x)"

lemma bind_res_simps [simp]:
  "bind_res (Inl e) f = Inl e"
  "bind_res (Inr x) f = f x"
  by (simp_all add: bind_res_def)

lemma bind_res_Inr_iff:
  "bind_res m f = Inr y \<longleftrightarrow> (\<exists>x. m = Inr x \<and> f x = Inr y)"
  by (cases m) simp_all

lemma assert_res_simps [simp]:
  "assert_res True m = m"
  "assert_res False m = Inl AssertFail"
  by (simp_all add: assert_res_def)

lemma assert_res_Inr_iff: "assert_res b m = Inr y \<longleftrightarrow> b \<and> m = Inr y"
  by (cases b) simp_all

lemma loop_res_simps [simp]:
  "loop_res None = Inl Diverges"
  "loop_res (Some x) = Inr x"
  by (simp_all add: loop_res_def)

section \<open>Hint collections\<close>

text \<open>
  \<open>unat_simps\<close>: reading a word sum, difference or quotient as a natural number,
  under the no-wrap-around condition.
\<close>

named_theorems unat_simps

lemma unat_add_nowrap [unat_simps]:
  fixes a b :: "'a::len word"
  shows "unat a + unat b < 2 ^ LENGTH('a) \<Longrightarrow> unat (a + b) = unat a + unat b"
  using unat_add_lem by blast

lemma unat_diff_nowrap [unat_simps]:
  fixes a b :: "'a::len word"
  shows "unat b \<le> unat a \<Longrightarrow> unat (a - b) = unat a - unat b"
  by (simp add: unat_sub word_le_nat_alt)

lemma unat_of_nat_nowrap [unat_simps]:
  "n < 2 ^ LENGTH('a) \<Longrightarrow> unat (of_nat n :: 'a::len word) = n"
  by (simp add: unsigned_of_nat take_bit_nat_eq_self)

lemma unat_lt_u32: "unat (x :: u32) < 4294967296"
  using unsigned_less [of x] by simp

lemma unat_ucast_up:
  fixes x :: "'a::len word"
  assumes "LENGTH('a) \<le> LENGTH('b::len)"
  shows "unat (ucast x :: 'b word) = unat x"
  using assms by (simp add: unsigned_ucast_eq take_bit_nat_eq_self unsigned_less
      order.strict_trans2 [OF unsigned_less power_increasing])

lemma unat_ucast_down:
  fixes x :: "'a::len word"
  shows "unat x < 2 ^ LENGTH('b::len) \<Longrightarrow> unat (ucast x :: 'b word) = unat x"
  by (simp add: unsigned_ucast_eq take_bit_nat_eq_self)

text \<open>Storing a 64-bit sum or difference to 32 bits computes modulo \<open>2 ^ 32\<close>.\<close>

lemma ucast_add_64_32 [simp]: "(ucast (a + b :: u64) :: u32) = ucast a + ucast b"
proof -
  have "take_bit 32 (take_bit 64 x + take_bit 64 y) = take_bit 32 (x + y)" for x y :: int
    using take_bit_add [of 32 x y] take_bit_add [of 32 "take_bit 64 x" "take_bit 64 y"]
    by (simp add: take_bit_take_bit min_def del: take_bit_add)
  then show ?thesis by transfer (simp add: take_bit_take_bit min_def del: take_bit_add)
qed

lemma ucast_diff_64_32 [simp]: "(ucast (a - b :: u64) :: u32) = ucast a - ucast b"
proof -
  have "take_bit 32 (take_bit 64 x - take_bit 64 y) = take_bit 32 (x - y)" for x y :: int
    using take_bit_diff [of 32 x y] take_bit_diff [of 32 "take_bit 64 x" "take_bit 64 y"]
    by (simp add: take_bit_take_bit min_def del: take_bit_diff)
  then show ?thesis by transfer (simp add: take_bit_take_bit min_def del: take_bit_diff)
qed

lemma ucast_ucast_64_32 [simp]: "(ucast (ucast x :: u64) :: u32) = x"
  by transfer simp

section \<open>Insertion and removal at an index\<close>

definition insert_at :: "nat \<Rightarrow> 'a \<Rightarrow> 'a list \<Rightarrow> 'a list" where
  "insert_at i x xs = take i xs @ x # drop i xs"

definition delete_at :: "nat \<Rightarrow> 'a list \<Rightarrow> 'a list" where
  "delete_at i xs = take i xs @ drop (Suc i) xs"

lemma length_insert_at [simp]: "i \<le> length xs \<Longrightarrow> length (insert_at i x xs) = Suc (length xs)"
  by (simp add: insert_at_def)

lemma length_delete_at [simp]: "i < length xs \<Longrightarrow> length (delete_at i xs) = length xs - 1"
  by (simp add: delete_at_def)

lemma insert_at_nth:
  assumes "i \<le> length xs"
  shows "j < i \<Longrightarrow> insert_at i x xs ! j = xs ! j"
    and "insert_at i x xs ! i = x"
    and "i \<le> j \<Longrightarrow> insert_at i x xs ! (Suc j) = xs ! j"
  using assms by (auto simp: insert_at_def nth_append min_def Suc_diff_le)

lemma delete_at_nth:
  assumes "i < length xs"
  shows "j < i \<Longrightarrow> delete_at i xs ! j = xs ! j"
    and "i \<le> j \<Longrightarrow> Suc j < length xs \<Longrightarrow> delete_at i xs ! j = xs ! (Suc j)"
  using assms by (auto simp: delete_at_def nth_append min_def)

lemma set_insert_at [simp]: "set (insert_at i x xs) = insert x (set xs)"
  by (simp add: insert_at_def) (metis append_take_drop_id set_append)

lemma delete_insert_at [simp]: "i \<le> length xs \<Longrightarrow> delete_at i (insert_at i x xs) = xs"
  by (simp add: insert_at_def delete_at_def)

lemma map_insert_at [simp]: "map f (insert_at i x xs) = insert_at i (f x) (map f xs)"
  by (simp add: insert_at_def take_map drop_map)

lemma map_delete_at [simp]: "map f (delete_at i xs) = delete_at i (map f xs)"
  by (simp add: delete_at_def take_map drop_map)

lemma upt_split_at: "j < n \<Longrightarrow> [0..<n] = [0..<j] @ j # [Suc j..<n]"
  using upt_add_eq_append [of 0 j "n - j"] by (simp add: upt_conv_Cons)

text \<open>A list given by its length and its elements is an insertion or a removal.\<close>

lemma insert_at_eqI:
  assumes "length ys = Suc (length xs)" and "i \<le> length xs"
    and "\<And>j. j < i \<Longrightarrow> ys ! j = xs ! j" and "ys ! i = x"
    and "\<And>j. i \<le> j \<Longrightarrow> j < length xs \<Longrightarrow> ys ! (Suc j) = xs ! j"
  shows "ys = insert_at i x xs"
proof (rule nth_equalityI)
  show "length ys = length (insert_at i x xs)" using assms(1,2) by simp
next
  fix j assume j: "j < length ys"
  consider "j < i" | "j = i" | k where "j = Suc k" "i \<le> k"
    by (metis less_Suc_eq_le linorder_neqE_nat less_imp_Suc_add less_eq_Suc_le add_Suc_right le_add1)
  then show "ys ! j = insert_at i x xs ! j"
    using assms j by cases (auto simp: insert_at_nth)
qed

lemma delete_at_eqI:
  assumes "Suc (length ys) = length xs" and "i < length xs"
    and "\<And>j. j < i \<Longrightarrow> ys ! j = xs ! j"
    and "\<And>j. i \<le> j \<Longrightarrow> Suc j < length xs \<Longrightarrow> ys ! j = xs ! (Suc j)"
  shows "ys = delete_at i xs"
proof (rule nth_equalityI)
  show "length ys = length (delete_at i xs)" using assms(1,2) by simp
next
  fix j assume "j < length ys"
  then show "ys ! j = delete_at i xs ! j"
    using assms by (cases "j < i") (auto simp: delete_at_nth)
qed

text \<open>Sorting of keys after an insertion at the right place and after a removal.\<close>

lemma sorted_wrt_insert_at:
  assumes "sorted_wrt P xs" "i \<le> length xs"
    and "\<And>j. j < i \<Longrightarrow> P (xs ! j) x" "\<And>j. i \<le> j \<Longrightarrow> j < length xs \<Longrightarrow> P x (xs ! j)"
  shows "sorted_wrt P (insert_at i x xs)"
proof -
  have app: "sorted_wrt P (take i xs @ drop i xs)" using assms(1) by simp
  have "\<forall>y \<in> set (take i xs). P y x"
    using assms(2,3) by (auto simp: in_set_conv_nth)
  moreover have "\<forall>y \<in> set (drop i xs). P x y"
    using assms(2,4) by (auto simp: in_set_conv_nth)
  ultimately show ?thesis
    using app unfolding insert_at_def sorted_wrt_append by auto
qed

lemma sorted_wrt_delete_at:
  assumes "sorted_wrt P xs"
  shows "sorted_wrt P (delete_at i xs)"
proof -
  have "sorted_wrt P (take i xs @ drop i xs)" using assms by simp
  moreover have "set (drop (Suc i) xs) \<subseteq> set (drop i xs)"
    by (rule set_drop_subset_set_drop) simp
  moreover have "sorted_wrt P (drop (Suc i) xs)" using assms by (rule sorted_wrt_drop)
  ultimately show ?thesis
    unfolding delete_at_def sorted_wrt_append by blast
qed

end
