(* ===== verification/Memory.thy ===== *)
theory Memory
  imports Prelude
begin

text \<open>
  Byte memory.  The B-tree code addresses everything inside a node by byte offsets
  from the node's start, and overlays structs of different shape on the same bytes
  (the union in \<open>struct cell\<close>), so a node is modelled as the bytes of its page.
  Integers are little-endian, as on the x86-64 and arm64 targets of io_uring builds.

  A page is a function from the byte offset to the byte.  Offsets from \<open>NODE_SIZE\<close>
  on are the memory after the allocation: writes there are modelled as writes, and
  the node theories prove that they do not happen.
\<close>

type_synonym page = "nat \<Rightarrow> u8"

section \<open>Byte ranges\<close>

definition rd_bytes :: "page \<Rightarrow> nat \<Rightarrow> nat \<Rightarrow> u8 list" where
  "rd_bytes p a n = map (\<lambda>i. p (a + i)) [0..<n]"

definition wr_bytes :: "page \<Rightarrow> nat \<Rightarrow> u8 list \<Rightarrow> page" where
  "wr_bytes p a bs = (\<lambda>i. if a \<le> i \<and> i < a + length bs then bs ! (i - a) else p i)"

text \<open>\<open>memmove\<close> inside one page: the source is read before the destination is written.\<close>

definition move_bytes :: "page \<Rightarrow> nat \<Rightarrow> nat \<Rightarrow> nat \<Rightarrow> page" where
  "move_bytes p dst src n = wr_bytes p dst (rd_bytes p src n)"

lemma length_rd_bytes [simp]: "length (rd_bytes p a n) = n"
  by (simp add: rd_bytes_def)

lemma rd_bytes_nth [simp]: "i < n \<Longrightarrow> rd_bytes p a n ! i = p (a + i)"
  by (simp add: rd_bytes_def)

lemma rd_bytes_0 [simp]: "rd_bytes p a 0 = []"
  by (simp add: rd_bytes_def)

lemma rd_bytes_cong:
  "(\<And>i. a \<le> i \<Longrightarrow> i < a + n \<Longrightarrow> p i = q i) \<Longrightarrow> rd_bytes p a n = rd_bytes q a n"
  by (auto simp: rd_bytes_def)

lemma rd_bytes_append: "rd_bytes p a (m + n) = rd_bytes p a m @ rd_bytes p (a + m) n"
  by (rule nth_equalityI) (auto simp: nth_append)

lemma wr_bytes_out [simp]:
  "i < a \<Longrightarrow> wr_bytes p a bs i = p i"
  "a + length bs \<le> i \<Longrightarrow> wr_bytes p a bs i = p i"
  by (simp_all add: wr_bytes_def)

lemma wr_bytes_in: "a \<le> i \<Longrightarrow> i < a + length bs \<Longrightarrow> wr_bytes p a bs i = bs ! (i - a)"
  by (simp add: wr_bytes_def)

lemma wr_bytes_Nil [simp]: "wr_bytes p a [] = p"
  by (rule ext) (auto simp: wr_bytes_def)

lemma rd_wr_bytes_same [simp]: "n = length bs \<Longrightarrow> rd_bytes (wr_bytes p a bs) a n = bs"
  by (rule nth_equalityI) (simp_all add: wr_bytes_def)

lemma rd_wr_bytes_below [simp]: "b + n \<le> a \<Longrightarrow> rd_bytes (wr_bytes p a bs) b n = rd_bytes p b n"
  by (rule rd_bytes_cong) simp

lemma rd_wr_bytes_above [simp]:
  "a + length bs \<le> b \<Longrightarrow> rd_bytes (wr_bytes p a bs) b n = rd_bytes p b n"
  by (rule rd_bytes_cong) simp

lemma move_bytes_out [simp]:
  "i < dst \<Longrightarrow> move_bytes p dst src n i = p i"
  "dst + n \<le> i \<Longrightarrow> move_bytes p dst src n i = p i"
  by (simp_all add: move_bytes_def)

lemma move_bytes_in: "dst \<le> i \<Longrightarrow> i < dst + n \<Longrightarrow> move_bytes p dst src n i = p (src + (i - dst))"
  by (simp add: move_bytes_def wr_bytes_in)

section \<open>Little-endian integers\<close>

definition to_le :: "nat \<Rightarrow> 'a::len word \<Rightarrow> u8 list" where
  "to_le n v = map (\<lambda>i. ucast (drop_bit (8 * i) v)) [0..<n]"

fun of_le :: "u8 list \<Rightarrow> 'a::len word" where
  "of_le [] = 0"
| "of_le (b # bs) = ucast b OR push_bit 8 (of_le bs)"

lemma length_to_le [simp]: "length (to_le n v) = n"
  by (simp add: to_le_def)

lemma to_le_nth: "i < n \<Longrightarrow> to_le n v ! i = ucast (drop_bit (8 * i) v)"
  by (simp add: to_le_def)

lemma bit_of_le:
  "bit (of_le bs :: 'a::len word) k \<longleftrightarrow>
     k < LENGTH('a) \<and> k < 8 * length bs \<and> bit (bs ! (k div 8)) (k mod 8)"
proof (induction bs arbitrary: k)
  case Nil
  then show ?case by simp
next
  case (Cons b bs)
  show ?case
  proof (cases "k < 8")
    case True
    then show ?thesis by (auto simp: bit_or_iff bit_ucast_iff bit_push_bit_iff)
  next
    case False
    then have "k div 8 = Suc ((k - 8) div 8)" "k mod 8 = (k - 8) mod 8"
      by (simp_all add: le_div_geq le_mod_geq)
    moreover have "\<not> bit b k" using False by (auto dest: bit_imp_le_length)
    ultimately show ?thesis
      using False by (auto simp: bit_or_iff bit_ucast_iff bit_push_bit_iff Cons.IH)
  qed
qed

lemma of_to_le:
  fixes v :: "'a::len word"
  assumes "LENGTH('a) \<le> 8 * n"
  shows "of_le (to_le n v) = v"
proof (rule bit_word_eqI)
  fix k assume k: "k < LENGTH('a)"
  with assms have "k div 8 < n" by simp
  moreover have "8 * (k div 8) + k mod 8 = k" by simp
  ultimately show "bit (of_le (to_le n v) :: 'a word) k \<longleftrightarrow> bit v k"
    using k assms by (simp add: bit_of_le to_le_def bit_ucast_iff bit_drop_bit_eq)
qed

definition rd16 :: "page \<Rightarrow> nat \<Rightarrow> u16" where "rd16 p a = of_le (rd_bytes p a 2)"
definition rd32 :: "page \<Rightarrow> nat \<Rightarrow> u32" where "rd32 p a = of_le (rd_bytes p a 4)"
definition rd64 :: "page \<Rightarrow> nat \<Rightarrow> u64" where "rd64 p a = of_le (rd_bytes p a 8)"

definition wr16 :: "page \<Rightarrow> nat \<Rightarrow> u16 \<Rightarrow> page" where "wr16 p a v = wr_bytes p a (to_le 2 v)"
definition wr32 :: "page \<Rightarrow> nat \<Rightarrow> u32 \<Rightarrow> page" where "wr32 p a v = wr_bytes p a (to_le 4 v)"
definition wr64 :: "page \<Rightarrow> nat \<Rightarrow> u64 \<Rightarrow> page" where "wr64 p a v = wr_bytes p a (to_le 8 v)"

text \<open>
  Reading back what was written at the same place, and reading past a write that lies
  below or above.  All are rewrite rules whose side condition is linear arithmetic.
\<close>

lemma rd_wr_same [simp]:
  "rd16 (wr16 p a v16) a = v16"
  "rd32 (wr32 p a v32) a = v32"
  "rd64 (wr64 p a v64) a = v64"
  by (simp_all add: rd16_def wr16_def rd32_def wr32_def rd64_def wr64_def of_to_le)

lemma rd_cong:
  "(\<And>i. a \<le> i \<Longrightarrow> i < a + 2 \<Longrightarrow> p i = q i) \<Longrightarrow> rd16 p a = rd16 q a"
  "(\<And>i. a \<le> i \<Longrightarrow> i < a + 4 \<Longrightarrow> p i = q i) \<Longrightarrow> rd32 p a = rd32 q a"
  "(\<And>i. a \<le> i \<Longrightarrow> i < a + 8 \<Longrightarrow> p i = q i) \<Longrightarrow> rd64 p a = rd64 q a"
  unfolding rd16_def rd32_def rd64_def by (metis rd_bytes_cong)+

lemma rd32_shift: "(\<And>i. i < 4 \<Longrightarrow> q (b + i) = p (a + i)) \<Longrightarrow> rd32 q b = rd32 p a"
  unfolding rd32_def rd_bytes_def by (rule arg_cong [where f = of_le]) simp

lemma wr_out [simp]:
  "i < a \<Longrightarrow> wr16 p a v16 i = p i" "a + 2 \<le> i \<Longrightarrow> wr16 p a v16 i = p i"
  "i < a \<Longrightarrow> wr32 p a v32 i = p i" "a + 4 \<le> i \<Longrightarrow> wr32 p a v32 i = p i"
  "i < a \<Longrightarrow> wr64 p a v64 i = p i" "a + 8 \<le> i \<Longrightarrow> wr64 p a v64 i = p i"
  by (simp_all add: wr16_def wr32_def wr64_def)

lemmas word_access_defs = rd16_def rd32_def rd64_def wr16_def wr32_def wr64_def

lemma rd16_wr_other [simp]:
  "b + 2 \<le> a \<Longrightarrow> rd16 (wr_bytes p a bs) b = rd16 p b"
  "a + length bs \<le> b \<Longrightarrow> rd16 (wr_bytes p a bs) b = rd16 p b"
  "b + 2 \<le> a \<Longrightarrow> rd16 (wr16 p a v16) b = rd16 p b"
  "a + 2 \<le> b \<Longrightarrow> rd16 (wr16 p a v16) b = rd16 p b"
  "b + 2 \<le> a \<Longrightarrow> rd16 (wr32 p a v32) b = rd16 p b"
  "a + 4 \<le> b \<Longrightarrow> rd16 (wr32 p a v32) b = rd16 p b"
  "b + 2 \<le> a \<Longrightarrow> rd16 (wr64 p a v64) b = rd16 p b"
  "a + 8 \<le> b \<Longrightarrow> rd16 (wr64 p a v64) b = rd16 p b"
  by (simp_all add: word_access_defs)

lemma rd32_wr_other [simp]:
  "b + 4 \<le> a \<Longrightarrow> rd32 (wr_bytes p a bs) b = rd32 p b"
  "a + length bs \<le> b \<Longrightarrow> rd32 (wr_bytes p a bs) b = rd32 p b"
  "b + 4 \<le> a \<Longrightarrow> rd32 (wr16 p a v16) b = rd32 p b"
  "a + 2 \<le> b \<Longrightarrow> rd32 (wr16 p a v16) b = rd32 p b"
  "b + 4 \<le> a \<Longrightarrow> rd32 (wr32 p a v32) b = rd32 p b"
  "a + 4 \<le> b \<Longrightarrow> rd32 (wr32 p a v32) b = rd32 p b"
  "b + 4 \<le> a \<Longrightarrow> rd32 (wr64 p a v64) b = rd32 p b"
  "a + 8 \<le> b \<Longrightarrow> rd32 (wr64 p a v64) b = rd32 p b"
  by (simp_all add: word_access_defs)

lemma rd64_wr_other [simp]:
  "b + 8 \<le> a \<Longrightarrow> rd64 (wr_bytes p a bs) b = rd64 p b"
  "a + length bs \<le> b \<Longrightarrow> rd64 (wr_bytes p a bs) b = rd64 p b"
  "b + 8 \<le> a \<Longrightarrow> rd64 (wr16 p a v16) b = rd64 p b"
  "a + 2 \<le> b \<Longrightarrow> rd64 (wr16 p a v16) b = rd64 p b"
  "b + 8 \<le> a \<Longrightarrow> rd64 (wr32 p a v32) b = rd64 p b"
  "a + 4 \<le> b \<Longrightarrow> rd64 (wr32 p a v32) b = rd64 p b"
  "b + 8 \<le> a \<Longrightarrow> rd64 (wr64 p a v64) b = rd64 p b"
  "a + 8 \<le> b \<Longrightarrow> rd64 (wr64 p a v64) b = rd64 p b"
  by (simp_all add: word_access_defs)

lemma rd_bytes_wr_other [simp]:
  "b + n \<le> a \<Longrightarrow> rd_bytes (wr16 p a v16) b n = rd_bytes p b n"
  "a + 2 \<le> b \<Longrightarrow> rd_bytes (wr16 p a v16) b n = rd_bytes p b n"
  "b + n \<le> a \<Longrightarrow> rd_bytes (wr32 p a v32) b n = rd_bytes p b n"
  "a + 4 \<le> b \<Longrightarrow> rd_bytes (wr32 p a v32) b n = rd_bytes p b n"
  "b + n \<le> a \<Longrightarrow> rd_bytes (wr64 p a v64) b n = rd_bytes p b n"
  "a + 8 \<le> b \<Longrightarrow> rd_bytes (wr64 p a v64) b n = rd_bytes p b n"
  by (simp_all add: word_access_defs)

end
