(* ===== verification/Utils.thy ===== *)
theory Utils
  imports Prelude
begin

text \<open>
  The macros of src/include/utils.h: alignment, byte and time units, \<open>min\<close> and
  \<open>max\<close>.  A macro has no type of its own; the definitions are at the word width
  the code uses them with.
\<close>

section \<open>Alignment\<close>

definition ALIGN_MASK :: "'a::len word \<Rightarrow> 'a word \<Rightarrow> 'a word" where
  "ALIGN_MASK x m = (x + m) AND NOT m"

definition ALIGN :: "'a::len word \<Rightarrow> 'a word \<Rightarrow> 'a word" where
  "ALIGN x a = ALIGN_MASK x (a - 1)"

definition PAGE_SZ :: "'a::len word" where
  "PAGE_SZ = push_bit 12 1"

definition PAGE_ALIGN :: "'a::len word \<Rightarrow> 'a word" where
  "PAGE_ALIGN x = ALIGN x PAGE_SZ"

lemma and_not_mask_eq:
  fixes x :: "'a::len word"
  shows "x AND NOT (mask n) = push_bit n (drop_bit n x)"
  by (rule bit_word_eqI) (auto simp: bit_simps)

lemma unat_and_not_mask:
  fixes x :: "'a::len word"
  shows "unat (x AND NOT (mask n)) = unat x div 2 ^ n * 2 ^ n"
proof -
  have "push_bit n (drop_bit n (unat x)) = unat x div 2 ^ n * 2 ^ n"
    by (simp add: push_bit_eq_mult drop_bit_eq_div)
  moreover have "unat x div 2 ^ n * 2 ^ n < 2 ^ LENGTH('a)"
    using unsigned_less [of x] by (metis div_times_less_eq_dividend le_less_trans)
  ultimately show ?thesis
    by (simp add: and_not_mask_eq unsigned_push_bit_eq unsigned_drop_bit_eq take_bit_nat_eq_self)
qed

lemma unat_mask_small:
  assumes "n < LENGTH('a::len)"
  shows "unat (mask n :: 'a word) = 2 ^ n - 1"
proof -
  have "int (unat (mask n :: 'a word)) = int (2 ^ n - 1)"
    using assms by (simp add: uint_mask_eq min_def of_nat_diff mask_eq_exp_minus_1 [where 'a = int])
  then show ?thesis by (simp only: of_nat_eq_iff)
qed

lemma unat_ALIGN_MASK:
  fixes x :: "'a::len word"
  assumes "unat x + (2 ^ n - 1) < 2 ^ LENGTH('a)" and "n < LENGTH('a)"
  shows "unat (ALIGN_MASK x (mask n)) = (unat x + (2 ^ n - 1)) div 2 ^ n * 2 ^ n"
  using assms unfolding ALIGN_MASK_def unat_and_not_mask
  by (simp add: unat_mask_small unat_simps)

text \<open>Rounding up to a multiple of four, the only alignment a node uses.\<close>

lemma unat_ALIGN_4:
  fixes x :: u64
  assumes "unat x + 3 < 2 ^ 64"
  shows "unat (ALIGN x 4) = (unat x + 3) div 4 * 4"
proof -
  have "(4 - 1 :: u64) = mask 2" by (simp add: mask_eq_exp_minus_1)
  then show ?thesis
    using assms unat_ALIGN_MASK [of x 2] by (simp add: ALIGN_def)
qed

section \<open>Units\<close>

definition BYTE_KB :: "u64 \<Rightarrow> u64" where "BYTE_KB x = push_bit 10 x"
definition BYTE_MB :: "u64 \<Rightarrow> u64" where "BYTE_MB x = BYTE_KB (push_bit 10 x)"
definition BYTE_GB :: "u64 \<Rightarrow> u64" where "BYTE_GB x = BYTE_MB (push_bit 10 x)"

definition TIME_US :: "u64 \<Rightarrow> u64" where "TIME_US x = x * 1000"
definition TIME_MS :: "u64 \<Rightarrow> u64" where "TIME_MS x = TIME_US (x * 1000)"
definition TIME_S :: "u64 \<Rightarrow> u64" where "TIME_S x = TIME_MS (x * 1000)"

lemma time_units:
  "TIME_MS x = x * 1000000" "TIME_S x = x * 1000000000"
  by (simp_all add: TIME_US_def TIME_MS_def TIME_S_def)

section \<open>Selection\<close>

definition max_c :: "'a::linorder \<Rightarrow> 'a \<Rightarrow> 'a" where "max_c a b = (if a > b then a else b)"
definition min_c :: "'a::linorder \<Rightarrow> 'a \<Rightarrow> 'a" where "min_c a b = (if a < b then a else b)"

lemma min_c_eq [simp]: "min_c a b = min a b"
  by (auto simp: min_c_def min_def)

lemma max_c_eq [simp]: "max_c a b = max a b"
  by (auto simp add: max_c_def max_def dest: less_imp_le)

end
