(* ===== verification/Key_Order.thy ===== *)
theory Key_Order
  imports Utils
begin

text \<open>
  Key comparison (\<open>__key_compare\<close> in src/tree/node.c) and the total order on byte
  strings it decides.  The order is lexicographic on the bytes, but of two keys where one
  is a prefix of the other the LONGER one is the smaller: the comparison returns
  \<open>key_size - cell_key_size\<close> for equal prefixes.
\<close>

section \<open>The comparison of the code\<close>

text \<open>\<open>memcmp\<close> of the C library: the sign of the first difference is what counts.\<close>

fun memcmp :: "nat \<Rightarrow> u8 list \<Rightarrow> u8 list \<Rightarrow> int" where
  "memcmp (Suc n) (x # xs) (y # ys) = (if x = y then memcmp n xs ys else uint x - uint y)"
| "memcmp _ _ _ = 0"

definition key_compare_bytes :: "u8 list \<Rightarrow> u32 \<Rightarrow> u8 list \<Rightarrow> u32 \<Rightarrow> int" where
  "key_compare_bytes cell_key cell_key_size key key_size =
     (let cmp = memcmp (unat (min_c key_size cell_key_size)) cell_key key
      in if cmp = 0 then sint (key_size - cell_key_size) else cmp)"

section \<open>The order of keys\<close>

datatype dbkey = DBKey (key_bytes: "u8 list")

fun bytes_le :: "u8 list \<Rightarrow> u8 list \<Rightarrow> bool" where
  "bytes_le xs [] = True"
| "bytes_le [] (y # ys) = False"
| "bytes_le (x # xs) (y # ys) = (x < y \<or> x = y \<and> bytes_le xs ys)"

lemma bytes_le_refl: "bytes_le xs xs"
  by (induction xs) simp_all

lemma bytes_le_antisym: "bytes_le xs ys \<Longrightarrow> bytes_le ys xs \<Longrightarrow> xs = ys"
  by (induction xs ys rule: bytes_le.induct) (auto elim: bytes_le.elims)

lemma bytes_le_trans: "bytes_le xs ys \<Longrightarrow> bytes_le ys zs \<Longrightarrow> bytes_le xs zs"
proof (induction xs ys arbitrary: zs rule: bytes_le.induct)
  case (1 xs)
  then show ?case by (cases zs) simp_all
next
  case (2 y ys)
  then show ?case by simp
next
  case (3 x xs y ys)
  then show ?case by (cases zs) auto
qed

lemma bytes_le_linear: "bytes_le xs ys \<or> bytes_le ys xs"
  by (induction xs ys rule: bytes_le.induct) auto

instantiation dbkey :: linorder
begin

definition less_eq_dbkey :: "dbkey \<Rightarrow> dbkey \<Rightarrow> bool" where
  "a \<le> b \<longleftrightarrow> bytes_le (key_bytes a) (key_bytes b)"

definition less_dbkey :: "dbkey \<Rightarrow> dbkey \<Rightarrow> bool" where
  "(a::dbkey) < b \<longleftrightarrow> a \<le> b \<and> \<not> b \<le> a"

instance
  by standard
    (auto simp: less_eq_dbkey_def less_dbkey_def intro: bytes_le_refl bytes_le_trans
       dest: bytes_le_antisym bytes_le_linear [THEN disjE] dbkey.expand
       | metis bytes_le_linear bytes_le_antisym dbkey.expand)+

end

section \<open>The comparison decides the order\<close>

lemma uint_less_power:
  assumes "unat a < 2 ^ n"
  shows "uint a < 2 ^ n"
proof -
  have "int (unat a) < int (2 ^ n)" using assms by (simp only: of_nat_less_iff)
  then show ?thesis by simp
qed

lemma sint_small:
  assumes "uint a < 2 ^ 31"
  shows "sint (a :: u32) = uint a"
proof -
  have "- (2 ^ 31) \<le> uint a" by (rule order_trans [OF _ uint_ge_0]) simp
  with assms show ?thesis
    by (simp add: sint_uint signed_take_bit_int_eq_self [of 31 "uint a"])
qed

lemma sint_diff_small:
  assumes "unat a < 2 ^ 31" "unat b < 2 ^ 31"
  shows "sint (a - b :: u32) = int (unat a) - int (unat b)"
proof -
  note u = assms [THEN uint_less_power]
  have "- (2 ^ 31) \<le> uint a - uint b" "uint a - uint b < 2 ^ 31"
    using u uint_ge_0 [of a] uint_ge_0 [of b] by linarith+
  then have "signed_take_bit 31 (uint a - uint b) = uint a - uint b"
    by (simp add: signed_take_bit_int_eq_self)
  then show ?thesis
    using sint_small [OF u(1)] sint_small [OF u(2)] by (simp add: sint_word_ariths)
qed

lemma memcmp_sign:
  assumes "n \<le> length xs" "n \<le> length ys" "memcmp n xs ys \<noteq> 0"
  shows "memcmp n xs ys < 0 \<longleftrightarrow> bytes_le xs ys" and "0 < memcmp n xs ys \<longleftrightarrow> bytes_le ys xs"
    and "xs \<noteq> ys"
  using assms
  by (induction n xs ys rule: memcmp.induct) (auto simp: word_less_def split: if_splits simp flip: word_uint_eq_iff)

lemma memcmp_zero_take:
  assumes "n \<le> length xs" "n \<le> length ys"
  shows "memcmp n xs ys = 0 \<longleftrightarrow> take n xs = take n ys"
  using assms by (induction n xs ys rule: memcmp.induct) (auto simp flip: word_uint_eq_iff)

lemma bytes_le_common:
  assumes "take n xs = take n ys" "n = min (length xs) (length ys)"
  shows "bytes_le xs ys \<longleftrightarrow> length ys \<le> length xs"
  using assms by (induction xs ys arbitrary: n rule: bytes_le.induct) (auto simp: min_def take_Cons' split: if_splits)

text \<open>
  The three signs.  Sizes below \<open>2 ^ 31\<close> keep the difference of the sizes in the
  range of \<open>int\<close>; a page is far smaller.
\<close>

lemma key_compare_bytes_sign:
  assumes "length xs = unat m" "length ys = unat n" "unat m < 2 ^ 31" "unat n < 2 ^ 31"
  shows "key_compare_bytes xs m ys n < 0 \<longleftrightarrow> DBKey xs < DBKey ys"
    and "key_compare_bytes xs m ys n = 0 \<longleftrightarrow> DBKey xs = DBKey ys"
    and "0 < key_compare_bytes xs m ys n \<longleftrightarrow> DBKey ys < DBKey xs"
proof -
  let ?k = "min (length xs) (length ys)"
  have k: "unat (min_c n m) = ?k"
    using assms by (simp add: min_def word_le_nat_alt)
  have cmp: "key_compare_bytes xs m ys n =
      (if memcmp ?k xs ys = 0 then int (length ys) - int (length xs) else memcmp ?k xs ys)"
    unfolding key_compare_bytes_def Let_def k using assms by (simp add: sint_diff_small)
  have "key_compare_bytes xs m ys n < 0 \<longleftrightarrow> bytes_le xs ys \<and> xs \<noteq> ys"
    and "key_compare_bytes xs m ys n = 0 \<longleftrightarrow> xs = ys"
    and "0 < key_compare_bytes xs m ys n \<longleftrightarrow> bytes_le ys xs \<and> xs \<noteq> ys"
  proof (atomize (full), cases "memcmp ?k xs ys = 0")
    case True
    then have t: "take ?k xs = take ?k ys" by (simp add: memcmp_zero_take)
    note le = bytes_le_common [OF t refl] bytes_le_common [OF t [symmetric] min.commute]
    have eq: "xs = ys \<longleftrightarrow> length xs = length ys"
    proof
      assume "length xs = length ys"
      then show "xs = ys" using t by simp
    qed simp
    have cmp0: "key_compare_bytes xs m ys n = int (length ys) - int (length xs)"
      using True by (simp add: cmp)
    show "(key_compare_bytes xs m ys n < 0) = (bytes_le xs ys \<and> xs \<noteq> ys) \<and>
      (key_compare_bytes xs m ys n = 0) = (xs = ys) \<and>
      (0 < key_compare_bytes xs m ys n) = (bytes_le ys xs \<and> xs \<noteq> ys)"
      unfolding cmp0 le eq by linarith
  next
    case False
    then show "(key_compare_bytes xs m ys n < 0) = (bytes_le xs ys \<and> xs \<noteq> ys) \<and>
      (key_compare_bytes xs m ys n = 0) = (xs = ys) \<and>
      (0 < key_compare_bytes xs m ys n) = (bytes_le ys xs \<and> xs \<noteq> ys)"
      using memcmp_sign [OF _ _ False] by (simp add: cmp)
  qed
  then show "key_compare_bytes xs m ys n < 0 \<longleftrightarrow> DBKey xs < DBKey ys"
    and "key_compare_bytes xs m ys n = 0 \<longleftrightarrow> DBKey xs = DBKey ys"
    and "0 < key_compare_bytes xs m ys n \<longleftrightarrow> DBKey ys < DBKey xs"
    by (auto simp: less_dbkey_def less_eq_dbkey_def dest: bytes_le_antisym intro: bytes_le_refl)
qed

end
