(* ===== verification/Cell.thy ===== *)
theory Cell
  imports Memory Key_Order
begin

text \<open>
  \<open>struct cell\<close> and \<open>struct cell_ptr\<close> (src/include/tree/cell.h, src/tree/cell.c)
  over the bytes of a page.  A cell is the offset of its first byte in the page.  Its first
  eight bytes are a union: \<open>flags\<close> and \<open>value_size\<close> in a leaf, \<open>pid\<close> in an
  internal node, \<open>tombstone_size\<close> and \<open>next_off\<close> once it is freed; then come
  \<open>key_size\<close>, \<open>total_size\<close> and the content.  The struct is packed.
\<close>

abbreviation sizeof_cell :: nat where "sizeof_cell \<equiv> 16"
abbreviation sizeof_cell_ptr :: nat where "sizeof_cell_ptr \<equiv> 4"

section \<open>Fields\<close>

definition cell_flags :: "page \<Rightarrow> nat \<Rightarrow> u32" where "cell_flags p c = rd32 p c"
definition cell_value_size :: "page \<Rightarrow> nat \<Rightarrow> u32" where "cell_value_size p c = rd32 p (c + 4)"
definition cell_pid :: "page \<Rightarrow> nat \<Rightarrow> u64" where "cell_pid p c = rd64 p c"
definition cell_tombstone_size :: "page \<Rightarrow> nat \<Rightarrow> u32" where "cell_tombstone_size p c = rd32 p c"
definition cell_next_off :: "page \<Rightarrow> nat \<Rightarrow> u32" where "cell_next_off p c = rd32 p (c + 4)"
definition cell_key_size :: "page \<Rightarrow> nat \<Rightarrow> u32" where "cell_key_size p c = rd32 p (c + 8)"
definition cell_total_size :: "page \<Rightarrow> nat \<Rightarrow> u32" where "cell_total_size p c = rd32 p (c + 12)"

definition set_cell_flags :: "page \<Rightarrow> nat \<Rightarrow> u32 \<Rightarrow> page" where "set_cell_flags p c v = wr32 p c v"
definition set_cell_value_size :: "page \<Rightarrow> nat \<Rightarrow> u32 \<Rightarrow> page" where "set_cell_value_size p c v = wr32 p (c + 4) v"
definition set_cell_pid :: "page \<Rightarrow> nat \<Rightarrow> u64 \<Rightarrow> page" where "set_cell_pid p c v = wr64 p c v"
definition set_cell_tombstone_size :: "page \<Rightarrow> nat \<Rightarrow> u32 \<Rightarrow> page" where "set_cell_tombstone_size p c v = wr32 p c v"
definition set_cell_next_off :: "page \<Rightarrow> nat \<Rightarrow> u32 \<Rightarrow> page" where "set_cell_next_off p c v = wr32 p (c + 4) v"
definition set_cell_key_size :: "page \<Rightarrow> nat \<Rightarrow> u32 \<Rightarrow> page" where "set_cell_key_size p c v = wr32 p (c + 8) v"
definition set_cell_total_size :: "page \<Rightarrow> nat \<Rightarrow> u32 \<Rightarrow> page" where "set_cell_total_size p c v = wr32 p (c + 12) v"

lemmas cell_get_defs = cell_flags_def cell_value_size_def cell_pid_def cell_tombstone_size_def
  cell_next_off_def cell_key_size_def cell_total_size_def

lemmas cell_set_defs = set_cell_flags_def set_cell_value_size_def set_cell_pid_def
  set_cell_tombstone_size_def set_cell_next_off_def set_cell_key_size_def set_cell_total_size_def

section \<open>Functions of cell.c\<close>

text \<open>A pointer into the content is the offset of the byte it points to.\<close>

definition cell_get_key :: "page \<Rightarrow> nat \<Rightarrow> nat" where
  "cell_get_key p c = c + sizeof_cell"

definition leaf_cell_get_value :: "page \<Rightarrow> nat \<Rightarrow> nat" where
  "leaf_cell_get_value p c = c + sizeof_cell + unat (cell_key_size p c)"

definition internal_cell_child :: "page \<Rightarrow> nat \<Rightarrow> u64" where
  "internal_cell_child p c = cell_pid p c"

text \<open>The bytes behind a cell's key and value pointers.\<close>

definition cell_key :: "page \<Rightarrow> nat \<Rightarrow> u8 list" where
  "cell_key p c = rd_bytes p (cell_get_key p c) (unat (cell_key_size p c))"

definition leaf_cell_value :: "page \<Rightarrow> nat \<Rightarrow> u8 list" where
  "leaf_cell_value p c = rd_bytes p (leaf_cell_get_value p c) (unat (cell_value_size p c))"

lemma length_cell_key [simp]: "length (cell_key p c) = unat (cell_key_size p c)"
  by (simp add: cell_key_def)

lemma length_leaf_cell_value [simp]: "length (leaf_cell_value p c) = unat (cell_value_size p c)"
  by (simp add: leaf_cell_value_def)

section \<open>Footprint\<close>

text \<open>
  A cell occupies its header and \<open>total_size\<close> bytes of content.  What a cell holds is a
  function of those bytes.
\<close>

definition cell_len :: "page \<Rightarrow> nat \<Rightarrow> nat" where
  "cell_len p c = sizeof_cell + unat (cell_total_size p c)"

definition same_cell :: "page \<Rightarrow> page \<Rightarrow> nat \<Rightarrow> bool" where
  "same_cell p q c \<longleftrightarrow> (\<forall>i. c \<le> i \<and> i < c + cell_len p c \<longrightarrow> p i = q i)"

lemma same_cellI:
  "(\<And>i. c \<le> i \<Longrightarrow> i < c + cell_len p c \<Longrightarrow> q i = p i) \<Longrightarrow> same_cell p q c"
  by (simp add: same_cell_def)

lemma same_cell_fields:
  assumes "same_cell p q c"
  shows "cell_flags q c = cell_flags p c" "cell_value_size q c = cell_value_size p c"
    "cell_pid q c = cell_pid p c" "cell_key_size q c = cell_key_size p c"
    "cell_total_size q c = cell_total_size p c" "cell_len q c = cell_len p c"
proof -
  have *: "q i = p i" if "c \<le> i" "i < c + 16" for i
    using assms that by (simp add: same_cell_def cell_len_def)
  show "cell_flags q c = cell_flags p c" "cell_value_size q c = cell_value_size p c"
    "cell_pid q c = cell_pid p c" "cell_key_size q c = cell_key_size p c"
    unfolding cell_get_defs by (rule rd_cong; rule *; simp)+
  show "cell_total_size q c = cell_total_size p c"
    unfolding cell_get_defs by (rule rd_cong; rule *; simp)+
  then show "cell_len q c = cell_len p c" by (simp add: cell_len_def)
qed

lemma same_cell_key:
  assumes "same_cell p q c" "unat (cell_key_size p c) \<le> unat (cell_total_size p c)"
  shows "cell_key q c = cell_key p c"
proof -
  have "q i = p i" if "c + 16 \<le> i" "i < c + 16 + unat (cell_key_size p c)" for i
    using assms that by (simp add: same_cell_def cell_len_def)
  then show ?thesis
    unfolding cell_key_def cell_get_key_def same_cell_fields [OF assms(1)]
    by (intro rd_bytes_cong) simp_all
qed

lemma same_cell_value:
  assumes "same_cell p q c"
    and "unat (cell_key_size p c) + unat (cell_value_size p c) \<le> unat (cell_total_size p c)"
  shows "leaf_cell_value q c = leaf_cell_value p c"
proof -
  have "q i = p i" if "c + 16 + unat (cell_key_size p c) \<le> i"
      "i < c + 16 + unat (cell_key_size p c) + unat (cell_value_size p c)" for i
    using assms that by (simp add: same_cell_def cell_len_def)
  then show ?thesis
    unfolding leaf_cell_value_def leaf_cell_get_value_def same_cell_fields [OF assms(1)]
    by (intro rd_bytes_cong) simp_all
qed

text \<open>
  The union: a tombstone written over an internal cell replaces its child pointer by the
  two tombstone words, and leaves key and sizes readable.
\<close>

lemma pid_of_tombstone:
  "cell_pid (set_cell_next_off (set_cell_tombstone_size p c sz) c nx) c =
     push_bit 32 (ucast nx) OR ucast sz"
proof (rule bit_word_eqI)
  fix k assume k: "k < LENGTH(64)"
  let ?q = "set_cell_next_off (set_cell_tombstone_size p c sz) c nx"
  have bytes: "rd_bytes ?q c 8 = to_le 4 sz @ to_le 4 nx"
    unfolding cell_set_defs wr32_def
    using rd_bytes_append [of "wr_bytes (wr_bytes p c (to_le 4 sz)) (c + 4) (to_le 4 nx)" c 4 4]
    by simp
  have "bit (of_le (to_le 4 sz @ to_le 4 nx) :: u64) k \<longleftrightarrow>
      (if k < 32 then bit sz k else bit nx (k - 32))"
  proof (cases "k < 32")
    case True
    then have d: "k div 8 < 4" by auto
    then have "(to_le 4 sz @ to_le 4 nx) ! (k div 8) = ucast (drop_bit (8 * (k div 8)) sz)"
      by (simp only: nth_append length_to_le to_le_nth if_True)
    moreover have "8 * (k div 8) + k mod 8 = k" by simp
    ultimately show ?thesis
      using True k by (simp add: bit_of_le bit_ucast_iff bit_drop_bit_eq)
  next
    case False
    then have "k div 8 - 4 < 4" "\<not> k div 8 < 4" "8 * (k div 8 - 4) + k mod 8 = k - 32"
      using k by (simp, simp, presburger)
    then show ?thesis
      using False k by (simp add: bit_of_le nth_append to_le_nth bit_ucast_iff bit_drop_bit_eq)
  qed
  then show "bit (cell_pid ?q c) k \<longleftrightarrow> bit (push_bit 32 (ucast nx) OR ucast sz :: u64) k"
    using k unfolding cell_pid_def rd64_def bytes
    by (auto simp: bit_or_iff bit_push_bit_iff bit_ucast_iff dest: bit_imp_le_length)
qed

end
