(* ===== verification/Node.thy ===== *)
theory Node
  imports Cell
begin

text \<open>
  \<open>struct node\<close>: the header of a page, the array of cell pointers behind it, and the
  layout invariant of the page (src/include/tree/node.h and the accessors of
  src/tree/node.c).

  The header occupies the bytes 0 to 55 of the page, the array of 4-byte cell pointers
  grows upwards from byte 56, cells are carved downwards from \<open>cell_offset\<close>, and the
  cells that were freed form a singly linked list of tombstones.
\<close>

section \<open>Header\<close>

abbreviation NODE_SIZE :: nat where "NODE_SIZE \<equiv> 4096"
abbreviation sizeof_node :: nat where "sizeof_node \<equiv> 56"

definition BTREE_NODE_FLAGS_LEAF :: u32 where "BTREE_NODE_FLAGS_LEAF = push_bit 0 1"
definition BTREE_NODE_FLAGS_ROOT :: u32 where "BTREE_NODE_FLAGS_ROOT = push_bit 1 1"

definition node_next_overflow_pid :: "page \<Rightarrow> u64" where "node_next_overflow_pid p = rd64 p 0"
definition node_last_overflow_pid :: "page \<Rightarrow> u64" where "node_last_overflow_pid p = rd64 p 8"
definition node_rightmost_pid :: "page \<Rightarrow> u64" where "node_rightmost_pid p = rd64 p 16"
definition node_parent_pid :: "page \<Rightarrow> u64" where "node_parent_pid p = rd64 p 24"
definition node_size :: "page \<Rightarrow> u32" where "node_size p = rd32 p 32"
definition node_cell_offset :: "page \<Rightarrow> u32" where "node_cell_offset p = rd32 p 36"
definition node_tombstone_offset :: "page \<Rightarrow> u32" where "node_tombstone_offset p = rd32 p 40"
definition node_tombstone_bytes :: "page \<Rightarrow> u32" where "node_tombstone_bytes p = rd32 p 44"
definition node_flags :: "page \<Rightarrow> u16" where "node_flags p = rd16 p 48"

definition set_next_overflow_pid :: "page \<Rightarrow> u64 \<Rightarrow> page" where "set_next_overflow_pid p v = wr64 p 0 v"
definition set_last_overflow_pid :: "page \<Rightarrow> u64 \<Rightarrow> page" where "set_last_overflow_pid p v = wr64 p 8 v"
definition set_rightmost_pid :: "page \<Rightarrow> u64 \<Rightarrow> page" where "set_rightmost_pid p v = wr64 p 16 v"
definition set_parent_pid :: "page \<Rightarrow> u64 \<Rightarrow> page" where "set_parent_pid p v = wr64 p 24 v"
definition set_size :: "page \<Rightarrow> u32 \<Rightarrow> page" where "set_size p v = wr32 p 32 v"
definition set_cell_offset :: "page \<Rightarrow> u32 \<Rightarrow> page" where "set_cell_offset p v = wr32 p 36 v"
definition set_tombstone_offset :: "page \<Rightarrow> u32 \<Rightarrow> page" where "set_tombstone_offset p v = wr32 p 40 v"
definition set_tombstone_bytes :: "page \<Rightarrow> u32 \<Rightarrow> page" where "set_tombstone_bytes p v = wr32 p 44 v"
definition set_flags :: "page \<Rightarrow> u16 \<Rightarrow> page" where "set_flags p v = wr16 p 48 v"

lemmas node_get_defs = node_next_overflow_pid_def node_last_overflow_pid_def node_rightmost_pid_def
  node_parent_pid_def node_size_def node_cell_offset_def node_tombstone_offset_def
  node_tombstone_bytes_def node_flags_def

lemmas node_set_defs = set_next_overflow_pid_def set_last_overflow_pid_def set_rightmost_pid_def
  set_parent_pid_def set_size_def set_cell_offset_def set_tombstone_offset_def
  set_tombstone_bytes_def set_flags_def

lemma node_size_set_size [simp]: "node_size (set_size p v) = v"
  by (simp add: node_size_def set_size_def)

section \<open>Accessors of node.c\<close>

definition node_parent :: "page \<Rightarrow> u64" where "node_parent p = node_parent_pid p"
definition node_set_parent :: "page \<Rightarrow> u64 \<Rightarrow> page" where "node_set_parent p parent = set_parent_pid p parent"
definition node_set_rightmost_child :: "page \<Rightarrow> u64 \<Rightarrow> page" where
  "node_set_rightmost_child p child = set_rightmost_pid p child"

text \<open>\<open>node->flags |= ROOT\<close> and \<open>node->flags &= ~ROOT\<close>: 32-bit operations stored to 16 bits.\<close>

definition node_set_root :: "page \<Rightarrow> page" where
  "node_set_root p = set_flags p (ucast ((ucast (node_flags p) :: u32) OR BTREE_NODE_FLAGS_ROOT))"

definition node_unset_root :: "page \<Rightarrow> page" where
  "node_unset_root p = set_flags p (ucast ((ucast (node_flags p) :: u32) AND NOT BTREE_NODE_FLAGS_ROOT))"

definition node_is_leaf :: "page \<Rightarrow> bool" where
  "node_is_leaf p \<longleftrightarrow> (ucast (node_flags p) :: u32) AND BTREE_NODE_FLAGS_LEAF \<noteq> 0"

definition node_is_root :: "page \<Rightarrow> bool" where
  "node_is_root p \<longleftrightarrow> (ucast (node_flags p) :: u32) AND BTREE_NODE_FLAGS_ROOT \<noteq> 0"

definition node_cells :: "page \<Rightarrow> nat" where "node_cells p = sizeof_node"

definition node_get_cell_ptr :: "page \<Rightarrow> u32 \<Rightarrow> nat" where
  "node_get_cell_ptr p idx = node_cells p + sizeof_cell_ptr * unat idx"

definition node_cell_from_offset :: "page \<Rightarrow> u32 \<Rightarrow> nat" where
  "node_cell_from_offset p offset = unat offset"

definition node_cell_from_ptr :: "page \<Rightarrow> nat \<Rightarrow> nat" where
  "node_cell_from_ptr p cell_ptr = node_cell_from_offset p (rd32 p cell_ptr)"

definition node_cell_from_idx :: "page \<Rightarrow> u32 \<Rightarrow> nat" where
  "node_cell_from_idx p idx = node_cell_from_ptr p (node_get_cell_ptr p idx)"

definition offset_from_cell :: "page \<Rightarrow> nat \<Rightarrow> u32" where
  "offset_from_cell p cell = of_nat cell"

text \<open>The initialisation, store by store.\<close>

definition node_init :: "page \<Rightarrow> u32 \<Rightarrow> page" where
  "node_init p flags =
     (let p = set_size p 0;
          p = set_tombstone_offset p 0;
          p = set_flags p 0;
          p = set_last_overflow_pid p 0;
          p = set_next_overflow_pid p 0;
          p = set_parent_pid p 0;
          p = node_set_rightmost_child p 0;
          p = set_tombstone_bytes p 0;
          p = set_cell_offset p (of_nat NODE_SIZE);
          p = set_flags p (ucast flags)
      in p)"

record cell_pointers =
  ptr_key :: nat
  ptr_value :: "nat option"
  ptr_key_size :: u32
  ptr_value_size :: u32

definition node_cell_pointers :: "page \<Rightarrow> nat \<Rightarrow> cell_pointers" where
  "node_cell_pointers p cell_ptr =
     (let cell = node_cell_from_ptr p cell_ptr
      in if (ucast (node_flags p) :: u32) AND BTREE_NODE_FLAGS_LEAF \<noteq> 0
         then \<lparr>ptr_key = cell_get_key p cell, ptr_value = Some (leaf_cell_get_value p cell),
               ptr_key_size = cell_key_size p cell, ptr_value_size = cell_value_size p cell\<rparr>
         else \<lparr>ptr_key = cell_get_key p cell, ptr_value = None,
               ptr_key_size = cell_key_size p cell, ptr_value_size = 0\<rparr>)"

section \<open>Abstraction of a page\<close>

text \<open>
  \<open>cell_at p i\<close> is the cell of the i-th pointer.  A page stands for the list of its
  entries: key and value in a leaf, key and child in an internal node.
\<close>

definition cell_at :: "page \<Rightarrow> nat \<Rightarrow> nat" where
  "cell_at p i = unat (rd32 p (sizeof_node + sizeof_cell_ptr * i))"

definition node_count :: "page \<Rightarrow> nat" where "node_count p = unat (node_size p)"

definition node_view :: "(page \<Rightarrow> nat \<Rightarrow> 'e) \<Rightarrow> page \<Rightarrow> 'e list" where
  "node_view view p = map (\<lambda>i. view p (cell_at p i)) [0..<node_count p]"

definition leaf_entry :: "page \<Rightarrow> nat \<Rightarrow> u8 list \<times> u8 list" where
  "leaf_entry p c = (cell_key p c, leaf_cell_value p c)"

definition leaf_entries :: "page \<Rightarrow> (u8 list \<times> u8 list) list" where
  "leaf_entries = node_view leaf_entry"

definition internal_entry :: "page \<Rightarrow> nat \<Rightarrow> u8 list \<times> u64" where
  "internal_entry p c = (cell_key p c, cell_pid p c)"

definition internal_entries :: "page \<Rightarrow> (u8 list \<times> u64) list" where
  "internal_entries = node_view internal_entry"

definition node_keys :: "page \<Rightarrow> dbkey list" where
  "node_keys = node_view (\<lambda>p c. DBKey (cell_key p c))"

lemma length_node_view [simp]: "length (node_view view p) = node_count p"
  by (simp add: node_view_def)

lemma node_view_nth [simp]: "i < node_count p \<Longrightarrow> node_view view p ! i = view p (cell_at p i)"
  by (simp add: node_view_def)

lemma length_entries [simp]:
  "length (leaf_entries p) = node_count p"
  "length (internal_entries p) = node_count p"
  "length (node_keys p) = node_count p"
  by (simp_all add: leaf_entries_def internal_entries_def node_keys_def)

lemma node_keys_leaf: "node_keys p = map (DBKey \<circ> fst) (leaf_entries p)"
  by (simp add: node_keys_def leaf_entries_def leaf_entry_def node_view_def)

lemma node_keys_internal: "node_keys p = map (DBKey \<circ> fst) (internal_entries p)"
  by (simp add: node_keys_def internal_entries_def internal_entry_def node_view_def)

lemma cell_from_idx_at: "node_cell_from_idx p idx = cell_at p (unat idx)"
  by (simp add: node_cell_from_idx_def node_cell_from_ptr_def node_cell_from_offset_def
      node_get_cell_ptr_def node_cells_def cell_at_def)

lemma cell_from_ptr_at:
  "node_cell_from_ptr p (node_get_cell_ptr p idx) = cell_at p (unat idx)"
  by (simp flip: cell_from_idx_at add: node_cell_from_idx_def)

section \<open>The layout invariant\<close>

text \<open>
  A block is a range of bytes.  \<open>node_layout p is ts\<close> speaks of the live cells with the
  pointer indices \<open>is\<close> and of the tombstone chain \<open>ts\<close>: the pointer array ends below
  \<open>cell_offset\<close>, every live cell and every tombstone lies between \<open>cell_offset\<close> and the
  end of the page, and no two of them overlap.  Between operations all pointers are live
  (\<open>node_wf\<close>); inside a split the tail of them is being freed.
\<close>

type_synonym block = "nat \<times> nat"

definition blk_disj :: "block \<Rightarrow> block \<Rightarrow> bool" where
  "blk_disj a b \<longleftrightarrow> fst a + snd a \<le> fst b \<or> fst b + snd b \<le> fst a"

lemma blk_disj_sym: "blk_disj a b \<longleftrightarrow> blk_disj b a"
  by (auto simp: blk_disj_def)

definition live_block :: "page \<Rightarrow> nat \<Rightarrow> block" where
  "live_block p i = (cell_at p i, cell_len p (cell_at p i))"

text \<open>
  The tombstone at \<open>t\<close> covers its size, and at least the 16 bytes of a cell header.
\<close>

definition tomb_block :: "page \<Rightarrow> nat \<Rightarrow> block" where
  "tomb_block p t = (t, max sizeof_cell (unat (cell_tombstone_size p t)))"

primrec tomb_chain :: "page \<Rightarrow> u32 \<Rightarrow> nat list \<Rightarrow> bool" where
  "tomb_chain p off [] \<longleftrightarrow> off = 0"
| "tomb_chain p off (t # ts) \<longleftrightarrow>
     off \<noteq> 0 \<and> t = unat off \<and> tomb_chain p (cell_next_off p t) ts"

definition node_blocks :: "page \<Rightarrow> nat list \<Rightarrow> nat list \<Rightarrow> block list" where
  "node_blocks p is ts = map (live_block p) is @ map (tomb_block p) ts"

definition in_range :: "nat \<Rightarrow> block \<Rightarrow> bool" where
  "in_range lo b \<longleftrightarrow> lo \<le> fst b \<and> fst b + snd b \<le> NODE_SIZE"

definition node_layout :: "page \<Rightarrow> nat list \<Rightarrow> nat list \<Rightarrow> bool" where
  "node_layout p is ts \<longleftrightarrow>
     sizeof_node + sizeof_cell_ptr * node_count p \<le> unat (node_cell_offset p) \<and>
     unat (node_cell_offset p) \<le> NODE_SIZE \<and>
     list_all (\<lambda>i. i < node_count p) is \<and>
     list_all (in_range (unat (node_cell_offset p))) (node_blocks p is ts) \<and>
     sorted_wrt blk_disj (node_blocks p is ts) \<and>
     tomb_chain p (node_tombstone_offset p) ts"

definition node_wf :: "page \<Rightarrow> nat list \<Rightarrow> bool" where
  "node_wf p ts \<longleftrightarrow> node_layout p [0..<node_count p] ts"

text \<open>
  What the cells of a leaf and of an internal node add: the sizes agree, and the keys
  are strictly ascending in the order of the comparison.
\<close>

definition leaf_cell_ok :: "page \<Rightarrow> nat \<Rightarrow> bool" where
  "leaf_cell_ok p c \<longleftrightarrow>
     unat (cell_total_size p c) = unat (cell_key_size p c) + unat (cell_value_size p c)"

definition internal_cell_ok :: "page \<Rightarrow> nat \<Rightarrow> bool" where
  "internal_cell_ok p c \<longleftrightarrow> cell_total_size p c = cell_key_size p c"

definition cells_ok :: "(page \<Rightarrow> nat \<Rightarrow> bool) \<Rightarrow> page \<Rightarrow> bool" where
  "cells_ok ok p \<longleftrightarrow> list_all (\<lambda>i. ok p (cell_at p i)) [0..<node_count p]"

lemma cells_okD: "cells_ok ok p \<Longrightarrow> i < node_count p \<Longrightarrow> ok p (cell_at p i)"
  by (simp add: cells_ok_def list_all_iff)

definition leaf_inv :: "page \<Rightarrow> nat list \<Rightarrow> bool" where
  "leaf_inv p ts \<longleftrightarrow> node_is_leaf p \<and> node_wf p ts \<and>
     cells_ok leaf_cell_ok p \<and> sorted_wrt (<) (node_keys p)"

definition internal_inv :: "page \<Rightarrow> nat list \<Rightarrow> bool" where
  "internal_inv p ts \<longleftrightarrow> \<not> node_is_leaf p \<and> node_wf p ts \<and>
     cells_ok internal_cell_ok p \<and> sorted_wrt (<) (node_keys p)"

text \<open>What both kinds of node share, and all that a search needs.\<close>

definition search_inv :: "page \<Rightarrow> bool" where
  "search_inv p \<longleftrightarrow> node_count p < 2 ^ 31 \<and>
     (\<forall>i < node_count p. unat (cell_key_size p (cell_at p i)) < 2 ^ 31) \<and>
     sorted_wrt (<) (node_keys p)"

subsection \<open>Consequences\<close>

lemma node_layoutD:
  assumes "node_layout p is ts"
  shows "sizeof_node + sizeof_cell_ptr * node_count p \<le> unat (node_cell_offset p)"
    "unat (node_cell_offset p) \<le> NODE_SIZE" "tomb_chain p (node_tombstone_offset p) ts"
    "i \<in> set is \<Longrightarrow> i < node_count p"
    "i \<in> set is \<Longrightarrow> in_range (unat (node_cell_offset p)) (live_block p i)"
    "t \<in> set ts \<Longrightarrow> in_range (unat (node_cell_offset p)) (tomb_block p t)"
  using assms by (auto simp: node_layout_def node_blocks_def list_all_iff)

lemma node_layout_live:
  assumes "node_layout p is ts" "i \<in> set is"
  shows "unat (node_cell_offset p) \<le> cell_at p i" "cell_at p i + cell_len p (cell_at p i) \<le> NODE_SIZE"
    "56 \<le> cell_at p i" "16 \<le> cell_len p (cell_at p i)"
  using node_layoutD(1) [OF assms(1)] node_layoutD(5) [OF assms]
  by (simp_all add: in_range_def live_block_def cell_len_def)

lemma node_layout_tomb:
  assumes "node_layout p is ts" "t \<in> set ts"
  shows "unat (node_cell_offset p) \<le> t" "t + max 16 (unat (cell_tombstone_size p t)) \<le> NODE_SIZE"
    "56 \<le> t"
  using node_layoutD(1) [OF assms(1)] node_layoutD(6) [OF assms]
  by (simp_all add: in_range_def tomb_block_def)

lemma node_layout_live_tomb:
  assumes "node_layout p is ts" "i \<in> set is" "t \<in> set ts"
  shows "blk_disj (live_block p i) (tomb_block p t)"
  using assms by (auto simp: node_layout_def node_blocks_def sorted_wrt_append)

lemma node_layout_live_live:
  assumes "node_layout p (is1 @ i # is2) ts" "j \<in> set (is1 @ is2)"
  shows "blk_disj (live_block p j) (live_block p i)"
  using assms by (auto simp: node_layout_def node_blocks_def sorted_wrt_append dest: blk_disj_sym [THEN iffD1])

lemma node_wf_live_live:
  assumes "node_wf p ts" "i < node_count p" "j < node_count p" "i \<noteq> j"
  shows "blk_disj (live_block p i) (live_block p j)"
proof -
  have "node_layout p ([0..<j] @ j # [Suc j..<node_count p]) ts"
    using assms(1) by (simp only: node_wf_def upt_split_at [OF assms(3)])
  moreover have "i \<in> set ([0..<j] @ [Suc j..<node_count p])" using assms by auto
  ultimately show ?thesis by (rule node_layout_live_live)
qed

lemma node_count_bound: "node_layout p is ts \<Longrightarrow> node_count p \<le> 1010"
  using node_layoutD(1,2) [of p "is" ts] by simp

lemma tomb_chain_0: "tomb_chain p 0 ts \<longleftrightarrow> ts = []"
  by (cases ts) simp_all

lemma tomb_chain_cong:
  assumes "\<And>t. t \<in> set ts \<Longrightarrow> cell_next_off q t = cell_next_off p t"
  shows "tomb_chain q off ts \<longleftrightarrow> tomb_chain p off ts"
  using assms by (induction ts arbitrary: off) auto

subsection \<open>Frames\<close>

text \<open>
  A page with the same live blocks (possibly under other indices), in which the
  tombstones' headers are untouched, has the same layout.
\<close>

lemma node_layout_frame:
  assumes lay: "node_layout p is ts"
    and blocks: "map (live_block q) js = map (live_block p) is"
    and tombs: "\<And>t i. t \<in> set ts \<Longrightarrow> t \<le> i \<Longrightarrow> i < t + 8 \<Longrightarrow> q i = p i"
    and head: "node_tombstone_offset q = node_tombstone_offset p"
      "node_cell_offset q = node_cell_offset p"
    and count: "sizeof_node + sizeof_cell_ptr * node_count q \<le> unat (node_cell_offset p)"
      "list_all (\<lambda>j. j < node_count q) js"
  shows "node_layout q js ts"
proof -
  have w: "cell_tombstone_size q t = cell_tombstone_size p t" "cell_next_off q t = cell_next_off p t"
    if "t \<in> set ts" for t
    unfolding cell_get_defs by (rule rd_cong; rule tombs [OF that]; simp)+
  have t: "map (tomb_block q) ts = map (tomb_block p) ts" "tomb_chain q off ts = tomb_chain p off ts" for off
    using w by (simp_all add: tomb_block_def tomb_chain_cong [of ts q p])
  show ?thesis
    using lay count unfolding node_layout_def node_blocks_def blocks t head by blast
qed

lemma entry_cong:
  assumes "same_cell p q c"
  shows "leaf_cell_ok p c \<Longrightarrow> leaf_cell_ok q c \<and> leaf_entry q c = leaf_entry p c"
    and "internal_cell_ok p c \<Longrightarrow> internal_cell_ok q c \<and> internal_entry q c = internal_entry p c"
  using same_cell_fields [OF assms] same_cell_key [OF assms] same_cell_value [OF assms]
  by (simp_all add: leaf_cell_ok_def internal_cell_ok_def leaf_entry_def internal_entry_def)

text \<open>
  A way to read a cell: an agreement of the cell's size fields under which the reading is a
  function of the bytes of the cell.  The operations that move, add and free cells are proved
  for any such reading; leaf cells and internal cells are the two the code has.
\<close>

locale cell_view =
  fixes ok :: "page \<Rightarrow> nat \<Rightarrow> bool" and view :: "page \<Rightarrow> nat \<Rightarrow> 'e"
  assumes frame: "same_cell p q c \<Longrightarrow> ok p c \<Longrightarrow> ok q c \<and> view q c = view p c"

interpretation leaf_view: cell_view leaf_cell_ok leaf_entry
  by unfold_locales (rule entry_cong(1))

interpretation internal_view: cell_view internal_cell_ok internal_entry
  by unfold_locales (rule entry_cong(2))

lemma live_block_cong:
  "same_cell p q (cell_at p i) \<Longrightarrow> cell_at q j = cell_at p i \<Longrightarrow> live_block q j = live_block p i"
  by (simp add: live_block_def same_cell_fields)

lemma search_inv_leaf:
  assumes "leaf_inv p ts"
  shows "search_inv p"
proof -
  have "unat (cell_key_size p (cell_at p i)) < 2 ^ 31" if "i < node_count p" for i
  proof -
    have "cell_len p (cell_at p i) \<le> 4096" "leaf_cell_ok p (cell_at p i)"
      using assms that node_layout_live(2) [of p "[0..<node_count p]" ts i]
      by (auto simp: leaf_inv_def node_wf_def cells_okD)
    then show ?thesis by (simp add: leaf_cell_ok_def cell_len_def)
  qed
  then show ?thesis
    using assms node_count_bound [of p "[0..<node_count p]" ts]
    by (simp add: search_inv_def leaf_inv_def node_wf_def)
qed

lemma search_inv_internal:
  assumes "internal_inv p ts"
  shows "search_inv p"
proof -
  have "unat (cell_key_size p (cell_at p i)) < 2 ^ 31" if "i < node_count p" for i
  proof -
    have "cell_len p (cell_at p i) \<le> 4096" "internal_cell_ok p (cell_at p i)"
      using assms that node_layout_live(2) [of p "[0..<node_count p]" ts i]
      by (auto simp: internal_inv_def node_wf_def cells_okD)
    then show ?thesis by (simp add: internal_cell_ok_def cell_len_def)
  qed
  then show ?thesis
    using assms node_count_bound [of p "[0..<node_count p]" ts]
    by (simp add: search_inv_def internal_inv_def node_wf_def)
qed

subsection \<open>A fresh node\<close>

lemma node_init_fields [simp]:
  "node_size (node_init p f) = 0" "node_cell_offset (node_init p f) = 4096"
  "node_tombstone_offset (node_init p f) = 0" "node_tombstone_bytes (node_init p f) = 0"
  "node_rightmost_pid (node_init p f) = 0" "node_parent_pid (node_init p f) = 0"
  "node_next_overflow_pid (node_init p f) = 0" "node_last_overflow_pid (node_init p f) = 0"
  "node_flags (node_init p f) = ucast f" "node_count (node_init p f) = 0"
  by (simp_all add: node_init_def node_get_defs node_set_defs Let_def node_set_rightmost_child_def
      node_count_def)

lemma node_init_wf: "node_wf (node_init p f) []"
  by (simp add: node_wf_def node_layout_def node_blocks_def)

end
