(* ===== verification/Node_Search.thy ===== *)
theory Node_Search
  imports Node
begin

text \<open>
  Searching a node: \<open>key_compare\<close>, \<open>key_compare_cell\<close>, \<open>node_bin_search\<close> and
  \<open>node_get_cell\<close> of src/tree/node.c.

  The binary search is stated over the comparison with the element at an index.  The locale
  \<open>probed_array\<close> is its interface to the node: what the search relies on is a strictly
  ascending sequence and a comparison that decides its order; the interpretation discharges
  this for the cells of a page.
\<close>

section \<open>The code\<close>

text \<open>A key is passed as a pointer and a size: the bytes behind the pointer and the size.\<close>

definition key_compare_cell :: "page \<Rightarrow> nat \<Rightarrow> u8 list \<Rightarrow> u32 \<Rightarrow> int" where
  "key_compare_cell p cell key key_size =
     key_compare_bytes (cell_key p cell) (cell_key_size p cell) key key_size"

definition key_compare :: "page \<Rightarrow> nat \<Rightarrow> u8 list \<Rightarrow> u32 \<Rightarrow> int" where
  "key_compare p cell_p key key_size = key_compare_cell p (node_cell_from_ptr p cell_p) key key_size"

text \<open>The loop, with \<open>None\<close> for not returning.\<close>

partial_function (option) bin_search_loop :: "(u32 \<Rightarrow> int) \<Rightarrow> u32 \<Rightarrow> u32 \<Rightarrow> (bool \<times> u32) option" where
  "bin_search_loop cmp_at low high =
     (if low < high
      then (let mid = (low + high) div 2; cmp = cmp_at mid
            in if cmp = 0 then Some (True, mid)
               else if cmp > 0 then bin_search_loop cmp_at low mid
               else bin_search_loop cmp_at (mid + 1) high)
      else Some (False, low))"

definition node_bin_search :: "page \<Rightarrow> u8 list \<Rightarrow> u32 \<Rightarrow> (bool \<times> u32) option" where
  "node_bin_search p key key_size =
     bin_search_loop (\<lambda>mid. key_compare p (node_get_cell_ptr p mid) key key_size) 0 (node_size p)"

definition node_get_cell :: "page \<Rightarrow> u8 list \<Rightarrow> u32 \<Rightarrow> nat option res" where
  "node_get_cell p key key_size =
     bind_res (loop_res (node_bin_search p key key_size)) (\<lambda>(ret, idx).
       if \<not> ret then Inr None
       else assert_res (idx < node_size p) (Inr (Some (node_get_cell_ptr p idx))))"

section \<open>Lower bounds\<close>

text \<open>The index of the first element that is not below the key.\<close>

definition lower_bound :: "'k::linorder list \<Rightarrow> 'k \<Rightarrow> nat" where
  "lower_bound xs k = length (takeWhile (\<lambda>x. x < k) xs)"

lemma lower_bound_le [simp]: "lower_bound xs k \<le> length xs"
  by (simp add: lower_bound_def length_takeWhile_le)

lemma lower_bound_eqI:
  assumes "j \<le> length xs" "\<And>i. i < j \<Longrightarrow> xs ! i < k" "j < length xs \<Longrightarrow> k \<le> xs ! j"
  shows "lower_bound xs k = j"
proof -
  have "takeWhile (\<lambda>x. x < k) xs = take j xs"
    using assms by (intro takeWhile_eq_take_P_nth) (auto simp: not_less)
  then show ?thesis using assms(1) by (simp add: lower_bound_def)
qed

lemma lower_bound_below: "i < lower_bound xs k \<Longrightarrow> xs ! i < k"
  unfolding lower_bound_def
  by (metis set_takeWhileD nth_mem takeWhile_nth)

lemma lower_bound_above:
  assumes "sorted_wrt (<) xs" "lower_bound xs k \<le> i" "i < length xs"
  shows "k \<le> xs ! i"
proof -
  have "k \<le> xs ! lower_bound xs k"
    using nth_length_takeWhile [of "\<lambda>x. x < k" xs] assms by (simp add: lower_bound_def not_less)
  also have "\<dots> \<le> xs ! i"
    using assms sorted_wrt_nth_less [OF assms(1), of "lower_bound xs k" i]
    by (cases "lower_bound xs k = i") (auto intro: less_imp_le)
  finally show ?thesis .
qed

lemma lower_bound_above_strict:
  assumes "sorted_wrt (<) xs" "k \<notin> set xs" "lower_bound xs k \<le> i" "i < length xs"
  shows "k < xs ! i"
  using lower_bound_above [OF assms(1,3,4)] assms(2,4) by (auto simp: le_less)

lemma sorted_insert_lower_bound:
  assumes "sorted_wrt (<) xs" "k \<notin> set xs"
  shows "sorted_wrt (<) (insert_at (lower_bound xs k) k xs)"
  using assms by (intro sorted_wrt_insert_at) (auto intro: lower_bound_below lower_bound_above_strict)

lemma lower_bound_present:
  assumes "sorted_wrt (<) xs" "k \<in> set xs"
  shows "lower_bound xs k < length xs \<and> xs ! lower_bound xs k = k"
proof -
  from assms(2) obtain i where i: "i < length xs" "xs ! i = k" by (auto simp: in_set_conv_nth)
  have "lower_bound xs k = i"
    using i assms(1) by (intro lower_bound_eqI) (auto dest: sorted_wrt_nth_less)
  with i show ?thesis by simp
qed

section \<open>Binary search over an array that is only probed\<close>

lemma mid_bounds:
  assumes "low < high" "unat high < 2 ^ 31"
  shows "unat ((low + high) div 2 :: u32) = (unat low + unat high) div 2"
    and "unat low \<le> (unat low + unat high) div 2" "(unat low + unat high) div 2 < unat high"
    and "unat ((low + high) div 2 + 1 :: u32) = (unat low + unat high) div 2 + 1"
proof -
  have lt: "unat low < unat high" using assms(1) by (simp add: word_less_nat_alt)
  then have s: "unat (low + high) = unat low + unat high" using assms(2) by (simp add: unat_simps)
  then show m: "unat ((low + high) div 2 :: u32) = (unat low + unat high) div 2"
    by (simp add: unat_div_distrib)
  show "unat low \<le> (unat low + unat high) div 2" "(unat low + unat high) div 2 < unat high"
    using lt by linarith+
  then show "unat ((low + high) div 2 + 1 :: u32) = (unat low + unat high) div 2 + 1"
    using m assms(2) by (simp add: unat_simps)
qed

text \<open>The loop returns whatever the comparison says, and its index stays in the window.\<close>

lemma bin_search_loop_returns:
  assumes "unat low \<le> unat high" "unat high < 2 ^ 31"
  shows "\<exists>found idx. bin_search_loop cmp_at low high = Some (found, idx) \<and>
           unat low \<le> unat idx \<and> unat idx \<le> unat high \<and> (found \<longrightarrow> unat idx < unat high)"
  using assms
proof (induction "unat high - unat low" arbitrary: low high rule: less_induct)
  case less
  show ?case
  proof (cases "low < high")
    case False
    then show ?thesis
      using less.prems
      by (intro exI [of _ False] exI [of _ low]) (simp add: bin_search_loop.simps [of cmp_at low high])
  next
    case True
    let ?mid = "(low + high) div 2"
    note mid = mid_bounds [OF True less.prems(2)]
    consider "cmp_at ?mid = 0" | "cmp_at ?mid > 0" | "cmp_at ?mid < 0" by linarith
    then show ?thesis
    proof cases
      case 1
      then show ?thesis
        using True mid less.prems by (auto simp: bin_search_loop.simps [of cmp_at low high] Let_def)
    next
      case 2
      moreover have "\<exists>found idx. bin_search_loop cmp_at low ?mid = Some (found, idx) \<and>
          unat low \<le> unat idx \<and> unat idx \<le> unat ?mid \<and> (found \<longrightarrow> unat idx < unat ?mid)"
        using mid less.prems by (intro less.hyps) linarith+
      ultimately show ?thesis
        using True mid by (fastforce simp: bin_search_loop.simps [of cmp_at low high] Let_def)
    next
      case 3
      moreover have "\<exists>found idx. bin_search_loop cmp_at (?mid + 1) high = Some (found, idx) \<and>
          unat (?mid + 1) \<le> unat idx \<and> unat idx \<le> unat high \<and> (found \<longrightarrow> unat idx < unat high)"
        using mid less.prems by (intro less.hyps) simp_all
      ultimately show ?thesis
        using True mid by (fastforce simp: bin_search_loop.simps [of cmp_at low high] Let_def)
    qed
  qed
qed

locale probed_array =
  fixes inv :: "'s \<Rightarrow> bool"
    and elems :: "'s \<Rightarrow> 'k::linorder list"
    and probe :: "'s \<Rightarrow> 'q \<Rightarrow> u32 \<Rightarrow> int"
    and query :: "'q \<Rightarrow> bool"
    and wanted :: "'q \<Rightarrow> 'k"
  assumes short: "inv s \<Longrightarrow> length (elems s) < 2 ^ 31"
    and ascending: "inv s \<Longrightarrow> sorted_wrt (<) (elems s)"
    and probe_zero: "inv s \<Longrightarrow> query q \<Longrightarrow> unat i < length (elems s) \<Longrightarrow>
          probe s q i = 0 \<longleftrightarrow> elems s ! unat i = wanted q"
    and probe_pos: "inv s \<Longrightarrow> query q \<Longrightarrow> unat i < length (elems s) \<Longrightarrow>
          0 < probe s q i \<longleftrightarrow> wanted q < elems s ! unat i"
begin

lemma search_window:
  assumes s: "inv s" "query q"
    and "unat low \<le> unat high" "unat high \<le> length (elems s)"
    and "\<And>i. i < unat low \<Longrightarrow> elems s ! i < wanted q"
    and "\<And>i. unat high \<le> i \<Longrightarrow> i < length (elems s) \<Longrightarrow> wanted q < elems s ! i"
  shows "\<exists>idx. bin_search_loop (probe s q) low high = Some (wanted q \<in> set (elems s), idx) \<and>
           unat idx = lower_bound (elems s) (wanted q)"
  using assms(3-)
proof (induction "unat high - unat low" arbitrary: low high rule: less_induct)
  case less
  have high31: "unat high < 2 ^ 31" using less.prems(2) short [OF s(1)] by linarith
  show ?case
  proof (cases "low < high")
    case False
    then have eq: "unat low = unat high" using less.prems(1) by (simp add: word_less_nat_alt)
    then have out: "wanted q \<notin> set (elems s)"
      using less.prems(3,4) by (metis in_set_conv_nth less_irrefl not_le)
    have "lower_bound (elems s) (wanted q) = unat low"
      using eq less.prems by (intro lower_bound_eqI) (auto intro: less_imp_le)
    with False out show ?thesis by (simp add: bin_search_loop.simps [of _ low high])
  next
    case True
    let ?mid = "(low + high) div 2"
    note mid = mid_bounds [OF True high31]
    have midlen: "unat ?mid < length (elems s)" using mid less.prems(2) by simp
    note asc = ascending [OF s(1), THEN sorted_wrt_nth_less]
    consider "probe s q ?mid = 0" | "probe s q ?mid > 0" | "probe s q ?mid < 0" by linarith
    then show ?thesis
    proof cases
      case 1
      then have e: "elems s ! unat ?mid = wanted q" using probe_zero [OF s midlen] by simp
      then have "wanted q \<in> set (elems s)" using midlen nth_mem by metis
      moreover have "lower_bound (elems s) (wanted q) = unat ?mid"
        using e asc [of _ "unat ?mid"] midlen by (intro lower_bound_eqI) auto
      ultimately show ?thesis using 1 True by (simp add: bin_search_loop.simps [of _ low high] Let_def)
    next
      case 2
      then have e: "wanted q < elems s ! unat ?mid" using probe_pos [OF s midlen] by simp
      have "\<exists>idx. bin_search_loop (probe s q) low ?mid = Some (wanted q \<in> set (elems s), idx) \<and>
          unat idx = lower_bound (elems s) (wanted q)"
      proof (rule less.hyps)
        show "unat ?mid - unat low < unat high - unat low" using mid by linarith
        show "unat low \<le> unat ?mid" "unat ?mid \<le> length (elems s)" using mid midlen by simp_all
        show "elems s ! i < wanted q" if "i < unat low" for i using that by (rule less.prems(3))
        show "wanted q < elems s ! i" if "unat ?mid \<le> i" "i < length (elems s)" for i
          using e asc [of "unat ?mid" i] that by (cases "i = unat ?mid") auto
      qed
      with 2 True show ?thesis by (simp add: bin_search_loop.simps [of _ low high] Let_def)
    next
      case 3
      then have e: "elems s ! unat ?mid < wanted q"
        using probe_zero [OF s midlen] probe_pos [OF s midlen] by (metis less_asym linorder_neqE)
      have "\<exists>idx. bin_search_loop (probe s q) (?mid + 1) high = Some (wanted q \<in> set (elems s), idx) \<and>
          unat idx = lower_bound (elems s) (wanted q)"
      proof (rule less.hyps)
        show "unat high - unat (?mid + 1) < unat high - unat low" using mid by linarith
        show "unat (?mid + 1) \<le> unat high" "unat high \<le> length (elems s)" using mid less.prems by simp_all
        show "wanted q < elems s ! i" if "unat high \<le> i" "i < length (elems s)" for i
          using that by (rule less.prems(4))
        show "elems s ! i < wanted q" if "i < unat (?mid + 1)" for i
          using e asc [of i "unat ?mid"] that mid midlen by (cases "i = unat ?mid") auto
      qed
      with 3 True show ?thesis by (simp add: bin_search_loop.simps [of _ low high] Let_def)
    qed
  qed
qed

lemma search_all:
  assumes "inv s" "query q" "unat n = length (elems s)"
  shows "bin_search_loop (probe s q) 0 n =
           Some (wanted q \<in> set (elems s), of_nat (lower_bound (elems s) (wanted q)))"
proof -
  obtain idx where "bin_search_loop (probe s q) 0 n = Some (wanted q \<in> set (elems s), idx)"
      "unat idx = lower_bound (elems s) (wanted q)"
    using search_window [OF assms(1,2), of 0 n] assms(3) by auto
  moreover from this(2) have "idx = of_nat (lower_bound (elems s) (wanted q))"
    by (metis of_nat_unat ucast_id)
  ultimately show ?thesis by simp
qed

end

section \<open>The cells of a node\<close>

definition key_arg :: "u8 list \<Rightarrow> u32 \<Rightarrow> bool" where
  "key_arg key key_size \<longleftrightarrow> length key = unat key_size \<and> unat key_size < 2 ^ 31"

lemma node_keys_nth: "i < node_count p \<Longrightarrow> node_keys p ! i = DBKey (cell_key p (cell_at p i))"
  by (simp add: node_keys_def)

interpretation node_array: probed_array search_inv node_keys
  "\<lambda>p (key, key_size) mid. key_compare p (node_get_cell_ptr p mid) key key_size"
  "\<lambda>(key, key_size). key_arg key key_size" "\<lambda>(key, key_size). DBKey key"
  by unfold_locales
    (auto simp: search_inv_def key_arg_def node_keys_nth key_compare_def key_compare_cell_def
      cell_from_ptr_at key_compare_bytes_sign)

text \<open>
  Search by the order: the flag tells whether the key occurs, the index is its place.
\<close>

lemma node_bin_search_eq:
  assumes "search_inv p" "key_arg key key_size"
  shows "node_bin_search p key key_size =
    Some (DBKey key \<in> set (node_keys p), of_nat (lower_bound (node_keys p) (DBKey key)))"
  using node_array.search_all [of p "(key, key_size)" "node_size p"] assms
  by (simp add: node_bin_search_def node_count_def)

lemma unat_lower_bound:
  assumes "search_inv p"
  shows "unat (of_nat (lower_bound (node_keys p) k) :: u32) = lower_bound (node_keys p) k"
  using assms lower_bound_le [of "node_keys p" k] by (simp add: search_inv_def unat_simps)

lemma node_get_cell_eq:
  assumes "search_inv p" "key_arg key key_size"
  shows "node_get_cell p key key_size =
    Inr (if DBKey key \<in> set (node_keys p)
         then Some (node_get_cell_ptr p (of_nat (lower_bound (node_keys p) (DBKey key)))) else None)"
proof (cases "DBKey key \<in> set (node_keys p)")
  case True
  then have "lower_bound (node_keys p) (DBKey key) < node_count p"
    using lower_bound_present [of "node_keys p" "DBKey key"] assms(1) by (simp add: search_inv_def)
  then have "(of_nat (lower_bound (node_keys p) (DBKey key)) :: u32) < node_size p"
    using unat_lower_bound [OF assms(1)] by (simp add: word_less_nat_alt node_count_def)
  with True show ?thesis by (simp add: node_get_cell_def node_bin_search_eq [OF assms])
next
  case False
  then show ?thesis by (simp add: node_get_cell_def node_bin_search_eq [OF assms])
qed

end
