(* ===== verification/Node_Space.thy ===== *)
theory Node_Space
  imports Node
begin

text \<open>
  Space management in a node: \<open>node_is_full\<close>, \<open>node_get_free_offset\<close> and
  \<open>node_tuple_set_tombstone\<close> of src/tree/node.c.  Space comes either from the gap between
  the pointer array and \<open>cell_offset\<close> or from a tombstone.
\<close>

section \<open>The code\<close>

text \<open>
  The size computations mix \<open>__u32\<close> with \<open>size_t\<close>: \<open>key_size + value_size\<close> wraps at
  32 bits, the rest is computed in 64 bits and stored to 32.
\<close>

definition hdr_offset_limit :: "page \<Rightarrow> u32" where
  "hdr_offset_limit p = ucast (56 + 4 * ucast (node_size p) :: u64)"

definition node_free_space :: "page \<Rightarrow> u32" where
  "node_free_space p = node_cell_offset p - hdr_offset_limit p"

definition new_cell_size :: "u32 \<Rightarrow> u32 \<Rightarrow> u32" where
  "new_cell_size key_size value_size = ucast (ALIGN (ucast (key_size + value_size) + 16 :: u64) 4)"

partial_function (option) no_tombstone_fits :: "page \<Rightarrow> u32 \<Rightarrow> u32 \<Rightarrow> bool option" where
  "no_tombstone_fits p need next_off =
     (if next_off \<noteq> 0
      then (let tombstone = node_cell_from_offset p next_off
            in if cell_tombstone_size p tombstone \<ge> need then Some False
               else no_tombstone_fits p need (cell_next_off p tombstone))
      else Some True)"

definition node_is_full :: "page \<Rightarrow> u32 \<Rightarrow> u32 \<Rightarrow> bool option" where
  "node_is_full p key_size value_size =
     (if node_free_space p < new_cell_size key_size value_size
      then no_tombstone_fits p (new_cell_size key_size value_size) (node_tombstone_offset p)
      else Some False)"

text \<open>Only the first tombstone is considered here; 0 stands for "no place".\<close>

definition node_get_free_offset :: "page \<Rightarrow> u32 \<Rightarrow> u32 \<Rightarrow> u32 \<times> page" where
  "node_get_free_offset p key_size value_size =
     (let need = new_cell_size key_size value_size
      in if node_free_space p < need
         then if node_tombstone_offset p \<noteq> 0
              then (let tombstone = node_cell_from_offset p (node_tombstone_offset p)
                    in if need \<le> cell_tombstone_size p tombstone
                       then (let offset = node_tombstone_offset p;
                                 diff = cell_tombstone_size p tombstone - need;
                                 (new_off, p1) =
                                   (if diff > ALIGN 16 4
                                    then (let new_tombstone = tombstone + unat need;
                                              q = set_cell_tombstone_size p new_tombstone
                                                    (ucast (ucast diff - 16 :: u64));
                                              q = set_cell_next_off q new_tombstone (cell_next_off q tombstone)
                                          in (offset_from_cell q new_tombstone, q))
                                    else (cell_next_off p tombstone, p));
                                 p2 = set_tombstone_offset p1 new_off;
                                 p3 = set_tombstone_bytes p2 (node_tombstone_bytes p2 - need)
                             in (offset, p3))
                       else (0, p))
              else (0, p)
         else (node_cell_offset p - need, p))"

definition node_tuple_set_tombstone :: "page \<Rightarrow> u32 \<Rightarrow> page" where
  "node_tuple_set_tombstone p idx =
     (let cell = node_cell_from_ptr p (node_get_cell_ptr p idx);
          p = set_cell_tombstone_size p cell (ucast (16 + ucast (cell_total_size p cell) :: u64));
          p = set_cell_next_off p cell (node_tombstone_offset p);
          p = set_tombstone_offset p (offset_from_cell p cell);
          p = set_tombstone_bytes p (node_tombstone_bytes p + cell_tombstone_size p cell)
      in p)"

section \<open>Sizes as natural numbers\<close>

text \<open>The number of bytes that an entry takes in a node.\<close>

definition cell_space :: "nat \<Rightarrow> nat" where
  "cell_space content = (content + 16 + 3) div 4 * 4"

lemma cell_space_bounds: "content + 16 \<le> cell_space content" "cell_space content < content + 20"
  unfolding cell_space_def by linarith+

lemma unat_new_cell_size:
  assumes "unat key_size + unat value_size < 2 ^ 31"
  shows "unat (new_cell_size key_size value_size) = cell_space (unat key_size + unat value_size)"
proof -
  let ?s = "unat key_size + unat value_size"
  have "unat (key_size + value_size) = ?s" using assms by (simp add: unat_simps)
  then have "unat (ucast (key_size + value_size) :: u64) = ?s" by (simp add: unat_ucast_up)
  then have x: "unat (ucast (key_size + value_size) + 16 :: u64) = ?s + 16"
    using assms by (simp add: unat_simps)
  then have "unat (ALIGN (ucast (key_size + value_size) + 16 :: u64) 4) = cell_space ?s"
    using assms by (simp add: unat_ALIGN_4 cell_space_def)
  moreover have "cell_space ?s < 2 ^ 32" using cell_space_bounds(2) [of ?s] assms by simp
  ultimately show ?thesis
    unfolding new_cell_size_def by (subst unat_ucast_down) simp_all
qed

lemma unat_hdr_offset_limit:
  assumes "node_count p < 2 ^ 29"
  shows "unat (hdr_offset_limit p) = 56 + 4 * node_count p"
proof -
  have "unat (ucast (node_size p) :: u64) = node_count p"
    by (simp add: unat_ucast_up node_count_def)
  then have "unat (4 * ucast (node_size p) :: u64) = 4 * node_count p"
    using assms by (simp add: unat_mult_lem [THEN iffD1])
  then have "unat (56 + 4 * ucast (node_size p) :: u64) = 56 + 4 * node_count p"
    using assms by (simp add: unat_simps)
  then show ?thesis
    using assms unfolding hdr_offset_limit_def by (subst unat_ucast_down) simp_all
qed

lemma unat_node_free_space:
  assumes "node_layout p is ts"
  shows "unat (node_free_space p) = unat (node_cell_offset p) - (56 + 4 * node_count p)"
  using node_layoutD(1) [OF assms] node_count_bound [OF assms]
  by (simp add: node_free_space_def unat_simps unat_hdr_offset_limit)

section \<open>The tombstone list\<close>

lemma no_tombstone_fits_chain:
  assumes "tomb_chain p off ts"
  shows "no_tombstone_fits p need off = Some (\<forall>t \<in> set ts. cell_tombstone_size p t < need)"
  using assms
proof (induction ts arbitrary: off)
  case Nil
  then show ?case by (subst no_tombstone_fits.simps) simp
next
  case (Cons t ts)
  then show ?case
    by (subst no_tombstone_fits.simps) (auto simp: node_cell_from_offset_def Let_def dest: leD)
qed

lemma node_is_full_eq:
  assumes "node_layout p is ts"
  shows "node_is_full p ks vs =
    Some (node_free_space p < new_cell_size ks vs \<and>
          (\<forall>t \<in> set ts. cell_tombstone_size p t < new_cell_size ks vs))"
  using no_tombstone_fits_chain [OF node_layoutD(3) [OF assms]] by (simp add: node_is_full_def)

text \<open>
  \<open>node_get_free_offset\<close> looks at the head of the chain only; when that is too small it
  reports "no place" and leaves the page as it is.
\<close>

lemma free_offset_none:
  assumes "node_free_space p < new_cell_size ks vs"
    and "node_tombstone_offset p = 0 \<or>
      cell_tombstone_size p (unat (node_tombstone_offset p)) < new_cell_size ks vs"
  shows "node_get_free_offset p ks vs = (0, p)"
  using assms by (auto simp: node_get_free_offset_def Let_def node_cell_from_offset_def not_le)

section \<open>Freeing a cell\<close>

lemma set_tombstone_bytes_eq:
  fixes p :: page
  assumes "c = cell_at p (unat idx)" "48 \<le> c"
  shows "i < 40 \<or> 48 \<le> i \<Longrightarrow> i < c \<or> c + 8 \<le> i \<Longrightarrow> node_tuple_set_tombstone p idx i = p i"
  using assms
  by (auto simp: node_tuple_set_tombstone_def Let_def cell_from_ptr_at cell_set_defs node_set_defs)

lemma set_tombstone_fields:
  fixes p :: page
  assumes "c = cell_at p (unat idx)" "56 \<le> c" "c < 2 ^ 32"
  defines "q \<equiv> node_tuple_set_tombstone p idx"
  shows "node_tombstone_offset q = of_nat c" "cell_next_off q c = node_tombstone_offset p"
    "cell_tombstone_size q c = 16 + cell_total_size p c"
    "node_tombstone_bytes q = node_tombstone_bytes p + (16 + cell_total_size p c)"
    "node_size q = node_size p" "node_count q = node_count p" "node_cell_offset q = node_cell_offset p"
    "node_flags q = node_flags p" "node_rightmost_pid q = node_rightmost_pid p"
    "node_parent_pid q = node_parent_pid p"
  using assms(2,3) unfolding q_def node_tuple_set_tombstone_def Let_def cell_from_ptr_at assms(1) [symmetric]
  by (simp_all add: node_get_defs node_set_defs cell_get_defs cell_set_defs offset_from_cell_def
      node_count_def)

text \<open>
  Freeing the cell of pointer \<open>i\<close> takes its block from the live cells to the head of the
  tombstone chain, and touches nothing else: pointers and other live cells stay as they are.
\<close>

lemma set_tombstone_layout:
  assumes lay: "node_layout p (is1 @ unat idx # is2) ts"
  defines "c \<equiv> cell_at p (unat idx)" and "q \<equiv> node_tuple_set_tombstone p idx"
  shows "node_layout q (is1 @ is2) (c # ts)"
    and "\<And>j. j < node_count p \<Longrightarrow> cell_at q j = cell_at p j"
    and "\<And>j. j \<in> set (is1 @ is2) \<Longrightarrow> same_cell p q (cell_at p j)"
    and "\<And>t. t \<in> set ts \<Longrightarrow> cell_tombstone_size q t = cell_tombstone_size p t"
proof -
  let ?i = "unat idx" and ?is = "is1 @ unat idx # is2"
  have i: "?i \<in> set ?is" by simp
  note c = node_layout_live [OF lay i, folded c_def]
  have c32: "c < 2 ^ 32" "56 \<le> c" "48 \<le> c" using c by simp_all
  note same = set_tombstone_bytes_eq [OF c_def [THEN meta_eq_to_obj_eq] c32(3), folded q_def]
  note fields = set_tombstone_fields [OF c_def [THEN meta_eq_to_obj_eq] c32(2,1), folded q_def]
  show ptr: "cell_at q j = cell_at p j" if "j < node_count p" for j
    unfolding cell_at_def using that node_layoutD(1) [OF lay] c(1)
    by (intro arg_cong [where f = unat] rd_cong(2) same) linarith+
  have disj: "blk_disj (live_block p j) (c, cell_len p c)" if "j \<in> set (is1 @ is2)" for j
    using node_layout_live_live [OF lay that] by (simp add: live_block_def c_def)
  show cell: "same_cell p q (cell_at p j)" if j: "j \<in> set (is1 @ is2)" for j
  proof (rule same_cellI)
    fix a assume "cell_at p j \<le> a" "a < cell_at p j + cell_len p (cell_at p j)"
    then show "q a = p a"
      using disj [OF j] c(4) node_layout_live(3) [OF lay, of j] j
      by (intro same) (auto simp: blk_disj_def live_block_def)
  qed
  have total: "cell_tombstone_size q c = 16 + cell_total_size p c" by (rule fields(3))
  have len: "unat (16 + cell_total_size p c) = cell_len p c"
    using c(2) by (simp add: cell_len_def unat_simps)
  have tc: "tomb_block q c = live_block p ?i"
    using total len c(4) by (simp add: tomb_block_def live_block_def c_def)
  have tdisj: "blk_disj (c, cell_len p c) (tomb_block p t)" if "t \<in> set ts" for t
    using node_layout_live_tomb [OF lay i that] by (simp add: live_block_def c_def)
  have tsame: "q a = p a" if "t \<in> set ts" "t \<le> a" "a < t + 8" for t a
    using tdisj [OF that(1)] that(2,3) c(4) node_layout_tomb(3) [OF lay that(1)]
    by (intro same) (auto simp: blk_disj_def tomb_block_def max_def split: if_splits)
  have w: "cell_tombstone_size q t = cell_tombstone_size p t" "cell_next_off q t = cell_next_off p t"
    if "t \<in> set ts" for t
    unfolding cell_get_defs by (rule rd_cong; rule tsame [OF that]; simp)+
  show "cell_tombstone_size q t = cell_tombstone_size p t" if "t \<in> set ts" for t using that by (rule w(1))
  have tombs: "map (tomb_block q) ts = map (tomb_block p) ts" "tomb_chain q off ts = tomb_chain p off ts" for off
    using w by (simp_all add: tomb_block_def tomb_chain_cong [of ts q p])
  have count: "j < node_count p" if "j \<in> set ?is" for j using node_layoutD(4) [OF lay that] .
  have live: "live_block q j = live_block p j" if "j \<in> set (is1 @ is2)" for j
    using that cell ptr count by (auto intro!: live_block_cong)
  then have maps: "map (live_block q) is1 = map (live_block p) is1" "map (live_block q) is2 = map (live_block p) is2"
    by simp_all
  have uc: "unat (of_nat c :: u32) = c" using c32(1) by (simp add: unat_simps)
  then have "(of_nat c :: u32) \<noteq> 0" using c32(2) by (metis unsigned_0 not_numeral_le_zero)
  then have chain: "tomb_chain q (node_tombstone_offset q) (c # ts)"
    using uc tombs(2) node_layoutD(3) [OF lay] unfolding fields(1) tomb_chain.simps fields(2) by simp
  show "node_layout q (is1 @ is2) (c # ts)"
    using lay chain
    unfolding node_layout_def node_blocks_def fields(6,7) list.map tc tombs(1) map_append
      maps
    by (auto simp: list_all_append sorted_wrt_append blk_disj_sym)
qed

end
