(* ===== verification/Node_Ops.thy ===== *)
theory Node_Ops
  imports Node_Search Node_Space
begin

text \<open>
  Writing, inserting and deleting cells: \<open>node_write_leaf_cell\<close>,
  \<open>node_write_internal_cell\<close>, \<open>node_insert_leaf_cell\<close>, \<open>node_insert_internal_cell\<close>,
  \<open>node_insert_nonfull\<close> and \<open>node_delete_key\<close> of src/tree/node.c, with their effect on
  the entries of the page.
\<close>

section \<open>The code\<close>

definition node_write_leaf_cell ::
  "page \<Rightarrow> nat \<Rightarrow> u8 list \<Rightarrow> u32 \<Rightarrow> u8 list \<Rightarrow> u32 \<Rightarrow> u16 \<Rightarrow> page" where
  "node_write_leaf_cell p cell_ptr key key_size value value_size flags =
     (let cell = node_cell_from_ptr p cell_ptr;
          p = set_cell_flags p cell (ucast flags);
          p = set_cell_key_size p cell key_size;
          p = set_cell_value_size p cell value_size;
          p = set_cell_total_size p cell (key_size + value_size);
          p = wr_bytes p (cell_get_key p cell) (take (unat key_size) key);
          p = wr_bytes p (leaf_cell_get_value p cell) (take (unat value_size) value)
      in p)"

definition node_write_internal_cell ::
  "page \<Rightarrow> nat \<Rightarrow> u8 list \<Rightarrow> u32 \<Rightarrow> u64 \<Rightarrow> u16 \<Rightarrow> page" where
  "node_write_internal_cell p cell_ptr key key_size child flags =
     (let cell = node_cell_from_ptr p cell_ptr;
          p = set_cell_key_size p cell key_size;
          p = set_cell_total_size p cell key_size;
          p = set_cell_pid p cell child;
          p = wr_bytes p (cell_get_key p cell) (take (unat key_size) key)
      in p)"

text \<open>The first half of both insertions: open a gap in the pointer array and fill it.\<close>

definition insert_cell_ptr :: "page \<Rightarrow> u32 \<Rightarrow> u32 \<Rightarrow> page" where
  "insert_cell_ptr p offset idx =
     wr32 (move_bytes p (node_get_cell_ptr p (idx + 1)) (node_get_cell_ptr p idx)
             (unat (node_size p - idx) * sizeof_cell_ptr))
       (node_get_cell_ptr p idx) offset"

definition node_insert_leaf_cell ::
  "page \<Rightarrow> u32 \<Rightarrow> u32 \<Rightarrow> u8 list \<Rightarrow> u32 \<Rightarrow> u8 list \<Rightarrow> u32 \<Rightarrow> page" where
  "node_insert_leaf_cell p offset idx key key_size value value_size =
     (let p = insert_cell_ptr p offset idx;
          p = node_write_leaf_cell p (node_get_cell_ptr p idx) key key_size value value_size 0;
          p = set_cell_offset p offset;
          p = set_size p (node_size p + 1)
      in p)"

definition node_insert_internal_cell ::
  "page \<Rightarrow> u32 \<Rightarrow> u32 \<Rightarrow> u8 list \<Rightarrow> u32 \<Rightarrow> u64 \<Rightarrow> page" where
  "node_insert_internal_cell p offset idx key key_size child =
     (let p = insert_cell_ptr p offset idx;
          p = node_write_internal_cell p (node_get_cell_ptr p idx) key key_size child 0;
          p = set_cell_offset p offset;
          p = set_size p (node_size p + 1)
      in p)"

definition node_insert_nonfull ::
  "page \<Rightarrow> u32 \<Rightarrow> u8 list \<Rightarrow> u32 \<Rightarrow> u8 list \<Rightarrow> u32 \<Rightarrow> page" where
  "node_insert_nonfull p idx key key_size value value_size =
     (let (offset, p) = node_get_free_offset p key_size value_size
      in node_insert_leaf_cell p offset idx key key_size value value_size)"

text \<open>
  Deletion: free the cell, close the gap, shrink.  The result is the return value (1: no such
  key) and the page.
\<close>

definition delete_at_idx :: "page \<Rightarrow> u32 \<Rightarrow> page" where
  "delete_at_idx p idx =
     (let p = node_tuple_set_tombstone p idx;
          p = move_bytes p (node_get_cell_ptr p idx) (node_get_cell_ptr p (idx + 1))
                (unat (node_size p - (idx + 1)) * sizeof_cell_ptr)
      in set_size p (node_size p - 1))"

definition node_delete_key :: "page \<Rightarrow> u8 list \<Rightarrow> u32 \<Rightarrow> (int \<times> page) res" where
  "node_delete_key p key key_size =
     bind_res (loop_res (node_bin_search p key key_size)) (\<lambda>(ret, idx).
       if \<not> ret then Inr (1, p)
       else bind_res (node_get_cell p key key_size) (\<lambda>cell_ptr.
         if cell_ptr = None then Inr (1, p)
         else Inr (0, delete_at_idx p idx)))"

section \<open>Writing a cell\<close>

lemma cell_at_cong:
  "(\<And>a. 56 + 4 * i \<le> a \<Longrightarrow> a < 60 + 4 * i \<Longrightarrow> q a = p a) \<Longrightarrow> cell_at q i = cell_at p i"
  unfolding cell_at_def by (intro arg_cong [where f = unat] rd_cong(2)) simp_all

lemma write_leaf_cell:
  fixes fl :: u16
  assumes "c = node_cell_from_ptr p ptr" "length key = unat ks" "length val = unat vs"
    "unat ks + unat vs < 2 ^ 31"
  defines "q \<equiv> node_write_leaf_cell p ptr key ks val vs fl"
  shows "a < c \<or> c + 16 + unat ks + unat vs \<le> a \<Longrightarrow> q a = p a"
    and "leaf_entry q c = (key, val)" "leaf_cell_ok q c"
    and "cell_len q c = 16 + unat ks + unat vs"
proof -
  have q: "q = wr_bytes (wr_bytes (wr32 (wr32 (wr32 (wr32 p c (ucast fl)) (c + 8) ks) (c + 4) vs)
      (c + 12) (ks + vs)) (c + 16) key) (c + 16 + unat ks) val"
    using assms(2,3) unfolding q_def node_write_leaf_cell_def Let_def assms(1) [symmetric]
    by (simp add: cell_set_defs leaf_cell_get_value_def cell_get_key_def cell_key_size_def)
  show "a < c \<or> c + 16 + unat ks + unat vs \<le> a \<Longrightarrow> q a = p a"
    using assms(2,3) by (auto simp: q)
  have f: "cell_key_size q c = ks" "cell_value_size q c = vs" "cell_total_size q c = ks + vs"
    by (simp_all add: q cell_get_defs)
  show "leaf_entry q c = (key, val)"
    unfolding leaf_entry_def cell_key_def leaf_cell_value_def leaf_cell_get_value_def cell_get_key_def f
    using assms(2,3) by (simp add: q)
  show "leaf_cell_ok q c" "cell_len q c = 16 + unat ks + unat vs"
    using assms(4) by (simp_all add: leaf_cell_ok_def cell_len_def f unat_simps)
qed

lemma write_internal_cell:
  fixes fl :: u16 and child :: u64
  assumes "c = node_cell_from_ptr p ptr" "length key = unat ks"
  defines "q \<equiv> node_write_internal_cell p ptr key ks child fl"
  shows "a < c \<or> c + 16 + unat ks \<le> a \<Longrightarrow> q a = p a"
    and "internal_entry q c = (key, child)" "internal_cell_ok q c"
    and "cell_len q c = 16 + unat ks"
proof -
  have q: "q = wr_bytes (wr64 (wr32 (wr32 p (c + 8) ks) (c + 12) ks) c child) (c + 16) key"
    using assms(2) unfolding q_def node_write_internal_cell_def Let_def assms(1) [symmetric]
    by (simp add: cell_set_defs cell_get_key_def)
  show "a < c \<or> c + 16 + unat ks \<le> a \<Longrightarrow> q a = p a"
    using assms(2) by (auto simp: q)
  have f: "cell_key_size q c = ks" "cell_total_size q c = ks" "cell_pid q c = child"
    by (simp_all add: q cell_get_defs)
  show "internal_entry q c = (key, child)"
    unfolding internal_entry_def cell_key_def cell_get_key_def f using assms(2) by (simp add: q)
  show "internal_cell_ok q c" "cell_len q c = 16 + unat ks"
    by (simp_all add: internal_cell_ok_def cell_len_def f)
qed

section \<open>Opening and closing a gap in the pointer array\<close>

lemma insert_cell_ptr:
  fixes off :: u32
  assumes "unat idx \<le> node_count p" "node_count p < 2 ^ 31"
  defines "q \<equiv> insert_cell_ptr p off idx" and "k \<equiv> unat idx" and "n \<equiv> node_count p"
  shows "i < k \<Longrightarrow> cell_at q i = cell_at p i"
    and "cell_at q k = unat off"
    and "k \<le> i \<Longrightarrow> i < n \<Longrightarrow> cell_at q (Suc i) = cell_at p i"
    and "a < 56 + 4 * k \<or> 60 + 4 * n \<le> a \<Longrightarrow> q a = p a"
proof -
  have i1: "unat (idx + 1) = Suc k" using assms(1,2) by (simp add: unat_simps k_def)
  have d: "unat (node_size p - idx) = n - k"
    using assms(1) by (simp add: unat_simps k_def n_def node_count_def)
  have kn: "k \<le> n" using assms(1) by (simp add: k_def n_def)
  have q: "q = wr32 (move_bytes p (60 + 4 * k) (56 + 4 * k) (4 * (n - k))) (56 + 4 * k) off"
    unfolding q_def insert_cell_ptr_def node_get_cell_ptr_def node_cells_def i1 d k_def [symmetric]
    by (simp add: mult.commute)
  show "cell_at q i = cell_at p i" if "i < k"
    using that by (intro cell_at_cong) (simp add: q)
  show "cell_at q k = unat off" by (simp add: q cell_at_def)
  show "q a = p a" if "a < 56 + 4 * k \<or> 60 + 4 * n \<le> a"
    using that kn by (auto simp: q)
  show "cell_at q (Suc i) = cell_at p i" if "k \<le> i" "i < n"
  proof -
    have "rd32 q (56 + 4 * Suc i) = rd32 p (56 + 4 * i)"
      using that by (intro rd32_shift) (simp add: q move_bytes_in add.assoc)
    then show ?thesis by (simp add: cell_at_def)
  qed
qed

text \<open>The removal side: the pointers behind \<open>idx\<close> move down by one.\<close>

lemma remove_cell_ptr:
  assumes "unat idx < node_count p" "node_count p < 2 ^ 31"
  defines "q \<equiv> move_bytes p (node_get_cell_ptr p idx) (node_get_cell_ptr p (idx + 1))
                 (unat (node_size p - (idx + 1)) * sizeof_cell_ptr)"
    and "k \<equiv> unat idx" and "n \<equiv> node_count p"
  shows "i < k \<Longrightarrow> cell_at q i = cell_at p i"
    and "k \<le> i \<Longrightarrow> Suc i < n \<Longrightarrow> cell_at q i = cell_at p (Suc i)"
    and "a < 56 + 4 * k \<or> 56 + 4 * n \<le> a \<Longrightarrow> q a = p a"
proof -
  have i1: "unat (idx + 1) = Suc k" using assms(1,2) by (simp add: unat_simps k_def)
  have d: "unat (node_size p - (idx + 1)) = n - Suc k"
    using assms(1) i1 by (simp add: unat_simps k_def n_def node_count_def)
  have kn: "k < n" using assms(1) by (simp add: k_def n_def)
  have q: "q = move_bytes p (56 + 4 * k) (60 + 4 * k) (4 * (n - Suc k))"
    unfolding q_def node_get_cell_ptr_def node_cells_def i1 d k_def [symmetric]
    by (simp add: mult.commute)
  show "cell_at q i = cell_at p i" if "i < k"
    using that by (intro cell_at_cong) (simp add: q)
  show "q a = p a" if "a < 56 + 4 * k \<or> 56 + 4 * n \<le> a"
    using that kn by (auto simp: q)
  show "cell_at q i = cell_at p (Suc i)" if "k \<le> i" "Suc i < n"
  proof -
    have "rd32 q (56 + 4 * i) = rd32 p (56 + 4 * Suc i)"
      using that by (intro rd32_shift) (simp add: q move_bytes_in add.assoc)
    then show ?thesis by (simp add: cell_at_def)
  qed
qed

section \<open>Insertion below \<open>cell_offset\<close>\<close>

text \<open>
  The common argument of both insertions: everything from the old \<open>cell_offset\<close> upwards
  is unchanged, the new cell lies below it and above the grown pointer array.
\<close>

lemma insert_layout:
  assumes wf: "node_wf p ts"
    and k: "k \<le> node_count p"
    and above: "\<forall>a \<ge> unat (node_cell_offset p). q a = p a"
    and ptr: "\<forall>i < k. cell_at q i = cell_at p i" "cell_at q k = c"
      "\<forall>i. k \<le> i \<and> i < node_count p \<longrightarrow> cell_at q (Suc i) = cell_at p i"
    and hdr: "node_count q = Suc (node_count p)" "unat (node_cell_offset q) = c"
      "node_tombstone_offset q = node_tombstone_offset p"
    and room: "60 + 4 * node_count p \<le> c" "c + cell_len q c \<le> unat (node_cell_offset p)"
  shows "node_wf q ts"
    and "\<And>i. i < node_count p \<Longrightarrow> same_cell p q (cell_at p i)"
proof -
  let ?n = "node_count p" and ?lo = "unat (node_cell_offset p)"
  have lay: "node_layout p [0..<?n] ts" using wf by (simp add: node_wf_def)
  note live = node_layout_live [OF lay]
  show same: "same_cell p q (cell_at p i)" if "i < ?n" for i
    using live(1) [of i] that above by (intro same_cellI) simp
  have blocks: "map (live_block q) [0..<Suc ?n] = insert_at k (c, cell_len q c) (map (live_block p) [0..<?n])"
  proof (rule insert_at_eqI)
    fix j assume "j < k"
    then show "map (live_block q) [0..<Suc ?n] ! j = map (live_block p) [0..<?n] ! j"
      using k ptr(1) same by (simp add: nth_append live_block_cong del: upt_Suc)
  next
    show "map (live_block q) [0..<Suc ?n] ! k = (c, cell_len q c)"
      using k ptr(2) by (simp add: live_block_def del: upt_Suc)
  next
    fix j assume "k \<le> j" "j < length (map (live_block p) [0..<?n])"
    then show "map (live_block q) [0..<Suc ?n] ! Suc j = map (live_block p) [0..<?n] ! j"
      using k ptr(3) same by (simp add: live_block_cong del: upt_Suc)
  qed (use k in simp_all)
  have w: "cell_tombstone_size q t = cell_tombstone_size p t" "cell_next_off q t = cell_next_off p t"
    if "t \<in> set ts" for t
    unfolding cell_get_defs using node_layout_tomb(1) [OF lay that] above
    by (intro rd_cong; simp)+
  have tombs: "map (tomb_block q) ts = map (tomb_block p) ts" "tomb_chain q off ts = tomb_chain p off ts" for off
    using w by (simp_all add: tomb_block_def tomb_chain_cong [of ts q p])
  let ?old = "node_blocks p [0..<?n] ts"
  have nb: "node_blocks q [0..<Suc ?n] ts = insert_at k (c, cell_len q c) ?old"
    unfolding node_blocks_def blocks tombs(1) using k by (simp add: insert_at_def)
  have range: "list_all (in_range ?lo) ?old" using lay by (simp add: node_layout_def)
  have disj: "blk_disj (c, cell_len q c) b" if "b \<in> set ?old" for b
    using range that room(2) by (auto simp: list_all_iff in_range_def blk_disj_def)
  have klen: "k \<le> length ?old" using k by (simp add: node_blocks_def)
  have "sorted_wrt blk_disj (insert_at k (c, cell_len q c) ?old)"
  proof (rule sorted_wrt_insert_at [OF _ klen])
    show "sorted_wrt blk_disj ?old" using lay by (simp add: node_layout_def)
    show "blk_disj (c, cell_len q c) (?old ! j)" if "j < length ?old" for j
      using that by (intro disj nth_mem)
    then show "blk_disj (?old ! j) (c, cell_len q c)" if "j < k" for j
      using that klen by (simp add: blk_disj_sym)
  qed
  moreover have "list_all (in_range c) (insert_at k (c, cell_len q c) ?old)"
    using range room node_layoutD(2) [OF lay]
    by (auto simp: list_all_iff in_range_def)
  ultimately show "node_wf q ts"
    using hdr room tombs node_layoutD(2,3) [OF lay]
    unfolding node_wf_def node_layout_def hdr(1) nb by (simp add: list_all_iff)
qed

text \<open>The four steps of an insertion: gap, cell, \<open>cell_offset\<close>, \<open>size\<close>.\<close>

lemma insert_steps:
  fixes off idx :: u32
  assumes wf: "node_wf p ts" and idx: "unat idx \<le> node_count p"
    and room: "60 + 4 * node_count p \<le> unat off"
    and cell: "\<forall>a. a < unat off \<or> unat off + len \<le> a \<longrightarrow> r a = insert_cell_ptr p off idx a"
  defines "q \<equiv> set_size (set_cell_offset r off) (node_size r + 1)"
  shows "\<And>i. i < unat idx \<Longrightarrow> cell_at q i = cell_at p i" "cell_at q (unat idx) = unat off"
    "\<And>i. unat idx \<le> i \<Longrightarrow> i < node_count p \<Longrightarrow> cell_at q (Suc i) = cell_at p i"
    "node_count q = Suc (node_count p)" "node_cell_offset q = off"
    "node_tombstone_offset q = node_tombstone_offset p" "node_tombstone_bytes q = node_tombstone_bytes p"
    "node_flags q = node_flags p" "node_rightmost_pid q = node_rightmost_pid p"
    "node_parent_pid q = node_parent_pid p"
    "\<And>a. unat off + len \<le> a \<Longrightarrow> q a = p a"
    "\<And>a. unat off \<le> a \<Longrightarrow> q a = r a"
proof -
  let ?n = "node_count p"
  have lay: "node_layout p [0..<?n] ts" using wf by (simp add: node_wf_def)
  have n: "?n < 2 ^ 31" using node_count_bound [OF lay] by simp
  note gap = insert_cell_ptr [OF idx n, where off = off]
  have low: "r a = insert_cell_ptr p off idx a" if "a < 60 + 4 * ?n" for a
    using that room cell by simp
  have low': "r a = p a" if "a < 56" for a
    using low [of a] gap(4) [of a] that by simp
  have q: "q a = r a" if "56 \<le> a" for a
    using that by (simp add: q_def node_set_defs)
  have ptr: "cell_at q i = cell_at (insert_cell_ptr p off idx) i" if "i \<le> ?n" for i
    by (intro cell_at_cong) (use that q low in auto)
  show "cell_at q i = cell_at p i" if "i < unat idx" for i
    using that idx ptr [of i] gap(1) by simp
  show "cell_at q (unat idx) = unat off" using idx ptr gap(2) by simp
  show "cell_at q (Suc i) = cell_at p i" if "unat idx \<le> i" "i < ?n" for i
    using that ptr [of "Suc i"] gap(3) by simp
  have size: "node_size r = node_size p" unfolding node_get_defs by (intro rd_cong low') simp
  have "node_size q = node_size p + 1" by (simp add: q_def node_set_defs node_get_defs size [unfolded node_get_defs])
  then show "node_count q = Suc ?n" using n by (simp add: node_count_def unat_simps)
  show "node_cell_offset q = off" by (simp add: q_def node_set_defs node_get_defs)
  have hq: "q a = p a" if "a < 56" "a < 32 \<or> 40 \<le> a" for a
    using that low' [of a] by (auto simp: q_def node_set_defs)
  show "node_tombstone_offset q = node_tombstone_offset p" "node_tombstone_bytes q = node_tombstone_bytes p"
    "node_flags q = node_flags p" "node_rightmost_pid q = node_rightmost_pid p"
    "node_parent_pid q = node_parent_pid p"
    unfolding node_get_defs by (intro rd_cong hq; simp)+
  show "q a = r a" if "unat off \<le> a" for a using that room by (intro q) simp
  show "q a = p a" if "unat off + len \<le> a" for a
    using that room q [of a] cell gap(4) [of a] by simp
qed

section \<open>Insertion for any reading of the cells\<close>

lemma node_is_leaf_cong: "node_flags q = node_flags p \<Longrightarrow> node_is_leaf q = node_is_leaf p"
  by (simp add: node_is_leaf_def)

text \<open>An index after the insertion is an old index below the gap, the gap, or a moved one.\<close>

lemma insert_index_cases:
  assumes "i < Suc n" "k \<le> n"
  obtains "i < k" | "i = k" | j where "i = Suc j" "k \<le> j" "j < n"
  using assms by (cases i) (auto simp: not_less_eq less_Suc_eq_le dest: le_less_trans, fastforce+)

context cell_view
begin

lemma insert_view:
  fixes off idx :: u32
  assumes wf: "node_wf p ts" "cells_ok ok p"
    and idx: "unat idx \<le> node_count p"
    and room: "60 + 4 * node_count p \<le> unat off" "unat off + len \<le> unat (node_cell_offset p)"
    and cell: "\<forall>a. a < unat off \<or> unat off + len \<le> a \<longrightarrow> r a = insert_cell_ptr p off idx a"
    and new: "view r (unat off) = x" "ok r (unat off)" "cell_len r (unat off) = len"
  defines "q \<equiv> set_size (set_cell_offset r off) (node_size r + 1)"
  shows "node_wf q ts" "cells_ok ok q"
    "node_view view q = insert_at (unat idx) x (node_view view p)"
    "\<And>i. i < node_count p \<Longrightarrow> same_cell p q (cell_at p i)"
proof -
  let ?n = "node_count p"
  have len: "16 \<le> len" using new(3) by (simp add: cell_len_def)
  note st = insert_steps [OF wf(1) idx room(1) cell, folded q_def]
  have same: "same_cell r q (unat off)" by (intro same_cellI st(12))
  have e: "view q (unat off) = x" "ok q (unat off)" "cell_len q (unat off) = len"
    using frame [OF same new(2)] new(1,3) same_cell_fields(6) [OF same] by simp_all
  have above: "\<forall>a \<ge> unat (node_cell_offset p). q a = p a"
    using st(11) le_trans [OF room(2)] by simp
  have ptr: "\<forall>i < unat idx. cell_at q i = cell_at p i"
      "\<forall>i. unat idx \<le> i \<and> i < ?n \<longrightarrow> cell_at q (Suc i) = cell_at p i"
    using st(1,3) by simp_all
  have off: "unat (node_cell_offset q) = unat off" by (simp add: st(5))
  have fits: "unat off + cell_len q (unat off) \<le> unat (node_cell_offset p)" using e(3) room(2) by simp
  note lay = insert_layout [OF wf(1) idx above ptr(1) st(2) ptr(2) st(4) off st(6) room(1) fits]
  show "node_wf q ts" by (rule lay(1))
  show "same_cell p q (cell_at p i)" if "i < ?n" for i using that by (rule lay(2))
  have eq: "ok q (cell_at p i) \<and> view q (cell_at p i) = view p (cell_at p i)" if "i < ?n" for i
    using frame [OF lay(2) [OF that]] cells_okD [OF wf(2) that] by simp
  have "ok q (cell_at q i)" if "i < Suc ?n" for i
    using that idx by (rule insert_index_cases) (use st(1-3) e(2) eq idx in auto)
  then show "cells_ok ok q" by (simp add: cells_ok_def list_all_iff st(4))
  show "node_view view q = insert_at (unat idx) x (node_view view p)"
    by (rule insert_at_eqI) (use st(1-4) e(1) eq idx in simp_all)
qed

end

section \<open>Stores to the other header fields\<close>

text \<open>
  The pids and the flags are outside what layout and entries depend on, the bytes 32 to 47 and
  those from 56 on.
\<close>

context cell_view
begin

lemma header_edit:
  assumes wf: "node_wf p ts" "cells_ok ok p"
    and same: "\<forall>a. 32 \<le> a \<and> a < 48 \<or> 56 \<le> a \<longrightarrow> q a = p a"
  shows "node_wf q ts" "cells_ok ok q" "node_view view q = node_view view p"
    "node_count q = node_count p" "node_cell_offset q = node_cell_offset p" "cell_at q i = cell_at p i"
    "i < node_count p \<Longrightarrow> same_cell p q (cell_at p i)"
proof -
  have lay: "node_layout p [0..<node_count p] ts" using wf(1) by (simp add: node_wf_def)
  have hdr: "node_size q = node_size p" "node_cell_offset q = node_cell_offset p"
      "node_tombstone_offset q = node_tombstone_offset p"
    unfolding node_get_defs by (intro rd_cong same [rule_format]; simp)+
  show cnt: "node_count q = node_count p" "node_cell_offset q = node_cell_offset p"
    using hdr by (simp_all add: node_count_def)
  show at: "cell_at q i = cell_at p i" for i by (intro cell_at_cong same [rule_format]) simp
  show sc: "same_cell p q (cell_at p i)" if "i < node_count p" for i
    using node_layout_live(3) [OF lay, of i] that by (intro same_cellI same [rule_format]) simp
  show "node_wf q ts"
    unfolding node_wf_def cnt
  proof (rule node_layout_frame [OF lay _ _ hdr(3,2)])
    show "map (live_block q) [0..<node_count p] = map (live_block p) [0..<node_count p]"
      using sc at by (simp add: live_block_cong)
    show "q i = p i" if "t \<in> set ts" "t \<le> i" "i < t + 8" for t i
      using node_layout_tomb(3) [OF lay that(1)] that(2) by (intro same [rule_format]) simp
  qed (use node_layoutD(1) [OF lay] cnt in \<open>simp_all add: list_all_iff\<close>)
  have e: "ok q (cell_at p i) \<and> view q (cell_at p i) = view p (cell_at p i)" if "i < node_count p" for i
    using frame [OF sc [OF that] cells_okD [OF wf(2) that]] .
  then show "cells_ok ok q" by (simp add: cells_ok_def list_all_iff cnt at)
  show "node_view view q = node_view view p"
    by (rule nth_equalityI) (simp_all add: e at cnt)
qed

end

section \<open>Insertion into a leaf and into an internal node\<close>

lemma insert_leaf_cell:
  fixes off idx :: u32
  assumes wf: "node_wf p ts" "cells_ok leaf_cell_ok p" and idx: "unat idx \<le> node_count p"
    and args: "length key = unat ks" "length value = unat vs" "unat ks + unat vs < 2 ^ 31"
    and room: "60 + 4 * node_count p \<le> unat off"
      "unat off + (16 + unat ks + unat vs) \<le> unat (node_cell_offset p)"
  defines "q \<equiv> node_insert_leaf_cell p off idx key ks value vs"
  shows "node_wf q ts" "cells_ok leaf_cell_ok q"
    "leaf_entries q = insert_at (unat idx) (key, value) (leaf_entries p)"
    "node_flags q = node_flags p" "node_count q = Suc (node_count p)" "node_cell_offset q = off"
    "node_parent_pid q = node_parent_pid p" "node_rightmost_pid q = node_rightmost_pid p"
    "node_tombstone_bytes q = node_tombstone_bytes p" "node_tombstone_offset q = node_tombstone_offset p"
    "\<And>a. unat (node_cell_offset p) \<le> a \<Longrightarrow> q a = p a"
    "\<And>i. i < unat idx \<Longrightarrow> cell_at q i = cell_at p i" "cell_at q (unat idx) = unat off"
    "\<And>i. unat idx \<le> i \<Longrightarrow> i < node_count p \<Longrightarrow> cell_at q (Suc i) = cell_at p i"
proof -
  let ?g = "insert_cell_ptr p off idx"
  let ?r = "node_write_leaf_cell ?g (node_get_cell_ptr ?g idx) key ks value vs 0"
  have n: "node_count p < 2 ^ 31" using node_count_bound wf(1) unfolding node_wf_def by fastforce
  have c: "unat off = node_cell_from_ptr ?g (node_get_cell_ptr ?g idx)"
    by (simp add: cell_from_ptr_at insert_cell_ptr(2) [OF idx n])
  note w = write_leaf_cell [OF c args, where fl = 0]
  have q: "q = set_size (set_cell_offset ?r off) (node_size ?r + 1)"
    by (simp add: q_def node_insert_leaf_cell_def Let_def node_set_defs node_get_defs node_get_cell_ptr_def node_cells_def)
  have out: "\<forall>a. a < unat off \<or> unat off + (16 + unat ks + unat vs) \<le> a \<longrightarrow> ?r a = ?g a"
    by (intro allI impI w(1)) (simp add: ac_simps)
  note v = leaf_view.insert_view [OF wf idx room out w(2-4), folded q]
  show "node_wf q ts" "cells_ok leaf_cell_ok q" by (fact v)+
  show "leaf_entries q = insert_at (unat idx) (key, value) (leaf_entries p)"
    unfolding leaf_entries_def by (rule v(3))
  show "node_flags q = node_flags p" "node_count q = Suc (node_count p)" "node_cell_offset q = off"
    "node_parent_pid q = node_parent_pid p" "node_rightmost_pid q = node_rightmost_pid p"
    "node_tombstone_bytes q = node_tombstone_bytes p" "node_tombstone_offset q = node_tombstone_offset p"
    using insert_steps(4-10) [OF wf(1) idx room(1) out, folded q] by simp_all
  show "q a = p a" if "unat (node_cell_offset p) \<le> a" for a
    using insert_steps(11) [OF wf(1) idx room(1) out, folded q] room(2) that by simp
  show "\<And>i. i < unat idx \<Longrightarrow> cell_at q i = cell_at p i" "cell_at q (unat idx) = unat off"
    "\<And>i. unat idx \<le> i \<Longrightarrow> i < node_count p \<Longrightarrow> cell_at q (Suc i) = cell_at p i"
    using insert_steps(1-3) [OF wf(1) idx room(1) out, folded q] by simp_all
qed

lemma insert_internal_cell:
  fixes off idx :: u32 and child :: u64
  assumes wf: "node_wf p ts" "cells_ok internal_cell_ok p" and idx: "unat idx \<le> node_count p"
    and args: "length key = unat ks"
    and room: "60 + 4 * node_count p \<le> unat off" "unat off + (16 + unat ks) \<le> unat (node_cell_offset p)"
  defines "q \<equiv> node_insert_internal_cell p off idx key ks child"
  shows "node_wf q ts" "cells_ok internal_cell_ok q"
    "internal_entries q = insert_at (unat idx) (key, child) (internal_entries p)"
    "node_flags q = node_flags p" "node_count q = Suc (node_count p)" "node_cell_offset q = off"
    "node_parent_pid q = node_parent_pid p" "node_rightmost_pid q = node_rightmost_pid p"
    "node_tombstone_bytes q = node_tombstone_bytes p" "node_tombstone_offset q = node_tombstone_offset p"
    "\<And>a. unat (node_cell_offset p) \<le> a \<Longrightarrow> q a = p a"
proof -
  let ?g = "insert_cell_ptr p off idx"
  let ?r = "node_write_internal_cell ?g (node_get_cell_ptr ?g idx) key ks child 0"
  have n: "node_count p < 2 ^ 31" using node_count_bound wf(1) unfolding node_wf_def by fastforce
  have c: "unat off = node_cell_from_ptr ?g (node_get_cell_ptr ?g idx)"
    by (simp add: cell_from_ptr_at insert_cell_ptr(2) [OF idx n])
  note w = write_internal_cell [OF c args, where fl = 0 and child = child]
  have q: "q = set_size (set_cell_offset ?r off) (node_size ?r + 1)"
    by (simp add: q_def node_insert_internal_cell_def Let_def node_set_defs node_get_defs node_get_cell_ptr_def node_cells_def)
  have out: "\<forall>a. a < unat off \<or> unat off + (16 + unat ks) \<le> a \<longrightarrow> ?r a = ?g a"
    by (intro allI impI w(1)) (simp add: ac_simps)
  note v = internal_view.insert_view [OF wf idx room out w(2-4), folded q]
  show "node_wf q ts" "cells_ok internal_cell_ok q" by (fact v)+
  show "internal_entries q = insert_at (unat idx) (key, child) (internal_entries p)"
    unfolding internal_entries_def by (rule v(3))
  show "node_flags q = node_flags p" "node_count q = Suc (node_count p)" "node_cell_offset q = off"
    "node_parent_pid q = node_parent_pid p" "node_rightmost_pid q = node_rightmost_pid p"
    "node_tombstone_bytes q = node_tombstone_bytes p" "node_tombstone_offset q = node_tombstone_offset p"
    using insert_steps(4-10) [OF wf(1) idx room(1) out, folded q] by simp_all
  show "q a = p a" if "unat (node_cell_offset p) \<le> a" for a
    using insert_steps(11) [OF wf(1) idx room(1) out, folded q] room(2) that by simp
qed

section \<open>Changing a child\<close>

lemma set_rightmost_view:
  fixes c :: u64
  assumes "node_wf p ts" "cells_ok internal_cell_ok p"
  defines "q \<equiv> node_set_rightmost_child p c"
  shows "node_wf q ts" "cells_ok internal_cell_ok q" "internal_entries q = internal_entries p"
    "node_flags q = node_flags p" "node_rightmost_pid q = c" "node_count q = node_count p"
    "node_cell_offset q = node_cell_offset p"
proof -
  have "\<forall>a. 32 \<le> a \<and> a < 48 \<or> 56 \<le> a \<longrightarrow> q a = p a"
    by (auto simp: q_def node_set_rightmost_child_def node_set_defs)
  note e = internal_view.header_edit [OF assms(1,2) this]
  show "node_wf q ts" "cells_ok internal_cell_ok q" "node_count q = node_count p"
    "node_cell_offset q = node_cell_offset p"
    by (fact e)+
  show "internal_entries q = internal_entries p" unfolding internal_entries_def by (rule e(3))
  show "node_flags q = node_flags p" "node_rightmost_pid q = c"
    by (simp_all add: q_def node_set_rightmost_child_def node_set_defs node_get_defs)
qed

lemma set_cell_pid_view:
  fixes c :: u64
  assumes wf: "node_wf p ts" "cells_ok internal_cell_ok p" and i: "i < node_count p"
  defines "q \<equiv> set_cell_pid p (cell_at p i) c"
  shows "node_wf q ts" "cells_ok internal_cell_ok q"
    "internal_entries q = (internal_entries p)[i := (fst (internal_entries p ! i), c)]"
    "node_flags q = node_flags p" "node_count q = node_count p" "node_cell_offset q = node_cell_offset p"
    "node_rightmost_pid q = node_rightmost_pid p"
proof -
  let ?c = "cell_at p i"
  have lay: "node_layout p [0..<node_count p] ts" using wf(1) by (simp add: node_wf_def)
  have low: "56 + 4 * node_count p \<le> cell_at p j" if "j < node_count p" for j
    using node_layoutD(1) [OF lay] node_layout_live(1) [OF lay, of j] that by simp
  have out: "q a = p a" if "a < ?c \<or> ?c + 8 \<le> a" for a
    using that by (auto simp: q_def set_cell_pid_def)
  have hdr: "q a = p a" if "a < 56 + 4 * node_count p" for a using low [OF i] that by (intro out) simp
  show fields: "node_flags q = node_flags p" "node_cell_offset q = node_cell_offset p" "node_rightmost_pid q = node_rightmost_pid p"
    unfolding node_get_defs by (intro rd_cong hdr; simp)+
  have hd: "node_size q = node_size p" "node_tombstone_offset q = node_tombstone_offset p"
    unfolding node_get_defs by (intro rd_cong hdr; simp)+
  then show cnt: "node_count q = node_count p" by (simp add: node_count_def)
  have at: "cell_at q j = cell_at p j" if "j < node_count p" for j
    using that by (intro cell_at_cong hdr) simp
  have own: "cell_key_size q ?c = cell_key_size p ?c" "cell_total_size q ?c = cell_total_size p ?c" "cell_pid q ?c = c"
    by (simp_all add: q_def set_cell_pid_def cell_get_defs)
  have key: "cell_key q ?c = cell_key p ?c"
    unfolding cell_key_def own cell_get_key_def by (intro rd_bytes_cong out) simp
  have other: "same_cell p q (cell_at p j)" if "j < node_count p" "j \<noteq> i" for j
  proof (rule same_cellI)
    have "blk_disj (live_block p j) (live_block p i)" by (rule node_wf_live_live [OF wf(1) that(1) i that(2)])
    moreover fix a assume "cell_at p j \<le> a" "a < cell_at p j + cell_len p (cell_at p j)"
    ultimately show "q a = p a"
      using node_layout_live(4) [OF lay, of i] i by (intro out) (auto simp: blk_disj_def live_block_def)
  qed
  have cells: "internal_cell_ok q (cell_at p j) \<and> live_block q j = live_block p j \<and>
      internal_entry q (cell_at p j) = (if j = i then (fst (internal_entry p ?c), c) else internal_entry p (cell_at p j))"
    if j: "j < node_count p" for j
  proof (cases "j = i")
    case True
    then show ?thesis
      using own key at [OF i] cells_okD [OF wf(2) i]
      by (simp add: internal_cell_ok_def live_block_def cell_len_def internal_entry_def)
  next
    case False
    from internal_view.frame [OF other [OF j False] cells_okD [OF wf(2) j]]
    show ?thesis using False live_block_cong [OF other [OF j False] at [OF j]] by simp
  qed
  show "cells_ok internal_cell_ok q" using cells at by (simp add: cells_ok_def list_all_iff cnt)
  show "internal_entries q = (internal_entries p)[i := (fst (internal_entries p ! i), c)]"
    using cells at cnt i
    by (intro nth_equalityI) (auto simp: internal_entries_def nth_list_update)
  show "node_wf q ts"
    unfolding node_wf_def cnt
  proof (rule node_layout_frame [OF lay _ _ hd(2) fields(2)])
    show "map (live_block q) [0..<node_count p] = map (live_block p) [0..<node_count p]" using cells by simp
    show "q a = p a" if "t \<in> set ts" "t \<le> a" "a < t + 8" for t a
      using node_layout_live_tomb [OF lay _ that(1), of i] node_layout_live(4) [OF lay, of i] i that(2,3)
      by (intro out) (auto simp: blk_disj_def live_block_def tomb_block_def)
  qed (use node_layoutD(1) [OF lay] cnt in \<open>simp_all add: list_all_iff\<close>)
qed

section \<open>Deletion\<close>

lemma delete_at_upt: "i < n \<Longrightarrow> delete_at i [0..<n] = [0..<i] @ [Suc i..<n]"
  by (simp add: delete_at_def)

lemma delete_steps:
  assumes wf: "node_wf p ts" and idx: "unat idx < node_count p"
  defines "q \<equiv> delete_at_idx p idx" and "n \<equiv> node_count p" and "k \<equiv> unat idx"
  shows "node_wf q (cell_at p k # ts)" "node_count q = n - 1"
    "node_flags q = node_flags p" "node_cell_offset q = node_cell_offset p"
    "node_parent_pid q = node_parent_pid p" "node_rightmost_pid q = node_rightmost_pid p"
    "i < k \<Longrightarrow> cell_at q i = cell_at p i"
    "k \<le> i \<Longrightarrow> Suc i < n \<Longrightarrow> cell_at q i = cell_at p (Suc i)"
    "j < n \<Longrightarrow> j \<noteq> k \<Longrightarrow> same_cell p q (cell_at p j)"
    "4096 \<le> a \<Longrightarrow> q a = p a"
    "cell_tombstone_size q (cell_at p k) = 16 + cell_total_size p (cell_at p k)"
    "t \<in> set ts \<Longrightarrow> cell_tombstone_size q t = cell_tombstone_size p t"
proof -
  let ?t = "node_tuple_set_tombstone p idx" and ?rest = "[0..<k] @ [Suc k..<n]"
  let ?m = "move_bytes ?t (node_get_cell_ptr ?t idx) (node_get_cell_ptr ?t (idx + 1))
              (unat (node_size ?t - (idx + 1)) * sizeof_cell_ptr)"
  have kn: "k < n" using idx by (simp add: k_def n_def)
  have lay: "node_layout p ([0..<k] @ k # [Suc k..<n]) ts"
    using wf kn by (simp only: node_wf_def flip: n_def upt_split_at)
  note tomb = set_tombstone_layout [OF lay [unfolded k_def], folded k_def]
  have c: "56 \<le> cell_at p k" "cell_at p k < 2 ^ 32"
    using node_layout_live [OF lay, of k] by simp_all
  note tf = set_tombstone_fields [OF k_def [THEN meta_eq_to_obj_eq, THEN arg_cong [where f = "cell_at p"]] c]
  have n31: "node_count ?t < 2 ^ 31" using node_count_bound [OF lay] tf(6) by simp
  have idx': "unat idx < node_count ?t" using idx tf(6) by simp
  note mv = remove_cell_ptr [OF idx' n31, unfolded tf(6), folded k_def n_def]
  have qm: "q a = ?m a" if "a < 32 \<or> 36 \<le> a" for a
    using that by (auto simp: q_def delete_at_idx_def Let_def node_set_defs)
  have hi: "q a = ?t a" if "56 + 4 * n \<le> a" for a
    using qm [of a] mv(3) [of a] that by simp
  have hdr: "q a = ?t a" if "36 \<le> a" "a < 56" for a
    using qm [of a] mv(3) [of a] that by simp
  have hdr2: "q a = ?t a" if "a < 32" for a
    using qm [of a] mv(3) [of a] that by simp
  have "rd32 ?m 32 = rd32 ?t 32" by (intro rd_cong mv(3)) simp
  then have size: "node_size ?m = node_size ?t" by (simp only: node_size_def)
  have "node_size q = node_size ?t - 1"
    unfolding q_def delete_at_idx_def Let_def node_size_set_size by (simp only: size)
  then show cnt: "node_count q = n - 1"
    using kn tf(5) by (simp add: node_count_def unat_simps n_def)
  have head: "node_tombstone_offset q = node_tombstone_offset ?t" "node_cell_offset q = node_cell_offset ?t"
      "node_flags q = node_flags ?t" "node_rightmost_pid q = node_rightmost_pid ?t"
      "node_parent_pid q = node_parent_pid ?t"
    unfolding node_get_defs by (intro rd_cong hdr hdr2; simp)+
  show "node_flags q = node_flags p" "node_cell_offset q = node_cell_offset p"
    "node_parent_pid q = node_parent_pid p" "node_rightmost_pid q = node_rightmost_pid p"
    using head tf by simp_all
  have ptr: "cell_at q i = cell_at ?m i" for i
    by (intro cell_at_cong qm) simp
  show below: "cell_at q i = cell_at p i" if "i < k" for i
    using ptr mv(1) tomb(2) that kn by (simp flip: n_def)
  show above: "cell_at q i = cell_at p (Suc i)" if "k \<le> i" "Suc i < n" for i
    using ptr mv(2) tomb(2) that by (simp flip: n_def)
  have lo: "56 + 4 * n \<le> unat (node_cell_offset p)" using node_layoutD(1) [OF lay] by (simp add: n_def)
  show "q a = p a" if "4096 \<le> a" for a
    using hi [of a] node_layout_live(2,4) [OF lay, of k] lo that node_layoutD(2) [OF lay]
      set_tombstone_bytes_eq [OF k_def [THEN meta_eq_to_obj_eq, THEN arg_cong [where f = "cell_at p"]], of a] c(1)
    by simp
  have "cell_tombstone_size q (cell_at p k) = cell_tombstone_size ?t (cell_at p k)"
    unfolding cell_get_defs using node_layout_live(1) [OF lay, of k] lo by (intro rd_cong hi) simp
  then show "cell_tombstone_size q (cell_at p k) = 16 + cell_total_size p (cell_at p k)"
    by (simp add: tf(3))
  show "cell_tombstone_size q t = cell_tombstone_size p t" if "t \<in> set ts" for t
  proof -
    have "cell_tombstone_size q t = cell_tombstone_size ?t t"
      unfolding cell_get_defs using node_layout_tomb(1) [OF lay that] lo by (intro rd_cong hi) simp
    then show ?thesis by (simp add: tomb(4) [OF that])
  qed
  have sc: "same_cell ?t q (cell_at p j)" if "j < n" for j
  proof -
    have "j \<in> set ([0..<k] @ k # [Suc k..<n])" using that by auto
    then show ?thesis using node_layout_live(1) [OF lay] lo by (intro same_cellI hi) fastforce
  qed
  show "same_cell p q (cell_at p j)" if "j < n" "j \<noteq> k" for j
  proof -
    have "same_cell p ?t (cell_at p j)" using that by (intro tomb(3)) auto
    then show ?thesis
      using sc [OF that(1)] same_cell_fields(6) [of p ?t "cell_at p j"] by (simp add: same_cell_def)
  qed
  have lbq: "live_block q i = live_block ?t j"
    if "cell_at q i = cell_at p j" "j < n" for i j
    using that sc tomb(2) [of j] by (intro live_block_cong) (simp_all flip: n_def)
  have blocks: "map (live_block q) [0..<n - 1] = map (live_block ?t) ?rest"
    unfolding delete_at_upt [OF kn, symmetric] map_delete_at
    by (rule delete_at_eqI) (use kn in \<open>auto intro!: lbq below above\<close>)
  show "node_wf q (cell_at p k # ts)"
    unfolding node_wf_def cnt
  proof (rule node_layout_frame [OF tomb(1) blocks])
    show "q i = ?t i" if "t \<in> set (cell_at p k # ts)" "t \<le> i" "i < t + 8" for t i
      using node_layout_tomb(1) [OF tomb(1) that(1)] lo that(2) by (intro hi) (simp add: tf(7))
    show "sizeof_node + sizeof_cell_ptr * node_count q \<le> unat (node_cell_offset ?t)"
      using lo cnt by (simp add: tf(7))
  qed (use head cnt in \<open>simp_all add: list_all_iff\<close>)
qed

context cell_view
begin

lemma delete_view:
  assumes wf: "node_wf p ts" "cells_ok ok p" and idx: "unat idx < node_count p"
  shows "cells_ok ok (delete_at_idx p idx)"
    "node_view view (delete_at_idx p idx) = delete_at (unat idx) (node_view view p)"
proof -
  let ?q = "delete_at_idx p idx" and ?n = "node_count p" and ?k = "unat idx"
  note st = delete_steps [OF wf(1) idx]
  have eq: "ok ?q (cell_at p j) \<and> view ?q (cell_at p j) = view p (cell_at p j)" if "j < ?n" "j \<noteq> ?k" for j
    using frame [OF st(9) [OF that] cells_okD [OF wf(2) that(1)]] .
  have "ok ?q (cell_at ?q i)" if "i < ?n - 1" for i
    using that st(7,8) [of i] eq [of i] eq [of "Suc i"] by (cases "i < ?k") simp_all
  then show "cells_ok ok ?q" by (simp add: cells_ok_def list_all_iff st(2))
  show "node_view view ?q = delete_at ?k (node_view view p)"
    by (rule delete_at_eqI) (use st(2,7,8) eq idx in simp_all)
qed

end

end
