(* ===== verification/Node_Split.thy ===== *)
theory Node_Split
  imports Node_Ops
begin

text \<open>
  Splitting a node: \<open>node_partition_idx\<close>, \<open>leaf_node_split\<close> and
  \<open>internal_node_split\<close> of src/tree/node.c.  The upper cells are copied to a fresh node,
  each below the previous one, and freed in the old node.
\<close>

section \<open>The code\<close>

text \<open>\<open>x -= y\<close> with \<open>x\<close> of 32 bits and \<open>y\<close> a \<open>size_t\<close>.\<close>

definition sub_assign :: "u32 \<Rightarrow> u64 \<Rightarrow> u32" where
  "sub_assign x y = ucast (ucast x - y :: u64)"

text \<open>Room for the next cell of the new node: lower \<open>cell_offset\<close>, point \<open>j\<close> at it.\<close>

definition carve_cell :: "page \<Rightarrow> u32 \<Rightarrow> u64 \<Rightarrow> page" where
  "carve_cell q j len =
     (let q = set_cell_offset q (sub_assign (node_cell_offset q) len)
      in wr32 q (node_get_cell_ptr q j) (node_cell_offset q))"

function partition_loop :: "page \<Rightarrow> u32 \<Rightarrow> u32 \<Rightarrow> u32" where
  "partition_loop p i middle_bytes =
     (if i < node_size p \<and> (ucast middle_bytes :: u64) < 4096 div 2 - 56
      then partition_loop p (i + 1)
             (ucast (ucast middle_bytes + (16 + ucast (cell_total_size p (node_cell_from_idx p i))) :: u64))
      else i)"
  by pat_completeness auto
termination
proof (relation "measure (\<lambda>(p, i, m). unat (node_size p) - unat i)")
  fix p i and m :: u32
  assume "i < node_size p \<and> (ucast m :: u64) < 4096 div 2 - 56"
  then have "unat i < unat (node_size p)" by (simp add: word_less_nat_alt)
  moreover from this have "unat (i + 1) = unat i + 1"
    using unat_lt_u32 [of "node_size p"] by (simp add: unat_simps)
  ultimately show "((p, i + 1, ucast (ucast m + (16 + ucast (cell_total_size p (node_cell_from_idx p i))) :: u64)), p, i, m)
      \<in> measure (\<lambda>(p, i, m). unat (node_size p) - unat i)"
    by simp
qed simp

definition node_partition_idx :: "page \<Rightarrow> u32" where
  "node_partition_idx p = partition_loop p 0 0"

text \<open>The bodies of the two loops, without the freeing: copy one cell to the new node.\<close>

definition copy_leaf_cell :: "page \<Rightarrow> page \<Rightarrow> u32 \<Rightarrow> nat \<Rightarrow> page" where
  "copy_leaf_cell p q j cell =
     (let q = carve_cell q j (16 + ucast (cell_key_size p cell) + ucast (cell_value_size p cell))
      in node_write_leaf_cell q (node_get_cell_ptr q j) (cell_key p cell) (cell_key_size p cell)
           (leaf_cell_value p cell) (cell_value_size p cell) 0)"

definition copy_internal_cell :: "page \<Rightarrow> page \<Rightarrow> u32 \<Rightarrow> nat \<Rightarrow> page" where
  "copy_internal_cell p q j cell =
     (let q = carve_cell q j (16 + ucast (cell_key_size p cell))
      in node_write_internal_cell q (node_get_cell_ptr q j) (cell_key p cell) (cell_key_size p cell)
           (internal_cell_child p cell) 0)"

function leaf_split_loop :: "page \<Rightarrow> page \<Rightarrow> u32 \<Rightarrow> u32 \<Rightarrow> page \<times> page" where
  "leaf_split_loop p q j k =
     (if k < node_size p
      then leaf_split_loop (node_tuple_set_tombstone p k)
             (copy_leaf_cell p q j (node_cell_from_ptr p (node_get_cell_ptr p k))) (j + 1) (k + 1)
      else (p, q))"
  by pat_completeness auto

function internal_split_loop :: "page \<Rightarrow> page \<Rightarrow> u32 \<Rightarrow> u32 \<Rightarrow> page \<times> page" where
  "internal_split_loop p q j k =
     (if k < node_size p
      then internal_split_loop (node_tuple_set_tombstone p k)
             (copy_internal_cell p q j (node_cell_from_ptr p (node_get_cell_ptr p k))) (j + 1) (k + 1)
      else (p, q))"
  by pat_completeness auto

text \<open>Both loops end on every page: \<open>k\<close> grows and stays below a 32-bit size.\<close>

lemma split_loop_decreases:
  fixes k :: u32
  assumes "k < n"
  shows "2 ^ 32 - unat (k + 1) < 2 ^ 32 - unat k"
proof -
  have "unat k < unat n" using assms by (simp add: word_less_nat_alt)
  moreover have "unat n < 2 ^ 32" using unat_lt_u32 [of n] by simp
  ultimately show ?thesis by (simp add: unat_simps)
qed

termination leaf_split_loop
  by (relation "measure (\<lambda>(p, q, j, k). 2 ^ 32 - unat k)") (simp, simp only: in_measure split_conv split_loop_decreases)

termination internal_split_loop
  by (relation "measure (\<lambda>(p, q, j, k). 2 ^ 32 - unat k)") (simp, simp only: in_measure split_conv split_loop_decreases)

declare partition_loop.simps [simp del] leaf_split_loop.simps [simp del] internal_split_loop.simps [simp del]

definition leaf_node_split :: "page \<Rightarrow> page \<Rightarrow> u32 \<Rightarrow> (page \<times> page) res" where
  "leaf_node_split p q partition_idx =
     assert_res (node_size p > 0) (assert_res (node_size q = 0)
       (let before_count = node_size p;
            (p, q) = leaf_split_loop p q 0 partition_idx;
            q = set_size q (node_size p - partition_idx);
            p = set_size p (node_size p - node_size q)
        in assert_res (node_size q > 0) (assert_res (node_size q + node_size p = before_count)
             (Inr (p, q)))))"

definition internal_node_split :: "page \<Rightarrow> page \<Rightarrow> u32 \<Rightarrow> (page \<times> page) res" where
  "internal_node_split p q partition_idx =
     assert_res (node_size p > 0) (assert_res (node_size q = 0)
       (let before_count = node_size p;
            p = node_tuple_set_tombstone p partition_idx;
            (p, q) = internal_split_loop p q 0 (partition_idx + 1);
            q = set_size q (node_size p - (partition_idx + 1));
            p = set_size p (node_size p - (node_size q + 1))
        in assert_res (node_size p > 0) (assert_res (node_size q > 0)
             (assert_res (node_size q + node_size p = before_count - 1) (Inr (p, q))))))"

section \<open>The space of disjoint blocks\<close>

definition blk_set :: "block \<Rightarrow> nat set" where
  "blk_set b = {fst b ..< fst b + snd b}"

lemma card_blocks:
  "sorted_wrt blk_disj bs \<Longrightarrow> card (\<Union> (blk_set ` set bs)) = sum_list (map snd bs)"
proof (induction bs)
  case Nil
  then show ?case by simp
next
  case (Cons b bs)
  have "blk_set b \<inter> \<Union> (blk_set ` set bs) = {}"
    using Cons.prems by (fastforce simp: blk_disj_def blk_set_def)
  then have "card (blk_set b \<union> \<Union> (blk_set ` set bs)) = card (blk_set b) + card (\<Union> (blk_set ` set bs))"
    by (intro card_Un_disjoint) (auto simp: blk_set_def)
  with Cons show ?case by (simp add: blk_set_def)
qed

lemma blocks_fit:
  assumes "sorted_wrt blk_disj bs" "list_all (in_range lo) bs"
  shows "sum_list (map snd bs) \<le> NODE_SIZE - lo"
proof -
  have "\<Union> (blk_set ` set bs) \<subseteq> {lo..<NODE_SIZE}"
    using assms(2) by (auto simp: list_all_iff in_range_def blk_set_def)
  then have "card (\<Union> (blk_set ` set bs)) \<le> card {lo..<NODE_SIZE}" by (intro card_mono) simp_all
  then show ?thesis using card_blocks [OF assms(1)] by simp
qed

text \<open>The live cells and the pointers of a node fit in a fresh page.\<close>

lemma live_cells_fit:
  assumes "node_wf p ts"
  shows "56 + 4 * node_count p + (\<Sum>i\<leftarrow>[0..<node_count p]. cell_len p (cell_at p i)) \<le> 4096"
proof -
  let ?bs = "map (live_block p) [0..<node_count p]" and ?lo = "unat (node_cell_offset p)"
  have lay: "node_layout p [0..<node_count p] ts" using assms by (simp add: node_wf_def)
  then have "sorted_wrt blk_disj ?bs" "list_all (in_range ?lo) ?bs"
    by (auto simp: node_layout_def node_blocks_def sorted_wrt_append)
  then have "(\<Sum>i\<leftarrow>[0..<node_count p]. cell_len p (cell_at p i)) \<le> NODE_SIZE - ?lo"
    using blocks_fit by (fastforce simp: comp_def live_block_def)
  then show ?thesis using node_layoutD(1,2) [OF lay] by simp
qed

section \<open>Appending a cell to the new node\<close>

text \<open>
  While a split runs, the new node's \<open>size\<close> is still 0; what it holds so far is the node
  with \<open>j\<close> as its size.
\<close>

definition partial_node :: "page \<Rightarrow> nat \<Rightarrow> page" where
  "partial_node q j = set_size q (of_nat j)"

lemma partial_node_bytes: "a < 32 \<or> 36 \<le> a \<Longrightarrow> partial_node q j a = q a"
  by (auto simp: partial_node_def node_set_defs)

lemma partial_node_fields [simp]:
  "node_cell_offset (partial_node q j) = node_cell_offset q"
  "node_tombstone_offset (partial_node q j) = node_tombstone_offset q"
  "node_flags (partial_node q j) = node_flags q"
  "node_rightmost_pid (partial_node q j) = node_rightmost_pid q"
  "node_parent_pid (partial_node q j) = node_parent_pid q"
  "cell_at (partial_node q j) i = cell_at q i"
  by (simp_all add: partial_node_def node_set_defs node_get_defs cell_at_def)

lemma partial_node_count: "j < 2 ^ 32 \<Longrightarrow> node_count (partial_node q j) = j"
  by (simp add: partial_node_def node_count_def unat_simps)

lemma partial_node_same_cell: "56 \<le> c \<Longrightarrow> same_cell q (partial_node q j) c"
  by (intro same_cellI partial_node_bytes) simp

context cell_view
begin

lemma append_view:
  assumes wf: "node_wf (partial_node q j) []" "cells_ok ok (partial_node q j)"
    and j: "j < 2 ^ 31"
    and room: "60 + 4 * j + len \<le> unat (node_cell_offset q)"
    and cell: "\<forall>a. a < unat off \<or> unat off + len \<le> a \<longrightarrow>
        r a = wr32 (set_cell_offset q off) (56 + 4 * j) off a"
    and off: "unat off + len = unat (node_cell_offset q)"
    and new: "view r (unat off) = x" "ok r (unat off)" "cell_len r (unat off) = len"
  shows "node_wf (partial_node r (Suc j)) []" "cells_ok ok (partial_node r (Suc j))"
    "node_view view (partial_node r (Suc j)) = node_view view (partial_node q j) @ [x]"
    "node_cell_offset r = off" "node_size r = node_size q" "node_flags r = node_flags q"
    "node_rightmost_pid r = node_rightmost_pid q" "node_parent_pid r = node_parent_pid q"
proof -
  let ?Q = "partial_node q j" and ?R = "partial_node r (Suc j)"
  have cnt: "node_count ?Q = j" "node_count ?R = Suc j" using j by (simp_all add: partial_node_count)
  have lo: "60 + 4 * j \<le> unat off" using room off by simp
  have r: "r a = wr32 (set_cell_offset q off) (56 + 4 * j) off a" if "a < 60 + 4 * j" for a
    using cell lo that by simp
  have rq: "r a = q a" if "a < 36 \<or> 40 \<le> a" "a < 56 + 4 * j" for a
    using r [of a] that by (auto simp: node_set_defs)
  show co: "node_cell_offset r = off"
  proof -
    have "rd32 r 36 = rd32 (wr32 (set_cell_offset q off) (56 + 4 * j) off) 36"
      by (intro rd_cong r) simp
    then show ?thesis by (simp add: node_cell_offset_def set_cell_offset_def)
  qed
  have hdr: "node_size r = node_size q" "node_flags r = node_flags q"
    "node_rightmost_pid r = node_rightmost_pid q" "node_parent_pid r = node_parent_pid q"
    "node_tombstone_offset r = node_tombstone_offset q"
    unfolding node_get_defs by (intro rd_cong rq; simp)+
  show "node_size r = node_size q" "node_flags r = node_flags q"
    "node_rightmost_pid r = node_rightmost_pid q" "node_parent_pid r = node_parent_pid q"
    using hdr by simp_all
  have above: "\<forall>a \<ge> unat (node_cell_offset ?Q). ?R a = ?Q a"
    using cell off lo by (auto simp: partial_node_bytes node_set_defs)
  have ptr: "\<forall>i < j. cell_at ?R i = cell_at ?Q i"
    by (auto intro!: cell_at_cong rq)
  have ptrj: "cell_at ?R j = unat off"
  proof -
    have "rd32 r (56 + 4 * j) = rd32 (wr32 (set_cell_offset q off) (56 + 4 * j) off) (56 + 4 * j)"
      by (intro rd_cong r) simp
    then have "cell_at r j = unat off" by (simp add: cell_at_def)
    then show ?thesis by simp
  qed
  have same: "same_cell r ?R (unat off)" using lo by (intro partial_node_same_cell) simp
  have e: "view ?R (unat off) = x" "ok ?R (unat off)" "cell_len ?R (unat off) = len"
    using frame [OF same new(2)] new(1,3) same_cell_fields(6) [OF same] by simp_all
  have lay: "node_wf ?R []" "\<And>i. i < j \<Longrightarrow> same_cell ?Q ?R (cell_at ?Q i)"
    using insert_layout [OF wf(1), of j ?R "unat off"] above ptr ptrj cnt co hdr(5) lo off e(3)
    by simp_all
  then show "node_wf ?R []" by simp
  have eq: "ok ?R (cell_at ?Q i) \<and> view ?R (cell_at ?Q i) = view ?Q (cell_at ?Q i)" if "i < j" for i
    using frame [OF lay(2) [OF that]] cells_okD [OF wf(2)] that cnt(1) by simp
  have "ok ?R (cell_at ?R i)" if "i < Suc j" for i
    using that e(2) ptr ptrj eq by (cases "i = j") auto
  then show "cells_ok ok ?R" by (simp add: cells_ok_def list_all_iff cnt del: partial_node_fields)
  show "node_view view ?R = node_view view ?Q @ [x]"
    unfolding node_view_def cnt using e(1) ptr ptrj eq by (simp del: partial_node_fields)
qed

end

section \<open>The loops\<close>

text \<open>
  What a split does to the old page: the cells of the pointers \<open>ks\<close> become tombstones of their
  size, the cells of the pointers \<open>is\<close> and the older tombstones stay, and the header keeps
  everything but the tombstone fields.
\<close>

definition freed :: "page \<Rightarrow> page \<Rightarrow> nat list \<Rightarrow> nat list \<Rightarrow> nat list \<Rightarrow> bool" where
  "freed p p' is ks ts \<longleftrightarrow>
     node_layout p' is (rev (map (cell_at p) ks) @ ts) \<and>
     (\<forall>i < node_count p. cell_at p' i = cell_at p i) \<and>
     (\<forall>i \<in> set is. same_cell p p' (cell_at p i)) \<and>
     (\<forall>i \<in> set ks. unat (cell_tombstone_size p' (cell_at p i)) = cell_len p (cell_at p i)) \<and>
     (\<forall>t \<in> set ts. cell_tombstone_size p' t = cell_tombstone_size p t) \<and>
     node_size p' = node_size p \<and> node_cell_offset p' = node_cell_offset p \<and>
     node_flags p' = node_flags p \<and> node_rightmost_pid p' = node_rightmost_pid p \<and>
     node_parent_pid p' = node_parent_pid p"

lemma same_cell_trans: "same_cell p q c \<Longrightarrow> same_cell q r c \<Longrightarrow> same_cell p r c"
  using same_cell_fields(6) [of p q c] by (simp add: same_cell_def)

lemma freed_none: "node_layout p is ts \<Longrightarrow> freed p p is [] ts"
  by (simp add: freed_def same_cell_def)

lemma freed_one:
  assumes "node_layout p (is1 @ unat k # is2) ts"
  shows "freed p (node_tuple_set_tombstone p k) (is1 @ is2) [unat k] ts"
proof -
  have c: "56 \<le> cell_at p (unat k)" "cell_at p (unat k) < 2 ^ 32" "cell_len p (cell_at p (unat k)) \<le> 4096"
    using node_layout_live [OF assms, of "unat k"] by simp_all
  then have "unat (16 + cell_total_size p (cell_at p (unat k))) = cell_len p (cell_at p (unat k))"
    by (simp add: cell_len_def unat_simps)
  then show ?thesis
    using set_tombstone_layout [OF assms] set_tombstone_fields [OF refl c(1,2)]
    by (simp add: freed_def)
qed

lemma freed_trans:
  assumes "freed p q (is @ js) ks ts" "freed q r is ls (rev (map (cell_at p) ks) @ ts)"
    and "set ls \<subseteq> set js"
  shows "freed p r is (ks @ ls) ts"
proof -
  have c: "node_count q = node_count p" using assms(1) by (simp add: freed_def node_count_def)
  have at: "cell_at q i = cell_at p i" if "i \<in> set (is @ js)" for i
    using that assms(1) node_layoutD(4) [of q "is @ js" _ i] c by (auto simp: freed_def)
  then have m: "map (cell_at q) ls = map (cell_at p) ls" using assms(3) by auto
  have size: "unat (cell_tombstone_size r (cell_at p i)) = cell_len p (cell_at p i)" if "i \<in> set (ks @ ls)" for i
  proof (cases "i \<in> set ks")
    case True
    then have "cell_at p i \<in> set (rev (map (cell_at p) ks) @ ts)" by simp
    then have "cell_tombstone_size r (cell_at p i) = cell_tombstone_size q (cell_at p i)"
      using assms(2) unfolding freed_def by blast
    then show ?thesis using assms(1) True by (simp add: freed_def)
  next
    case False
    then have i: "i \<in> set ls" "i \<in> set (is @ js)" using that assms(3) by auto
    then have "same_cell p q (cell_at p i)" using assms(1) unfolding freed_def by blast
    moreover have "unat (cell_tombstone_size r (cell_at q i)) = cell_len q (cell_at q i)"
      using assms(2) i(1) unfolding freed_def by blast
    ultimately show ?thesis using at [OF i(2)] same_cell_fields(6) by metis
  qed
  have old: "cell_tombstone_size r t = cell_tombstone_size p t" if "t \<in> set ts" for t
    using assms(1,2) that by (simp add: freed_def)
  have "\<forall>i \<in> set is. same_cell p r (cell_at p i)"
    using assms(1,2) at by (auto simp: freed_def intro: same_cell_trans)
  then show ?thesis
    using assms(1,2) size old unfolding freed_def c m by simp
qed

text \<open>
  What a split does to the new page: the readings \<open>xs\<close> are appended, the header keeps its
  flags and pointers.
\<close>

context cell_view
begin

definition grown :: "page \<Rightarrow> nat \<Rightarrow> page \<Rightarrow> nat \<Rightarrow> 'e list \<Rightarrow> bool" where
  "grown q j q' j' xs \<longleftrightarrow>
     node_wf (partial_node q' j') [] \<and> cells_ok ok (partial_node q' j') \<and>
     node_view view (partial_node q' j') = node_view view (partial_node q j) @ xs \<and>
     node_size q' = node_size q \<and> node_flags q' = node_flags q \<and>
     node_rightmost_pid q' = node_rightmost_pid q \<and> node_parent_pid q' = node_parent_pid q"

lemma grown_trans: "grown q j q' j' xs \<Longrightarrow> grown q' j' q'' j'' ys \<Longrightarrow> grown q j q'' j'' (xs @ ys)"
  by (simp add: grown_def)

end

lemma carve_cell:
  fixes j :: u32
  assumes need: "unat (ucast need64 :: u32) = len" "len \<le> unat (node_cell_offset q)"
  defines "off \<equiv> node_cell_offset q - ucast need64" and "r \<equiv> carve_cell q j need64"
  shows "r = wr32 (set_cell_offset q off) (56 + 4 * unat j) off"
    and "node_cell_from_ptr r (node_get_cell_ptr r j) = unat off"
    and "unat off + len = unat (node_cell_offset q)"
proof -
  have co: "node_cell_offset (set_cell_offset q off) = off"
    by (simp add: node_cell_offset_def set_cell_offset_def)
  have "sub_assign (node_cell_offset q) need64 = off" by (simp add: sub_assign_def off_def)
  then show r: "r = wr32 (set_cell_offset q off) (56 + 4 * unat j) off"
    by (simp add: r_def carve_cell_def Let_def co node_get_cell_ptr_def node_cells_def)
  then show "node_cell_from_ptr r (node_get_cell_ptr r j) = unat off"
    by (simp add: node_cell_from_ptr_def node_cell_from_offset_def node_get_cell_ptr_def node_cells_def)
  show "unat off + len = unat (node_cell_offset q)"
    using need by (simp add: off_def unat_simps)
qed

lemma leaf_split_step:
  assumes wf: "node_wf (partial_node q (unat j)) []" "cells_ok leaf_cell_ok (partial_node q (unat j))"
    and j: "unat j < 2 ^ 31" and ok: "leaf_cell_ok p c"
    and room: "60 + 4 * unat j + cell_len p c \<le> unat (node_cell_offset q)"
  defines "r \<equiv> copy_leaf_cell p q j c"
  shows "leaf_view.grown q (unat j) r (Suc (unat j)) [leaf_entry p c]"
    and "unat (node_cell_offset r) + cell_len p c = unat (node_cell_offset q)"
proof -
  let ?q2 = "carve_cell q j (16 + ucast (cell_key_size p c) + ucast (cell_value_size p c))"
  let ?ks = "cell_key_size p c" and ?vs = "cell_value_size p c"
  have lay: "node_layout (partial_node q (unat j)) [0..<node_count (partial_node q (unat j))] []"
    using wf(1) by (simp add: node_wf_def)
  have len: "cell_len p c = 16 + unat ?ks + unat ?vs"
    using ok by (simp add: cell_len_def leaf_cell_ok_def)
  have small: "unat ?ks + unat ?vs < 2 ^ 31"
    using room len node_layoutD(2) [OF lay] by simp
  then have need: "unat (ucast (16 + ucast ?ks + ucast ?vs :: u64) :: u32) = cell_len p c"
    using len by (simp add: unat_simps)
  have fits: "cell_len p c \<le> unat (node_cell_offset q)" using room by simp
  note carve = carve_cell(1,2) [OF need fits, where j = j] carve_cell(3) [OF need fits]
  have r: "r = node_write_leaf_cell ?q2 (node_get_cell_ptr ?q2 j) (cell_key p c) (cell_key_size p c)
      (leaf_cell_value p c) (cell_value_size p c) 0"
    by (simp only: r_def copy_leaf_cell_def Let_def)
  note w = write_leaf_cell [OF carve(2) [symmetric] length_cell_key length_leaf_cell_value small,
      where fl = 0, folded r]
  have cell: "\<forall>a. a < unat (node_cell_offset q - ucast (16 + ucast ?ks + ucast ?vs :: u64)) \<or>
      unat (node_cell_offset q - ucast (16 + ucast ?ks + ucast ?vs :: u64)) + cell_len p c \<le> a \<longrightarrow>
      r a = wr32 (set_cell_offset q (node_cell_offset q - ucast (16 + ucast ?ks + ucast ?vs :: u64)))
        (56 + 4 * unat j) (node_cell_offset q - ucast (16 + ucast ?ks + ucast ?vs :: u64)) a"
    unfolding carve(1) [symmetric] len by (intro allI impI w(1)) (simp only: add.assoc)
  note a = leaf_view.append_view [OF wf j room cell carve(3) w(2,3) w(4) [folded len]]
  show "leaf_view.grown q (unat j) r (Suc (unat j)) [leaf_entry p c]"
    using a by (simp add: leaf_view.grown_def leaf_entry_def)
  show "unat (node_cell_offset r) + cell_len p c = unat (node_cell_offset q)"
    unfolding a(4) by (rule carve(3))
qed

lemma internal_split_step:
  assumes wf: "node_wf (partial_node q (unat j)) []" "cells_ok internal_cell_ok (partial_node q (unat j))"
    and j: "unat j < 2 ^ 31" and ok: "internal_cell_ok p c"
    and room: "60 + 4 * unat j + cell_len p c \<le> unat (node_cell_offset q)"
  defines "r \<equiv> copy_internal_cell p q j c"
  shows "internal_view.grown q (unat j) r (Suc (unat j)) [internal_entry p c]"
    and "unat (node_cell_offset r) + cell_len p c = unat (node_cell_offset q)"
proof -
  let ?q2 = "carve_cell q j (16 + ucast (cell_key_size p c))"
  let ?ks = "cell_key_size p c"
  have lay: "node_layout (partial_node q (unat j)) [0..<node_count (partial_node q (unat j))] []"
    using wf(1) by (simp add: node_wf_def)
  have len: "cell_len p c = 16 + unat ?ks"
    using ok by (simp add: cell_len_def internal_cell_ok_def)
  have need: "unat (ucast (16 + ucast ?ks :: u64) :: u32) = cell_len p c"
    using room len node_layoutD(2) [OF lay] by (simp add: unat_simps)
  have fits: "cell_len p c \<le> unat (node_cell_offset q)" using room by simp
  note carve = carve_cell(1,2) [OF need fits, where j = j] carve_cell(3) [OF need fits]
  have r: "r = node_write_internal_cell ?q2 (node_get_cell_ptr ?q2 j) (cell_key p c) (cell_key_size p c)
      (internal_cell_child p c) 0"
    by (simp only: r_def copy_internal_cell_def Let_def)
  note w = write_internal_cell [OF carve(2) [symmetric] length_cell_key [of p c],
      where fl = 0 and child = "internal_cell_child p c", folded r]
  have cell: "\<forall>a. a < unat (node_cell_offset q - ucast (16 + ucast ?ks :: u64)) \<or>
      unat (node_cell_offset q - ucast (16 + ucast ?ks :: u64)) + cell_len p c \<le> a \<longrightarrow>
      r a = wr32 (set_cell_offset q (node_cell_offset q - ucast (16 + ucast ?ks :: u64)))
        (56 + 4 * unat j) (node_cell_offset q - ucast (16 + ucast ?ks :: u64)) a"
    unfolding carve(1) [symmetric] len by (intro allI impI w(1)) (simp only: add.assoc)
  note a = internal_view.append_view [OF wf j room cell carve(3) w(2,3) w(4) [folded len]]
  show "internal_view.grown q (unat j) r (Suc (unat j)) [internal_entry p c]"
    using a by (simp add: internal_view.grown_def internal_entry_def internal_cell_child_def)
  show "unat (node_cell_offset r) + cell_len p c = unat (node_cell_offset q)"
    unfolding a(4) by (rule carve(3))
qed

context cell_view
begin

text \<open>
  A loop that copies the cells \<open>k, k + 1, \<dots>\<close> one by one and frees each in the old node, for
  a copying step that is right.  \<open>m\<close> pointers at the front of the old node stay live.
\<close>

lemma split_loop:
  fixes loop :: "page \<Rightarrow> page \<Rightarrow> u32 \<Rightarrow> u32 \<Rightarrow> page \<times> page"
    and copy :: "page \<Rightarrow> page \<Rightarrow> u32 \<Rightarrow> nat \<Rightarrow> page"
  assumes eq: "\<And>p q j k. loop p q j k =
      (if k < node_size p
       then loop (node_tuple_set_tombstone p k)
              (copy p q j (node_cell_from_ptr p (node_get_cell_ptr p k))) (j + 1) (k + 1)
       else (p, q))"
    and step: "\<And>p q j c. node_wf (partial_node q (unat j)) [] \<Longrightarrow> cells_ok ok (partial_node q (unat j)) \<Longrightarrow>
      unat j < 2 ^ 31 \<Longrightarrow> ok p c \<Longrightarrow> 60 + 4 * unat j + cell_len p c \<le> unat (node_cell_offset q) \<Longrightarrow>
      grown q (unat j) (copy p q j c) (Suc (unat j)) [view p c] \<and>
      unat (node_cell_offset (copy p q j c)) + cell_len p c = unat (node_cell_offset q)"
    and "node_layout p ([0..<m] @ [unat k..<node_count p]) ts"
    and "unat j \<le> unat k" "unat k \<le> node_count p"
    and "\<forall>i \<in> {unat k..<node_count p}. ok p (cell_at p i)"
    and "node_wf (partial_node q (unat j)) []" "cells_ok ok (partial_node q (unat j))"
    and "56 + 4 * (unat j + (node_count p - unat k)) +
           (\<Sum>i\<leftarrow>[unat k..<node_count p]. cell_len p (cell_at p i)) \<le> unat (node_cell_offset q)"
  shows "\<exists>p' q'. loop p q j k = (p', q') \<and>
           freed p p' [0..<m] [unat k..<node_count p] ts \<and>
           grown q (unat j) q' (unat j + (node_count p - unat k))
             (map (\<lambda>i. view p (cell_at p i)) [unat k..<node_count p]) \<and>
           unat (node_cell_offset q') + (\<Sum>i\<leftarrow>[unat k..<node_count p]. cell_len p (cell_at p i)) =
             unat (node_cell_offset q)"
  using assms(3-)
proof (induction "node_count p - unat k" arbitrary: p q j k ts)
  case 0
  then have k: "unat k = node_count p" by simp
  then have "loop p q j k = (p, q)" by (simp add: eq [of p q j k] word_less_nat_alt node_count_def)
  then show ?case using 0 k by (simp add: freed_none grown_def)
next
  case (Suc d)
  let ?n = "node_count p" and ?c = "cell_at p (unat k)"
  let ?p1 = "node_tuple_set_tombstone p k" and ?q1 = "copy p q j ?c"
  have kn: "unat k < ?n" using Suc.hyps(2) by simp
  have upt: "[unat k..<?n] = unat k # [Suc (unat k)..<?n]" using kn by (rule upt_conv_Cons)
  have n31: "?n < 2 ^ 31" using node_count_bound [OF Suc.prems(1)] by simp
  have k1: "unat (k + 1) = Suc (unat k)" using kn n31 by (simp add: unat_simps)
  have j31: "unat j < 2 ^ 31" using kn n31 Suc.prems(2) by simp
  then have j1: "unat (j + 1) = Suc (unat j)" by (simp add: unat_simps)
  have lay: "node_layout p ([0..<m] @ unat k # [Suc (unat k)..<?n]) ts"
    using Suc.prems(1) unfolding upt .
  note fr = freed_one [OF lay]
  have cnt: "node_count ?p1 = ?n" using fr by (simp add: freed_def node_count_def)
  have tail: "cell_at ?p1 i = cell_at p i \<and> ok ?p1 (cell_at p i) \<and>
      view ?p1 (cell_at p i) = view p (cell_at p i) \<and> cell_len ?p1 (cell_at p i) = cell_len p (cell_at p i)"
    if "i \<in> {Suc (unat k)..<?n}" for i
  proof -
    have sc: "same_cell p ?p1 (cell_at p i)" using fr that by (simp add: freed_def)
    have "ok p (cell_at p i)" using Suc.prems(4) that by simp
    then show ?thesis
      using fr that frame [OF sc] same_cell_fields(6) [OF sc] by (simp add: freed_def)
  qed
  have sums: "(\<Sum>i\<leftarrow>[Suc (unat k)..<?n]. cell_len ?p1 (cell_at ?p1 i)) =
      (\<Sum>i\<leftarrow>[Suc (unat k)..<?n]. cell_len p (cell_at p i))"
    using tail by (intro arg_cong [where f = sum_list] map_cong) simp_all
  have room: "60 + 4 * unat j + cell_len p ?c \<le> unat (node_cell_offset q)"
    using Suc.prems(7) kn unfolding upt by simp
  have "ok p ?c" using Suc.prems(4) kn by simp
  note st = step [OF Suc.prems(5,6) j31 this room]
  have "\<exists>p' q'. loop ?p1 ?q1 (j + 1) (k + 1) = (p', q') \<and>
      freed ?p1 p' [0..<m] [unat (k + 1)..<node_count ?p1] (?c # ts) \<and>
      grown ?q1 (unat (j + 1)) q' (unat (j + 1) + (node_count ?p1 - unat (k + 1)))
        (map (\<lambda>i. view ?p1 (cell_at ?p1 i)) [unat (k + 1)..<node_count ?p1]) \<and>
      unat (node_cell_offset q') + (\<Sum>i\<leftarrow>[unat (k + 1)..<node_count ?p1]. cell_len ?p1 (cell_at ?p1 i)) =
        unat (node_cell_offset ?q1)"
  proof (rule Suc.hyps(1))
    show "d = node_count ?p1 - unat (k + 1)" using Suc.hyps(2) k1 cnt by simp
    show "node_layout ?p1 ([0..<m] @ [unat (k + 1)..<node_count ?p1]) (?c # ts)"
      using fr unfolding k1 cnt by (simp add: freed_def)
    show "unat (j + 1) \<le> unat (k + 1)" "unat (k + 1) \<le> node_count ?p1"
      using Suc.prems(2) kn k1 j1 cnt by simp_all
    show "\<forall>i \<in> {unat (k + 1)..<node_count ?p1}. ok ?p1 (cell_at ?p1 i)"
      using tail unfolding k1 cnt by simp
    show "node_wf (partial_node ?q1 (unat (j + 1))) []" "cells_ok ok (partial_node ?q1 (unat (j + 1)))"
      using st unfolding j1 by (simp_all add: grown_def)
    show "56 + 4 * (unat (j + 1) + (node_count ?p1 - unat (k + 1))) +
        (\<Sum>i\<leftarrow>[unat (k + 1)..<node_count ?p1]. cell_len ?p1 (cell_at ?p1 i)) \<le> unat (node_cell_offset ?q1)"
      using Suc.prems(7) conjunct2 [OF st] kn sums unfolding upt k1 j1 cnt by simp
  qed
  then obtain p' q' where r: "loop ?p1 ?q1 (j + 1) (k + 1) = (p', q')"
    and f: "freed ?p1 p' [0..<m] [Suc (unat k)..<?n] (?c # ts)"
    and g: "grown ?q1 (Suc (unat j)) q' (Suc (unat j) + (?n - Suc (unat k)))
        (map (\<lambda>i. view ?p1 (cell_at ?p1 i)) [Suc (unat k)..<?n])"
    and o: "unat (node_cell_offset q') + (\<Sum>i\<leftarrow>[Suc (unat k)..<?n]. cell_len ?p1 (cell_at ?p1 i)) =
        unat (node_cell_offset ?q1)"
    unfolding k1 j1 cnt by blast
  have "k < node_size p" using kn by (simp add: word_less_nat_alt node_count_def)
  then have "loop p q j k = (p', q')" using r by (simp add: eq [of p q j k] cell_from_ptr_at)
  moreover have "freed p p' [0..<m] ([unat k] @ [Suc (unat k)..<?n]) ts"
    using freed_trans [OF fr] f by simp
  moreover have views: "map (\<lambda>i. view ?p1 (cell_at ?p1 i)) [Suc (unat k)..<?n] =
      map (\<lambda>i. view p (cell_at p i)) [Suc (unat k)..<?n]"
    using tail by (intro map_cong) simp_all
  moreover have "unat (node_cell_offset q') + (\<Sum>i\<leftarrow>unat k # [Suc (unat k)..<?n]. cell_len p (cell_at p i)) =
      unat (node_cell_offset q)"
    using o conjunct2 [OF st] unfolding sums by simp
  ultimately show ?case
    using grown_trans [OF conjunct1 [OF st] g, unfolded views] kn unfolding upt
    by (auto simp: Suc_diff_Suc)
qed

text \<open>The old node once its \<open>size\<close> is lowered to the cells that stayed.\<close>

lemma truncate_view:
  assumes fr: "freed p p' [0..<m] ks ts" and m: "m \<le> node_count p" and ok: "cells_ok ok p"
  defines "r \<equiv> partial_node p' m"
  shows "node_wf r (rev (map (cell_at p) ks) @ ts)" "cells_ok ok r"
    "node_view view r = take m (node_view view p)" "node_count r = m"
proof -
  have lay: "node_layout p' [0..<m] (rev (map (cell_at p) ks) @ ts)" using fr by (simp add: freed_def)
  have cnt: "node_count p' = node_count p" using fr by (simp add: freed_def node_count_def)
  have "m < 2 ^ 32" using m cnt node_count_bound [OF lay] by simp
  then show count: "node_count r = m" by (simp add: r_def partial_node_count)
  have r: "r a = p' a" if "36 \<le> a" for a using that by (simp add: r_def partial_node_bytes)
  have rsc: "same_cell p' r (cell_at p' i)" if "i < m" for i
    using node_layout_live(3) [OF lay, of i] that by (intro same_cellI r) simp
  have blocks: "map (live_block r) [0..<m] = map (live_block p') [0..<m]"
    by (intro map_cong refl live_block_cong rsc) (simp_all add: r_def)
  show "node_wf r (rev (map (cell_at p) ks) @ ts)"
    unfolding node_wf_def count
  proof (rule node_layout_frame [OF lay blocks])
    show "r i = p' i" if "t \<in> set (rev (map (cell_at p) ks) @ ts)" "t \<le> i" "i < t + 8" for t i
      using node_layout_tomb(3) [OF lay that(1)] that(2) by (intro r) simp
  qed (use node_layoutD(1) [OF lay] m cnt count in \<open>simp_all add: r_def list_all_iff\<close>)
  have e: "cell_at r i = cell_at p i \<and> ok r (cell_at p i) \<and> view r (cell_at p i) = view p (cell_at p i)"
    if "i < m" for i
  proof -
    have at: "cell_at p' i = cell_at p i" and "same_cell p p' (cell_at p i)"
      using fr that m by (simp_all add: freed_def)
    then have "same_cell p r (cell_at p i)" using rsc [OF that] same_cell_trans by simp
    then show ?thesis using frame cells_okD [OF ok] that m at by (simp add: r_def)
  qed
  then show "cells_ok ok r" by (simp add: cells_ok_def list_all_iff count)
  show "node_view view r = take m (node_view view p)"
    using e m by (intro nth_equalityI) (simp_all add: count)
qed

end

section \<open>Splitting a leaf\<close>

text \<open>A new node as \<open>node_init\<close> leaves it.\<close>

definition fresh_node :: "page \<Rightarrow> bool" where
  "fresh_node q \<longleftrightarrow> node_size q = 0 \<and> node_cell_offset q = 4096 \<and> node_tombstone_offset q = 0"

lemma fresh_partial:
  assumes "fresh_node q"
  shows "node_wf (partial_node q 0) []" "cells_ok ok (partial_node q 0)" "node_view view (partial_node q 0) = []"
  using assms
  by (simp_all add: fresh_node_def node_wf_def node_layout_def node_blocks_def cells_ok_def node_view_def
      partial_node_count)

lemma fresh_node_init [simp]: "fresh_node (node_init p f)"
  by (simp add: fresh_node_def)

lemma sum_list_upt_suffix:
  fixes f :: "nat \<Rightarrow> nat"
  shows "k \<le> n \<Longrightarrow> (\<Sum>i\<leftarrow>[k..<n]. f i) \<le> (\<Sum>i\<leftarrow>[0..<n]. f i)"
  using upt_add_eq_append [of 0 k "n - k"] by simp

lemma map_view_drop: "k \<le> node_count p \<Longrightarrow> map (\<lambda>i. view p (cell_at p i)) [k..<node_count p] = drop k (node_view view p)"
  by (simp add: node_view_def drop_map)

lemma leaf_split_loop_run:
  assumes wf: "node_wf p ts" "cells_ok leaf_cell_ok p" and q: "fresh_node q"
    and k: "unat k \<le> node_count p"
  shows "\<exists>p' q'. leaf_split_loop p q 0 k = (p', q') \<and>
    freed p p' [0..<unat k] [unat k..<node_count p] ts \<and>
    leaf_view.grown q 0 q' (node_count p - unat k) (drop (unat k) (leaf_entries p)) \<and>
    unat (node_cell_offset q') + (\<Sum>i\<leftarrow>[unat k..<node_count p]. cell_len p (cell_at p i)) = 4096"
proof -
  let ?n = "node_count p"
  have "[0..<unat k] @ [unat k..<?n] = [0..<?n]"
    using upt_add_eq_append [of 0 "unat k" "?n - unat k"] k by simp
  then have lay: "node_layout p ([0..<unat k] @ [unat k..<?n]) ts"
    using wf(1) by (simp add: node_wf_def)
  have room: "56 + 4 * (unat (0::u32) + (?n - unat k)) +
      (\<Sum>i\<leftarrow>[unat k..<?n]. cell_len p (cell_at p i)) \<le> unat (node_cell_offset q)"
    using live_cells_fit [OF wf(1)] sum_list_upt_suffix [OF k, of "\<lambda>i. cell_len p (cell_at p i)"] q
    by (simp add: fresh_node_def)
  show ?thesis
    using leaf_view.split_loop [of leaf_split_loop copy_leaf_cell p "unat k" k ts 0 q,
        OF leaf_split_loop.simps _ lay _ k _ _ _ room]
      leaf_split_step k fresh_partial [OF q] cells_okD [OF wf(2)] q
    by (auto simp: map_view_drop leaf_entries_def fresh_node_def)
qed

lemma internal_split_loop_run:
  assumes lay: "node_layout p ([0..<m] @ [unat k..<node_count p]) ts"
    and ok: "\<forall>i \<in> {unat k..<node_count p}. internal_cell_ok p (cell_at p i)" and q: "fresh_node q"
    and k: "unat k \<le> node_count p"
    and fit: "56 + 4 * node_count p + (\<Sum>i\<leftarrow>[0..<node_count p]. cell_len p (cell_at p i)) \<le> 4096"
  shows "\<exists>p' q'. internal_split_loop p q 0 k = (p', q') \<and>
    freed p p' [0..<m] [unat k..<node_count p] ts \<and>
    internal_view.grown q 0 q' (node_count p - unat k) (drop (unat k) (internal_entries p))"
proof -
  have room: "56 + 4 * (unat (0::u32) + (node_count p - unat k)) +
      (\<Sum>i\<leftarrow>[unat k..<node_count p]. cell_len p (cell_at p i)) \<le> unat (node_cell_offset q)"
    using fit sum_list_upt_suffix [OF k, of "\<lambda>i. cell_len p (cell_at p i)"] q
    by (simp add: fresh_node_def)
  show ?thesis
    using internal_view.split_loop [of internal_split_loop copy_internal_cell p m k ts 0 q,
        OF internal_split_loop.simps _ lay _ k _ _ _ room]
      internal_split_step k fresh_partial [OF q] ok
    by (fastforce simp: map_view_drop internal_entries_def)
qed

section \<open>What a split computes\<close>

lemma set_size_partial: "unat v = m \<Longrightarrow> set_size p v = partial_node p m"
  by (auto simp: partial_node_def)

lemma node_count_unat: "node_count p = unat (node_size p)"
  by (simp add: node_count_def)

text \<open>
  The page that keeps the first \<open>k\<close> cells: nothing is moved, so the gap grows only by the pointers
  of the other cells, and the last cell of the old page is the first tombstone.
\<close>

definition left_half :: "page \<Rightarrow> nat \<Rightarrow> page \<Rightarrow> bool" where
  "left_half p k p' \<longleftrightarrow> node_count p' = k \<and> node_cell_offset p' = node_cell_offset p \<and>
     (\<forall>i < k. cell_at p' i = cell_at p i) \<and>
     node_tombstone_offset p' \<noteq> 0 \<and> unat (node_tombstone_offset p') = cell_at p (node_count p - 1) \<and>
     unat (cell_tombstone_size p' (cell_at p (node_count p - 1))) = cell_len p (cell_at p (node_count p - 1))"

lemma freed_left_half:
  assumes fr: "freed p p1 [0..<k] [k..<node_count p] ts" and k: "k < node_count p"
  shows "left_half p k (partial_node p1 k)"
proof -
  let ?n = "node_count p" and ?c = "cell_at p (node_count p - 1)"
  have lay: "node_layout p1 [0..<k] (rev (map (cell_at p) [k..<?n]) @ ts)" using fr by (simp add: freed_def)
  have rev: "rev (map (cell_at p) [k..<?n]) = ?c # rev (map (cell_at p) [k..<?n - 1])"
    using k by (cases ?n) simp_all
  have "tomb_chain p1 (node_tombstone_offset p1) (?c # rev (map (cell_at p) [k..<?n - 1]) @ ts)"
    using node_layoutD(3) [OF lay] unfolding rev append_Cons .
  then have head: "node_tombstone_offset p1 \<noteq> 0" "unat (node_tombstone_offset p1) = ?c" by simp_all
  have last: "?n - 1 \<in> set [k..<?n]" using k by auto
  have "node_count p1 = ?n" using fr by (simp add: freed_def node_count_def)
  then have "node_count (partial_node p1 k) = k"
    using node_count_bound [OF lay] k by (intro partial_node_count) simp
  moreover have "?c \<in> set (rev (map (cell_at p) [k..<?n]) @ ts)" using last by auto
  then have "56 \<le> ?c" using node_layout_tomb(1) [OF lay, of ?c] node_layoutD(1) [OF lay] by simp
  then have "cell_tombstone_size (partial_node p1 k) ?c = cell_tombstone_size p1 ?c"
    unfolding cell_get_defs by (intro rd_cong partial_node_bytes) simp
  moreover have "unat (cell_tombstone_size p1 ?c) = cell_len p ?c"
    using fr last unfolding freed_def by blast
  ultimately show ?thesis using fr k head by (simp add: left_half_def freed_def)
qed

lemma leaf_node_split_eq:
  assumes inv: "leaf_inv p ts" and q: "fresh_node q" "node_is_leaf q" and k: "unat k < node_count p"
  shows "\<exists>p' q'. leaf_node_split p q k = Inr (p', q') \<and>
    leaf_inv p' (rev (map (cell_at p) [unat k..<node_count p]) @ ts) \<and> leaf_inv q' [] \<and>
    leaf_entries p' = take (unat k) (leaf_entries p) \<and> leaf_entries q' = drop (unat k) (leaf_entries p) \<and>
    node_flags p' = node_flags p \<and> node_flags q' = node_flags q \<and>
    node_parent_pid p' = node_parent_pid p \<and> node_parent_pid q' = node_parent_pid q \<and>
    left_half p (unat k) p' \<and>
    unat (node_cell_offset q') + (\<Sum>i\<leftarrow>[unat k..<node_count p]. cell_len p (cell_at p i)) = 4096"
proof -
  let ?n = "node_count p" and ?ks = "[unat k..<node_count p]"
  have wf: "node_wf p ts" "cells_ok leaf_cell_ok p" and asc: "sorted_wrt (<) (node_keys p)"
    using inv by (simp_all add: leaf_inv_def)
  obtain p1 q1 where run: "leaf_split_loop p q 0 k = (p1, q1)"
    and fr: "freed p p1 [0..<unat k] ?ks ts"
    and gr: "leaf_view.grown q 0 q1 (?n - unat k) (drop (unat k) (leaf_entries p))"
    and lo: "unat (node_cell_offset q1) + (\<Sum>i\<leftarrow>?ks. cell_len p (cell_at p i)) = 4096"
    using leaf_split_loop_run [OF wf q(1)] k by (meson less_imp_le)
  define p' q' where "p' = partial_node p1 (unat k)" and "q' = partial_node q1 (?n - unat k)"
  note tr = leaf_view.truncate_view [OF fr less_imp_le [OF k] wf(2), folded p'_def]
  have n32: "?n < 2 ^ 32" using node_count_bound wf(1) unfolding node_wf_def by fastforce
  have size1: "node_size p1 = node_size p" using fr by (simp add: freed_def)
  have d: "unat (node_size p - k) = ?n - unat k"
    using k by (simp add: unat_simps node_count_unat)
  have q': "set_size q1 (node_size p1 - k) = q'"
    using d by (simp add: q'_def size1 set_size_partial)
  have sq: "node_size q' = node_size p - k" unfolding q' [symmetric] by (simp add: size1)
  have p': "set_size p1 (node_size p1 - node_size q') = p'"
    by (simp add: p'_def size1 sq set_size_partial)
  have sp: "node_size p' = k" unfolding p' [symmetric] by (simp add: size1 sq)
  have pos: "0 < node_size p" "0 < node_size q'"
    using k d by (simp_all add: word_less_nat_alt node_count_unat sq)
  have "leaf_node_split p q k = Inr (p', q')"
    unfolding leaf_node_split_def run Let_def prod.case q' p' using q(1) pos by (simp add: fresh_node_def sq sp)
  moreover have ep: "leaf_entries p' = take (unat k) (leaf_entries p)"
    using tr(3) by (simp add: leaf_entries_def)
  moreover have eq: "leaf_entries q' = drop (unat k) (leaf_entries p)"
    using gr fresh_partial(3) [OF q(1), of leaf_entry]
    by (simp add: leaf_view.grown_def q'_def leaf_entries_def)
  moreover have flags: "node_flags p' = node_flags p" "node_flags q' = node_flags q"
    "node_parent_pid p' = node_parent_pid p" "node_parent_pid q' = node_parent_pid q"
    using fr gr by (simp_all add: freed_def leaf_view.grown_def p'_def q'_def)
  moreover have "left_half p (unat k) p'" unfolding p'_def by (rule freed_left_half [OF fr k])
  moreover have "sorted_wrt (<) (node_keys p')" "sorted_wrt (<) (node_keys q')"
  proof -
    have "node_keys p' = take (unat k) (node_keys p)" "node_keys q' = drop (unat k) (node_keys p)"
      by (simp_all only: node_keys_leaf ep eq take_map drop_map)
    then show "sorted_wrt (<) (node_keys p')" "sorted_wrt (<) (node_keys q')"
      using asc by (simp_all only: sorted_wrt_take sorted_wrt_drop)
  qed
  moreover have "node_is_leaf p'" "node_is_leaf q'"
    using flags inv q(2) by (simp_all add: leaf_inv_def node_is_leaf_def)
  moreover have "unat (node_cell_offset q') + (\<Sum>i\<leftarrow>?ks. cell_len p (cell_at p i)) = 4096"
    using lo by (simp add: q'_def)
  ultimately show ?thesis
    using tr(1,2) gr by (simp add: leaf_inv_def leaf_view.grown_def q'_def)
qed

lemma internal_node_split_eq:
  assumes inv: "internal_inv p ts" and q: "fresh_node q" "\<not> node_is_leaf q"
    and k: "0 < unat k" "Suc (unat k) < node_count p"
  shows "\<exists>p' q'. internal_node_split p q k = Inr (p', q') \<and>
    internal_inv p' (rev (map (cell_at p) [unat k..<node_count p]) @ ts) \<and> internal_inv q' [] \<and>
    internal_entries p' = take (unat k) (internal_entries p) \<and>
    internal_entries q' = drop (Suc (unat k)) (internal_entries p) \<and>
    node_flags p' = node_flags p \<and> node_flags q' = node_flags q \<and>
    node_rightmost_pid p' = node_rightmost_pid p \<and> node_rightmost_pid q' = node_rightmost_pid q"
proof -
  let ?n = "node_count p" and ?p0 = "node_tuple_set_tombstone p k"
  have wf: "node_wf p ts" "cells_ok internal_cell_ok p" and asc: "sorted_wrt (<) (node_keys p)"
    using inv by (simp_all add: internal_inv_def)
  have kn: "unat k < ?n" using k(2) by simp
  have lay: "node_layout p ([0..<unat k] @ unat k # [Suc (unat k)..<?n]) ts"
    using wf(1) unfolding node_wf_def upt_split_at [OF kn] .
  have n31: "?n < 2 ^ 31" using node_count_bound [OF lay] by simp
  have k1: "unat (k + 1) = Suc (unat k)" using k(2) n31 by (simp add: unat_simps)
  note f0 = freed_one [OF lay]
  have c0: "node_count ?p0 = ?n" using f0 by (simp add: freed_def node_count_def)
  have sc: "same_cell p ?p0 (cell_at p i)" "cell_at ?p0 i = cell_at p i" if "i < ?n" "i \<noteq> unat k" for i
  proof -
    have "i \<in> set ([0..<unat k] @ [Suc (unat k)..<?n])" using that by auto
    then show "same_cell p ?p0 (cell_at p i)" "cell_at ?p0 i = cell_at p i"
      using f0 [unfolded freed_def] that(1) by blast+
  qed
  have e0: "internal_cell_ok ?p0 (cell_at ?p0 i) \<and> internal_entry ?p0 (cell_at ?p0 i) = internal_entry p (cell_at p i)"
    if "i < ?n" "i \<noteq> unat k" for i
    using internal_view.frame [OF sc(1) [OF that] cells_okD [OF wf(2) that(1)]] sc(2) [OF that] by simp
  have len: "cell_len ?p0 (cell_at ?p0 i) = cell_len p (cell_at p i)" if "i < ?n" for i
  proof (cases "i = unat k")
    case False
    then show ?thesis using same_cell_fields(6) [OF sc(1)] sc(2) that by simp
  next
    case True
    have c: "56 \<le> cell_at p (unat k)" "cell_at p (unat k) < 2 ^ 32"
      using node_layout_live [OF lay, of "unat k"] by simp_all
    have at: "cell_at ?p0 (unat k) = cell_at p (unat k)" using f0 kn by (simp add: freed_def)
    have "?p0 a = p a" if "cell_at p (unat k) + 12 \<le> a" for a
      using c that by (intro set_tombstone_bytes_eq [OF refl]) auto
    then have "cell_total_size ?p0 (cell_at p (unat k)) = cell_total_size p (cell_at p (unat k))"
      unfolding cell_total_size_def by (intro rd_cong) simp
    with True at show ?thesis by (simp add: cell_len_def)
  qed
  have "(\<Sum>i\<leftarrow>[0..<?n]. cell_len ?p0 (cell_at ?p0 i)) = (\<Sum>i\<leftarrow>[0..<?n]. cell_len p (cell_at p i))"
    using len by (intro arg_cong [where f = sum_list] map_cong) simp_all
  then have fit: "56 + 4 * node_count ?p0 +
      (\<Sum>i\<leftarrow>[0..<node_count ?p0]. cell_len ?p0 (cell_at ?p0 i)) \<le> 4096"
    using live_cells_fit [OF wf(1)] by (simp add: c0)
  have drop0: "drop (Suc (unat k)) (internal_entries ?p0) = drop (Suc (unat k)) (internal_entries p)"
    unfolding internal_entries_def map_view_drop [symmetric, OF Suc_leI [OF kn]]
      map_view_drop [symmetric, OF Suc_leI [OF kn [folded c0]]] c0 using e0 by auto
  obtain p1 q1 where run: "internal_split_loop ?p0 q 0 (k + 1) = (p1, q1)"
    and fr0: "freed ?p0 p1 [0..<unat k] [Suc (unat k)..<?n] (cell_at p (unat k) # ts)"
    and gr: "internal_view.grown q 0 q1 (?n - Suc (unat k)) (drop (Suc (unat k)) (internal_entries p))"
  proof -
    have "node_layout ?p0 ([0..<unat k] @ [Suc (unat k)..<?n]) (cell_at p (unat k) # ts)"
      using f0 by (simp add: freed_def)
    moreover have "\<forall>i \<in> {Suc (unat k)..<?n}. internal_cell_ok ?p0 (cell_at ?p0 i)" using e0 by simp
    ultimately have "\<exists>p1 q1. internal_split_loop ?p0 q 0 (k + 1) = (p1, q1) \<and>
        freed ?p0 p1 [0..<unat k] [Suc (unat k)..<?n] (cell_at p (unat k) # ts) \<and>
        internal_view.grown q 0 q1 (?n - Suc (unat k)) (drop (Suc (unat k)) (internal_entries p))"
      using internal_split_loop_run [of ?p0 "unat k" "k + 1" "cell_at p (unat k) # ts" q, unfolded k1 c0 drop0,
          OF _ _ q(1) Suc_leI [OF kn] fit [unfolded c0]] by blast
    then show ?thesis using that by blast
  qed
  have fr: "freed p p1 [0..<unat k] [unat k..<?n] ts"
    using freed_trans [OF f0, of p1 "[Suc (unat k)..<?n]"] fr0
    unfolding upt_conv_Cons [OF kn] by simp
  define p' q' where "p' = partial_node p1 (unat k)" and "q' = partial_node q1 (?n - Suc (unat k))"
  note tr = internal_view.truncate_view [OF fr less_imp_le [OF kn] wf(2), folded p'_def]
  have size1: "node_size p1 = node_size p" using fr by (simp add: freed_def)
  have d: "unat (node_size p - (k + 1)) = ?n - Suc (unat k)"
    using k(2) k1 by (simp add: unat_simps node_count_unat)
  have q': "set_size q1 (node_size p1 - (k + 1)) = q'"
    using d by (simp add: q'_def size1 set_size_partial)
  have sq: "node_size q' = node_size p - (k + 1)" unfolding q' [symmetric] by (simp add: size1)
  have p': "set_size p1 (node_size p1 - (node_size q' + 1)) = p'"
    by (simp add: p'_def size1 sq set_size_partial)
  have sp: "node_size p' = k" unfolding p' [symmetric] by (simp add: size1 sq)
  have pos: "0 < node_size p" "0 < node_size q'" "0 < node_size p'"
    using k d by (simp_all add: word_less_nat_alt node_count_unat sq sp)
  have "internal_node_split p q k = Inr (p', q')"
    unfolding internal_node_split_def run Let_def prod.case q' p' using q(1) pos by (simp add: fresh_node_def sq sp)
  moreover have ep: "internal_entries p' = take (unat k) (internal_entries p)"
    using tr(3) by (simp add: internal_entries_def)
  moreover have eq: "internal_entries q' = drop (Suc (unat k)) (internal_entries p)"
    using gr fresh_partial(3) [OF q(1), of internal_entry]
    by (simp add: internal_view.grown_def q'_def internal_entries_def)
  moreover have flags: "node_flags p' = node_flags p" "node_flags q' = node_flags q"
    "node_rightmost_pid p' = node_rightmost_pid p" "node_rightmost_pid q' = node_rightmost_pid q"
    using fr gr by (simp_all add: freed_def internal_view.grown_def p'_def q'_def)
  moreover have "sorted_wrt (<) (node_keys p')" "sorted_wrt (<) (node_keys q')"
  proof -
    have "node_keys p' = take (unat k) (node_keys p)" "node_keys q' = drop (Suc (unat k)) (node_keys p)"
      by (simp_all only: node_keys_internal ep eq take_map drop_map)
    then show "sorted_wrt (<) (node_keys p')" "sorted_wrt (<) (node_keys q')"
      using asc by (simp_all only: sorted_wrt_take sorted_wrt_drop)
  qed
  moreover have "\<not> node_is_leaf p'" "\<not> node_is_leaf q'"
    using flags inv q(2) by (simp_all add: internal_inv_def node_is_leaf_def)
  ultimately show ?thesis
    using tr(1,2) gr by (simp add: internal_inv_def internal_view.grown_def q'_def)
qed

section \<open>Where a node is partitioned\<close>

text \<open>The bytes of the cells before index \<open>i\<close>.\<close>

definition bytes_before :: "page \<Rightarrow> nat \<Rightarrow> nat" where
  "bytes_before p i = (\<Sum>j\<leftarrow>[0..<i]. cell_len p (cell_at p j))"

lemma bytes_before_Suc: "bytes_before p (Suc i) = bytes_before p i + cell_len p (cell_at p i)"
  by (simp add: bytes_before_def)

lemma bytes_before_mono: "i \<le> j \<Longrightarrow> bytes_before p i \<le> bytes_before p j"
  by (induction j) (auto simp: bytes_before_Suc le_Suc_eq)

lemma bytes_before_wf: "node_wf p ts \<Longrightarrow> i \<le> node_count p \<Longrightarrow> bytes_before p i \<le> 4040"
  using live_cells_fit [of p ts] bytes_before_mono [of i "node_count p" p] by (simp add: bytes_before_def)

lemma partition_loop_eq:
  assumes "node_wf p ts" "unat m = bytes_before p (unat i)" "unat i \<le> node_count p"
    and "\<forall>j < unat i. bytes_before p j < 1992"
  shows "unat (partition_loop p i m) \<le> node_count p \<and>
    (\<forall>j < unat (partition_loop p i m). bytes_before p j < 1992) \<and>
    (unat (partition_loop p i m) < node_count p \<longrightarrow> 1992 \<le> bytes_before p (unat (partition_loop p i m)))"
  using assms
proof (induction p i m rule: partition_loop.induct)
  case (1 p i m)
  have m64: "(ucast m :: u64) < 4096 div 2 - 56 \<longleftrightarrow> unat m < 1992"
    by (simp add: word_less_nat_alt unat_ucast_up)
  show ?case
  proof (cases "i < node_size p \<and> (ucast m :: u64) < 4096 div 2 - 56")
    case False
    then have "partition_loop p i m = i" by (subst partition_loop.simps) (rule if_not_P)
    moreover have "1992 \<le> bytes_before p (unat i)" if "unat i < node_count p"
      using False that m64 "1.prems"(2) by (simp add: word_less_nat_alt node_count_def not_less)
    ultimately show ?thesis using "1.prems" by simp
  next
    case True
    let ?m = "ucast (ucast m + (16 + ucast (cell_total_size p (node_cell_from_idx p i))) :: u64) :: u32"
    have i: "unat i < node_count p" using True by (simp add: word_less_nat_alt node_count_def)
    have i1: "unat (i + 1) = Suc (unat i)"
      using i node_count_bound [OF "1.prems"(1) [unfolded node_wf_def]] by (simp add: unat_simps)
    have le: "bytes_before p (unat i) + cell_len p (cell_at p (unat i)) \<le> 4040"
      using bytes_before_wf [OF "1.prems"(1) Suc_leI [OF i]] by (simp add: bytes_before_Suc)
    then have "unat ?m = bytes_before p (Suc (unat i))"
      using "1.prems"(2) by (simp add: cell_from_idx_at bytes_before_Suc cell_len_def unat_simps)
    moreover have "\<forall>j < unat (i + 1). bytes_before p j < 1992"
      using "1.prems"(2,4) True m64 i1 by (simp add: less_Suc_eq)
    moreover have "partition_loop p i m = partition_loop p (i + 1) ?m"
      using True by (subst partition_loop.simps) (rule if_P)
    ultimately show ?thesis
      using "1.IH" [OF True "1.prems"(1)] i i1 by (simp only:) simp
  qed
qed

lemma node_partition_idx_eq:
  assumes "node_wf p ts"
  shows "unat (node_partition_idx p) \<le> node_count p"
    "j < unat (node_partition_idx p) \<Longrightarrow> bytes_before p j < 1992"
    "unat (node_partition_idx p) < node_count p \<Longrightarrow> 1992 \<le> bytes_before p (unat (node_partition_idx p))"
  using partition_loop_eq [OF assms, of 0 0] by (simp_all add: node_partition_idx_def bytes_before_def)

text \<open>Split at the end of the node: the new node stays empty and the last \<open>ASSERT\<close>s fail.\<close>

lemma leaf_node_split_at_end:
  assumes "node_size q = 0"
  shows "leaf_node_split p q (node_size p) = Inl AssertFail"
proof (cases "0 < node_size p")
  case True
  then show ?thesis
    using assms by (simp add: leaf_node_split_def Let_def leaf_split_loop.simps [of p q])
qed (simp add: leaf_node_split_def)

end
