(* ===== verification/Leaf.thy ===== *)
theory Leaf
  imports Node_Split
begin

text \<open>
  A leaf as an ordered store: what \<open>node_insert_nonfull\<close>, \<open>node_get_cell\<close> with
  \<open>node_cell_pointers\<close> and \<open>node_delete_key\<close> of src/tree/node.c do to the finite map
  that the leaf stands for, under the space conditions that make them right.
\<close>

section \<open>Space for a new cell\<close>

text \<open>
  The place is fresh when the gap below \<open>cell_offset\<close> holds the cell, and sound when it
  holds a cell pointer besides.
\<close>

definition fresh_room :: "page \<Rightarrow> nat \<Rightarrow> bool" where
  "fresh_room p content \<longleftrightarrow>
     60 + 4 * node_count p + cell_space content \<le> unat (node_cell_offset p)"

lemma fresh_room_offset:
  assumes lay: "node_layout p is ts" and room: "fresh_room p (unat ks + unat vs)"
  shows "\<not> node_free_space p < new_cell_size ks vs"
    "node_get_free_offset p ks vs = (node_cell_offset p - new_cell_size ks vs, p)"
    "unat (node_cell_offset p - new_cell_size ks vs) =
       unat (node_cell_offset p) - cell_space (unat ks + unat vs)"
    "unat ks + unat vs < 2 ^ 31"
proof -
  let ?s = "unat ks + unat vs"
  have top: "unat (node_cell_offset p) \<le> 4096" using node_layoutD(2) [OF lay] by simp
  show small: "?s < 2 ^ 31"
    using room top cell_space_bounds(1) [of ?s] by (simp add: fresh_room_def)
  note need = unat_new_cell_size [OF small]
  show nb: "\<not> node_free_space p < new_cell_size ks vs"
    using room by (simp add: fresh_room_def word_less_nat_alt unat_node_free_space [OF lay] need)
  then show "node_get_free_offset p ks vs = (node_cell_offset p - new_cell_size ks vs, p)"
    by (simp add: node_get_free_offset_def Let_def)
  show "unat (node_cell_offset p - new_cell_size ks vs) = unat (node_cell_offset p) - cell_space ?s"
    using room by (simp add: fresh_room_def unat_simps need)
qed

section \<open>Reusing a tombstone\<close>

text \<open>
  When the gap is too small and the first tombstone holds the cell, the tombstone is taken off
  the chain, and its rest put back when more than 16 bytes remain.
\<close>

lemma node_layout_bytes:
  assumes lay: "node_layout p is ts" and bytes: "\<forall>a. (a < 40 \<or> 48 \<le> a) \<and> a \<notin> W \<longrightarrow> q a = p a"
    and live: "\<forall>i \<in> set is. \<forall>a. cell_at p i \<le> a \<and> a < cell_at p i + cell_len p (cell_at p i) \<longrightarrow> a \<notin> W"
    and head: "\<forall>a < 56 + 4 * node_count p. a \<notin> W"
  shows "node_count q = node_count p" "node_cell_offset q = node_cell_offset p" "node_flags q = node_flags p"
    "i < node_count p \<Longrightarrow> cell_at q i = cell_at p i"
    "i \<in> set is \<Longrightarrow> same_cell p q (cell_at p i)"
    "map (live_block q) is = map (live_block p) is"
proof -
  show "node_count q = node_count p" "node_cell_offset q = node_cell_offset p" "node_flags q = node_flags p"
    unfolding node_count_def node_get_defs
    by (intro arg_cong [where f = unat] rd_cong bytes [rule_format]; simp add: head)+
  show at: "cell_at q i = cell_at p i" if "i < node_count p" for i
    using that by (intro cell_at_cong bytes [rule_format]) (simp_all add: head)
  show sc: "same_cell p q (cell_at p i)" if "i \<in> set is" for i
    using node_layout_live(3) [OF lay that] live that by (intro same_cellI bytes [rule_format]) auto
  show "map (live_block q) is = map (live_block p) is"
    using node_layoutD(4) [OF lay] by (auto intro!: live_block_cong sc at)
qed

lemma node_layout_blocks:
  assumes "node_layout p is ts"
  shows "list_all (in_range (unat (node_cell_offset p))) (node_blocks p is ts)"
    "sorted_wrt blk_disj (node_blocks p is ts)"
  using assms by (simp_all add: node_layout_def)

lemma node_layout_retomb:
  assumes lay: "node_layout p is (t # ts)"
    and blocks: "map (live_block q) is = map (live_block p) is"
      "map (tomb_block q) us = map (tomb_block p) us" "us = ts"
    and hdr: "node_count q = node_count p" "node_cell_offset q = node_cell_offset p"
    and chain: "tomb_chain q (node_tombstone_offset q) (vs @ us)"
    and sub: "\<forall>v \<in> set vs. fst (tomb_block p t) \<le> fst (tomb_block q v) \<and>
       fst (tomb_block q v) + snd (tomb_block q v) \<le> fst (tomb_block p t) + snd (tomb_block p t)"
      "length vs \<le> 1"
  shows "node_layout q is (vs @ us)"
proof -
  have b: "node_blocks q is (vs @ us) = map (live_block p) is @ map (tomb_block q) vs @ map (tomb_block p) ts"
    using blocks by (simp add: node_blocks_def)
  have old: "node_blocks p is (t # ts) = map (live_block p) is @ tomb_block p t # map (tomb_block p) ts"
    by (simp add: node_blocks_def)
  consider "vs = []" | v where "vs = [v]" using sub(2) by (cases vs) auto
  then show ?thesis
  proof cases
    case 1
    then show ?thesis using lay chain unfolding node_layout_def hdr b old by (auto simp: sorted_wrt_append)
  next
    case 2
    have d: "\<forall>x. blk_disj x (tomb_block p t) \<longrightarrow> blk_disj x (tomb_block q v)"
      "\<forall>x. blk_disj (tomb_block p t) x \<longrightarrow> blk_disj (tomb_block q v) x"
      using sub(1) 2 unfolding blk_disj_def by auto
    note d = d [rule_format]
    have r: "\<forall>lo. in_range lo (tomb_block p t) \<longrightarrow> in_range lo (tomb_block q v)"
      using sub(1) 2 by (auto simp: in_range_def)
    have "list_all (in_range (unat (node_cell_offset p))) (node_blocks q is (vs @ us))"
      using node_layout_blocks(1) [OF lay] r unfolding b [unfolded 2] old 2 by simp
    moreover have "sorted_wrt blk_disj (node_blocks q is (vs @ us))"
      using node_layout_blocks(2) [OF lay] unfolding b [unfolded 2] old 2 sorted_wrt_append
      by (simp add: d)
    ultimately show ?thesis
      using lay chain unfolding node_layout_def hdr by simp
  qed
qed

lemma tombstone_offset_reuse:
  fixes ks vs :: u32
  assumes lay: "node_layout p is (t # ts)" and small: "unat ks + unat vs < 2 ^ 31"
    and full: "node_free_space p < new_cell_size ks vs"
    and tomb: "new_cell_size ks vs \<le> cell_tombstone_size p t"
  shows "\<exists>off q us. node_get_free_offset p ks vs = (off, q) \<and> unat off = t \<and> node_layout q is us \<and>
     node_count q = node_count p \<and> node_cell_offset q = node_cell_offset p \<and>
     (\<forall>i < node_count p. cell_at q i = cell_at p i) \<and> (\<forall>i \<in> set is. same_cell p q (cell_at p i))"
proof -
  let ?need = "new_cell_size ks vs" and ?off = "node_tombstone_offset p"
  let ?diff = "cell_tombstone_size p t - ?need" and ?m = "unat (new_cell_size ks vs)"
  have need: "16 \<le> ?m" using cell_space_bounds(1) [of "unat ks + unat vs"] by (simp add: unat_new_cell_size [OF small])
  have le: "?m \<le> unat (cell_tombstone_size p t)" using tomb by (simp add: word_le_nat_alt)
  note tm = node_layout_tomb [OF lay, of t, simplified]
  have blk: "tomb_block p t = (t, unat (cell_tombstone_size p t))" using need le by (simp add: tomb_block_def)
  have off: "?off \<noteq> 0" "unat ?off = t" "tomb_chain p (cell_next_off p t) ts"
    using node_layoutD(3) [OF lay] by auto
  have al: "(ALIGN 16 4 :: u32) = 16" by (simp add: ALIGN_def ALIGN_MASK_def)
  define W :: "nat set" where "W = {t + ?m ..< t + unat (cell_tombstone_size p t)}"
  have live: "\<forall>i \<in> set is. \<forall>a. cell_at p i \<le> a \<and> a < cell_at p i + cell_len p (cell_at p i) \<longrightarrow> a \<notin> W"
    using node_layout_live_tomb [OF lay, of _ t] unfolding blk by (fastforce simp: W_def blk_disj_def live_block_def)
  have head: "\<forall>a < 56 + 4 * node_count p. a \<notin> W"
    using node_layoutD(1) [OF lay] tm(1) by (simp add: W_def)
  have tdisj: "blk_disj (t, unat (cell_tombstone_size p t)) (tomb_block p u)" if "u \<in> set ts" for u
    using node_layout_blocks(2) [OF lay] that unfolding node_blocks_def by (simp add: sorted_wrt_append blk)
  let ?wrap = "\<lambda>q x. set_tombstone_bytes (set_tombstone_offset q x) (node_tombstone_bytes (set_tombstone_offset q x) - ?need)"
  let ?new = "t + ?m"
  let ?q1 = "set_cell_tombstone_size p ?new (ucast (ucast ?diff - 16 :: u64))"
  let ?q2 = "set_cell_next_off ?q1 ?new (cell_next_off ?q1 t)"
  have d: "unat ?diff = unat (cell_tombstone_size p t) - ?m" using le by (simp add: unat_simps)
  define q where "q = (if ?diff > 16 then ?wrap ?q2 (offset_from_cell ?q2 ?new) else ?wrap p (cell_next_off p t))"
  define vs' where "vs' = (if ?diff > 16 then [?new] else [])"
  have run: "node_get_free_offset p ks vs = (?off, q)"
    using full off tomb unfolding node_get_free_offset_def Let_def q_def al
    by (simp add: node_cell_from_offset_def)
  have W16: "16 \<le> unat (cell_tombstone_size p t) - ?m" if "?diff > 16"
    using that d by (simp add: word_less_nat_alt)
  have bytes: "q a = p a" if "a < 40 \<or> 48 \<le> a" "a \<notin> W" for a
  proof (cases "?diff > 16")
    case True
    then have "a < ?new \<or> ?new + 8 \<le> a" using that(2) W16 by (auto simp: W_def)
    with True that(1) show ?thesis by (auto simp: q_def node_set_defs cell_set_defs)
  next
    case False
    with that(1) show ?thesis by (auto simp: q_def node_set_defs)
  qed
  then have "\<forall>a. (a < 40 \<or> 48 \<le> a) \<and> a \<notin> W \<longrightarrow> q a = p a" by blast
  note same = node_layout_bytes [OF lay this live head]
  have w: "cell_tombstone_size q u = cell_tombstone_size p u" "cell_next_off q u = cell_next_off p u"
    if "u \<in> set ts" for u
  proof -
    have "q a = p a" if "u \<le> a" "a < u + 8" for a
      using tdisj [OF \<open>u \<in> set ts\<close>] node_layout_tomb(3) [OF lay, of u] \<open>u \<in> set ts\<close> that
      by (intro bytes) (auto simp: W_def blk_disj_def tomb_block_def)
    then show "cell_tombstone_size q u = cell_tombstone_size p u" "cell_next_off q u = cell_next_off p u"
      unfolding cell_get_defs by (intro rd_cong; simp)+
  qed
  have chain: "tomb_chain q x ts = tomb_chain p x ts" for x using w by (simp add: tomb_chain_cong [of ts q p])
  have "node_layout q is (vs' @ ts)"
  proof (rule node_layout_retomb [OF lay same(6) _ refl same(1,2)])
    show "map (tomb_block q) ts = map (tomb_block p) ts" using w by (simp add: tomb_block_def)
    show "length vs' \<le> 1" by (simp add: vs'_def)
    have facts: "unat (offset_from_cell ?q2 ?new) = ?new" "offset_from_cell ?q2 ?new \<noteq> 0"
        "node_tombstone_offset q = offset_from_cell ?q2 ?new" "cell_next_off q ?new = cell_next_off p t"
        "unat (cell_tombstone_size q ?new) = unat ?diff - 16" if D: "?diff > 16"
    proof -
      have "?new < 2 ^ 32" using le tm(2) by simp
      then show u: "unat (offset_from_cell ?q2 ?new) = ?new" by (simp add: offset_from_cell_def unat_simps)
      then show "offset_from_cell ?q2 ?new \<noteq> 0" using tm(3) by (metis unsigned_0 add_is_0 not_numeral_le_zero)
      show "node_tombstone_offset q = offset_from_cell ?q2 ?new"
        using D by (simp add: q_def node_get_defs node_set_defs)
      show "cell_next_off q ?new = cell_next_off p t"
        using D tm(3) need by (simp add: q_def cell_get_defs cell_set_defs node_set_defs)
      have "cell_tombstone_size q ?new = ?diff - 16"
        using D tm(3) need by (simp add: q_def cell_get_defs cell_set_defs node_set_defs)
      then show "unat (cell_tombstone_size q ?new) = unat ?diff - 16"
        using D by (simp add: unat_simps word_less_nat_alt)
    qed
    show "tomb_chain q (node_tombstone_offset q) (vs' @ ts)"
    proof (cases "?diff > 16")
      case True
      then show ?thesis using facts off(3) chain by (simp add: vs'_def)
    next
      case False
      then have "node_tombstone_offset q = cell_next_off p t" by (simp add: q_def node_get_defs node_set_defs)
      with False show ?thesis using off(3) chain by (simp add: vs'_def)
    qed
    show "\<forall>v \<in> set vs'. fst (tomb_block p t) \<le> fst (tomb_block q v) \<and>
       fst (tomb_block q v) + snd (tomb_block q v) \<le> fst (tomb_block p t) + snd (tomb_block p t)"
    proof (cases "?diff > 16")
      case True
      then have "tomb_block q ?new = (?new, max 16 (unat (cell_tombstone_size p t) - ?m - 16))"
        using facts(5) d by (simp add: tomb_block_def)
      then show ?thesis using True W16 le unfolding blk vs'_def by simp
    qed (simp add: vs'_def)
  qed
  then show ?thesis using run off(2) same by blast
qed

section \<open>The three operations on the entries\<close>

lemma insert_nonfull_entries:
  fixes idx :: u32
  assumes inv: "leaf_inv p ts" and arg: "length key = unat ks" "length val = unat vs"
    and room: "fresh_room p (unat ks + unat vs)"
    and new: "DBKey key \<notin> set (node_keys p)" and idx: "unat idx = lower_bound (node_keys p) (DBKey key)"
  defines "q \<equiv> node_insert_nonfull p idx key ks val vs"
  shows "leaf_inv q ts" "leaf_entries q = insert_at (unat idx) (key, val) (leaf_entries p)"
    "node_flags q = node_flags p" "node_parent_pid q = node_parent_pid p"
    "node_rightmost_pid q = node_rightmost_pid p"
    "unat (node_cell_offset q) = unat (node_cell_offset p) - cell_space (unat ks + unat vs)"
    "\<And>a. unat (node_cell_offset p) \<le> a \<Longrightarrow> q a = p a"
    "\<And>i. i < unat idx \<Longrightarrow> cell_at q i = cell_at p i"
    "cell_at q (unat idx) = unat (node_cell_offset p) - cell_space (unat ks + unat vs)"
    "\<And>i. unat idx \<le> i \<Longrightarrow> i < node_count p \<Longrightarrow> cell_at q (Suc i) = cell_at p i"
proof -
  let ?off = "node_cell_offset p - new_cell_size ks vs" and ?s = "unat ks + unat vs"
  have wf: "node_wf p ts" "cells_ok leaf_cell_ok p" and asc: "sorted_wrt (<) (node_keys p)"
    and leaf: "node_is_leaf p"
    using inv by (simp_all add: leaf_inv_def)
  note sp = fresh_room_offset [OF wf(1) [unfolded node_wf_def] room]
  have i: "unat idx \<le> node_count p" using idx lower_bound_le [of "node_keys p" "DBKey key"] by simp
  have r1: "60 + 4 * node_count p \<le> unat ?off" "unat ?off + (16 + unat ks + unat vs) \<le> unat (node_cell_offset p)"
    using room cell_space_bounds(1) [of ?s] unfolding sp(3) fresh_room_def by linarith+
  have q: "q = node_insert_leaf_cell p ?off idx key ks val vs"
    by (simp add: q_def node_insert_nonfull_def sp(2))
  note ins = insert_leaf_cell [OF wf i arg sp(4) r1, folded q]
  show e: "leaf_entries q = insert_at (unat idx) (key, val) (leaf_entries p)" by (rule ins(3))
  show fl: "node_flags q = node_flags p" "node_parent_pid q = node_parent_pid p"
    "node_rightmost_pid q = node_rightmost_pid p"
    by (fact ins)+
  show "unat (node_cell_offset q) = unat (node_cell_offset p) - cell_space ?s"
    unfolding ins(6) by (rule sp(3))
  show "\<And>a. unat (node_cell_offset p) \<le> a \<Longrightarrow> q a = p a" by (rule ins(11))
  show "\<And>i. i < unat idx \<Longrightarrow> cell_at q i = cell_at p i"
    "\<And>i. unat idx \<le> i \<Longrightarrow> i < node_count p \<Longrightarrow> cell_at q (Suc i) = cell_at p i"
    by (rule ins(12,14); assumption)+
  show "cell_at q (unat idx) = unat (node_cell_offset p) - cell_space ?s"
    unfolding ins(13) by (rule sp(3))
  have "node_keys q = insert_at (lower_bound (node_keys p) (DBKey key)) (DBKey key) (node_keys p)"
    unfolding node_keys_leaf [of q] e map_insert_at idx by (simp add: node_keys_leaf)
  then have "sorted_wrt (<) (node_keys q)" using sorted_insert_lower_bound [OF asc new] by simp
  then show "leaf_inv q ts"
    using ins(1,2) leaf node_is_leaf_cong [OF fl(1)] by (simp add: leaf_inv_def)
qed

lemma leaf_delete_at:
  assumes inv: "leaf_inv p ts" and kn: "unat idx < node_count p"
  shows "leaf_inv (delete_at_idx p idx) (cell_at p (unat idx) # ts)"
    "leaf_entries (delete_at_idx p idx) = delete_at (unat idx) (leaf_entries p)"
proof -
  have wf: "node_wf p ts" "cells_ok leaf_cell_ok p" and asc: "sorted_wrt (<) (node_keys p)"
    and leaf: "node_is_leaf p"
    using inv by (simp_all add: leaf_inv_def)
  let ?q = "delete_at_idx p idx"
  note st = delete_steps [OF wf(1) kn] and v = leaf_view.delete_view [OF wf kn]
  show e: "leaf_entries ?q = delete_at (unat idx) (leaf_entries p)"
    unfolding leaf_entries_def by (rule v(2))
  have "node_keys ?q = delete_at (unat idx) (node_keys p)" by (simp only: node_keys_leaf e map_delete_at)
  then have "sorted_wrt (<) (node_keys ?q)" using sorted_wrt_delete_at [OF asc] by simp
  then show "leaf_inv ?q (cell_at p (unat idx) # ts)"
    using st(1) v(1) leaf node_is_leaf_cong [OF st(3)] by (simp add: leaf_inv_def)
qed

lemma delete_key_run:
  assumes inv: "leaf_inv p ts" and arg: "key_arg key ks" and mem: "DBKey key \<in> set (node_keys p)"
  defines "k \<equiv> lower_bound (node_keys p) (DBKey key)"
  shows "node_delete_key p key ks = Inr (0, delete_at_idx p (of_nat k))"
    "k < node_count p" "unat (of_nat k :: u32) = k"
proof -
  note s = search_inv_leaf [OF inv]
  show "node_delete_key p key ks = Inr (0, delete_at_idx p (of_nat k))"
    using mem by (simp add: node_delete_key_def node_bin_search_eq [OF s arg] node_get_cell_eq [OF s arg] k_def)
  show "k < node_count p"
    using lower_bound_present [of "node_keys p" "DBKey key"] inv mem by (simp add: k_def leaf_inv_def)
  show "unat (of_nat k :: u32) = k" unfolding k_def by (rule unat_lower_bound [OF s])
qed

lemma delete_key_entries:
  assumes inv: "leaf_inv p ts" and arg: "key_arg key ks" and mem: "DBKey key \<in> set (node_keys p)"
  defines "k \<equiv> lower_bound (node_keys p) (DBKey key)"
  shows "\<exists>q. node_delete_key p key ks = Inr (0, q) \<and> leaf_inv q (cell_at p k # ts) \<and>
     leaf_entries q = delete_at k (leaf_entries p) \<and> node_flags q = node_flags p \<and>
     node_cell_offset q = node_cell_offset p \<and> (\<forall>a \<ge> NODE_SIZE. q a = p a)"
proof -
  note run = delete_key_run [OF inv arg mem, folded k_def]
  have wf: "node_wf p ts" using inv by (simp add: leaf_inv_def)
  note d = leaf_delete_at [OF inv, of "of_nat k", unfolded run(3), OF run(2)]
  note st = delete_steps(3,4,10) [OF wf, of "of_nat k", unfolded run(3), OF run(2)]
  show ?thesis using run(1) d st by blast
qed

lemma delete_key_missing:
  assumes "search_inv p" "key_arg key ks" "DBKey key \<notin> set (node_keys p)"
  shows "node_delete_key p key ks = Inr (1, p)"
  using assms by (simp add: node_delete_key_def node_bin_search_eq)

text \<open>
  The same insertion into a reused tombstone: the pointers come out right, and
  \<open>cell_offset\<close> is set to the tombstone's offset.
\<close>

lemma insert_nonfull_reuse:
  fixes idx :: u32
  assumes wf: "node_wf p (t # ts)" and arg: "length key = unat ks" "length val = unat vs" "unat ks + unat vs < 2 ^ 31"
    and full: "node_free_space p < new_cell_size ks vs" "new_cell_size ks vs \<le> cell_tombstone_size p t"
    and slot: "60 + 4 * node_count p \<le> unat (node_cell_offset p)" and idx: "unat idx \<le> node_count p"
  defines "q \<equiv> node_insert_nonfull p idx key ks val vs"
  shows "node_count q = Suc (node_count p)" "unat (node_cell_offset q) = t"
    "i < node_count p \<Longrightarrow> \<exists>j < node_count q. cell_at q j = cell_at p i"
proof -
  let ?n = "node_count p"
  obtain off p1 us where p1: "node_get_free_offset p ks vs = (off, p1)" "unat off = t" "node_layout p1 [0..<?n] us"
    "node_count p1 = ?n" "node_cell_offset p1 = node_cell_offset p" "\<forall>i < ?n. cell_at p1 i = cell_at p i"
    using tombstone_offset_reuse [OF wf [unfolded node_wf_def] arg(3) full] by blast
  have wf1: "node_wf p1 us" using p1(3,4) by (simp add: node_wf_def)
  have i1: "unat idx \<le> node_count p1" using idx p1(4) by simp
  have t: "60 + 4 * node_count p1 \<le> unat off"
    using slot node_layout_tomb(1) [OF wf [unfolded node_wf_def], of t] p1(2,4) by simp
  let ?g = "insert_cell_ptr p1 off idx"
  let ?r = "node_write_leaf_cell ?g (node_get_cell_ptr ?g idx) key ks val vs 0"
  have n: "node_count p1 < 2 ^ 31" using node_count_bound [OF p1(3)] by simp
  have c: "unat off = node_cell_from_ptr ?g (node_get_cell_ptr ?g idx)"
    by (simp add: cell_from_ptr_at insert_cell_ptr(2) [OF i1 n])
  note w = write_leaf_cell [OF c arg, where fl = 0]
  have out: "\<forall>a. a < unat off \<or> unat off + (16 + unat ks + unat vs) \<le> a \<longrightarrow> ?r a = ?g a"
    by (intro allI impI w(1)) (simp add: ac_simps)
  have q: "q = set_size (set_cell_offset ?r off) (node_size ?r + 1)"
    by (simp add: q_def node_insert_nonfull_def p1(1) node_insert_leaf_cell_def Let_def node_set_defs
        node_get_defs node_get_cell_ptr_def node_cells_def)
  note st = insert_steps [OF wf1 i1 t out, folded q]
  show "node_count q = Suc ?n" using st(4) p1(4) by simp
  show "unat (node_cell_offset q) = t" using st(5) p1(2) by simp
  show "\<exists>j < node_count q. cell_at q j = cell_at p i" if "i < ?n"
  proof (cases "i < unat idx")
    case True
    then show ?thesis using st(1,4) p1(4,6) that by (intro exI [of _ i]) simp
  next
    case False
    then show ?thesis using st(3,4) p1(4,6) that by (intro exI [of _ "Suc i"]) simp
  qed
qed

section \<open>A gap that is exactly full\<close>

text \<open>
  Neither \<open>node_is_full\<close> nor \<open>node_get_free_offset\<close> counts the four bytes of the new cell
  pointer.  When the gap is exactly the size of the cell, the cell begins where the last pointer
  lies, and its first word, the \<open>flags\<close>, is what the last pointer reads afterwards.
\<close>

lemma write_leaf_cell_flags:
  assumes "c = node_cell_from_ptr p ptr" "length key = unat ks" "length val = unat vs"
  shows "cell_flags (node_write_leaf_cell p ptr key ks val vs fl) c = ucast fl"
  using assms(2,3) unfolding node_write_leaf_cell_def Let_def assms(1) [symmetric]
  by (simp add: cell_set_defs cell_get_defs leaf_cell_get_value_def cell_get_key_def)

lemma insert_nonfull_no_slot:
  fixes idx :: u32
  assumes wf: "node_wf p ts" and arg: "length key = unat ks" "length val = unat vs" "unat ks + unat vs < 2 ^ 31"
    and exact: "node_free_space p = new_cell_size ks vs" and idx: "unat idx \<le> node_count p"
  defines "q \<equiv> node_insert_nonfull p idx key ks val vs"
  shows "node_is_full p ks vs = Some False" "node_count q = Suc (node_count p)"
    "cell_at q (node_count p) = 0" "\<not> node_wf q us"
proof -
  let ?n = "node_count p" and ?off = "node_cell_offset p - new_cell_size ks vs"
  have lay: "node_layout p [0..<?n] ts" using wf by (simp add: node_wf_def)
  note fs = unat_node_free_space [OF lay]
  show "node_is_full p ks vs = Some False" by (simp add: node_is_full_def exact)
  have "unat ?off = unat (node_cell_offset p) - unat (node_free_space p)"
    using fs by (simp add: exact [symmetric] unat_simps)
  then have off: "unat ?off = 56 + 4 * ?n" using fs node_layoutD(1) [OF lay] by simp
  have n31: "?n < 2 ^ 31" using node_count_bound [OF lay] by simp
  let ?g = "insert_cell_ptr p ?off idx"
  let ?r = "node_write_leaf_cell ?g (node_get_cell_ptr ?g idx) key ks val vs 0"
  note gap = insert_cell_ptr [OF idx n31, where off = ?off]
  have c: "unat ?off = node_cell_from_ptr ?g (node_get_cell_ptr ?g idx)"
    by (simp add: cell_from_ptr_at gap(2))
  note w = write_leaf_cell [OF c arg, where fl = 0]
  have q: "q = set_size (set_cell_offset ?r ?off) (node_size ?r + 1)"
    using exact by (simp add: q_def node_insert_nonfull_def node_get_free_offset_def Let_def
        node_insert_leaf_cell_def node_set_defs node_get_defs node_get_cell_ptr_def node_cells_def)
  have hi: "q a = ?r a" if "56 \<le> a" for a using that by (simp add: q node_set_defs)
  have "cell_at q ?n = unat (cell_flags ?r (unat ?off))"
    unfolding cell_at_def cell_flags_def off by (intro arg_cong [where f = unat] rd_cong hi) simp
  then show at: "cell_at q ?n = 0" using write_leaf_cell_flags [OF c arg(1,2), of 0] by simp
  have size: "node_size ?r = node_size p"
    unfolding node_size_def
  proof (intro rd_cong)
    fix a :: nat assume "32 \<le> a" "a < 32 + 4"
    then show "?r a = p a" using w(1) [of a] gap(4) [of a] off by simp
  qed
  have "node_size q = node_size p + 1" by (simp add: q node_set_defs node_get_defs size [unfolded node_get_defs])
  then show cnt: "node_count q = Suc ?n" using n31 by (simp add: node_count_def unat_simps)
  show "\<not> node_wf q us"
  proof
    assume "node_wf q us"
    then have "56 \<le> cell_at q ?n"
      unfolding node_wf_def by (rule node_layout_live(3)) (simp add: cnt)
    with at show False by simp
  qed
qed

section \<open>The finite map of a leaf\<close>

definition leaf_map :: "page \<Rightarrow> u8 list \<Rightarrow> u8 list option" where
  "leaf_map p = map_of (leaf_entries p)"

lemma map_of_insert_at:
  assumes "k \<notin> fst ` set xs"
  shows "map_of (insert_at i (k, v) xs) = (map_of xs)(k \<mapsto> v)"
proof -
  have "k \<notin> fst ` set (take i xs)" using assms in_set_takeD [of _ i xs] by blast
  then have "map_of (take i xs) k = None" by (simp add: map_of_eq_None_iff)
  moreover have "map_of xs = map_of (drop i xs) ++ map_of (take i xs)"
    by (simp flip: map_of_append)
  ultimately show ?thesis by (auto simp: insert_at_def map_add_def split: option.splits)
qed

lemma leaf_count: "leaf_entries p = xs \<Longrightarrow> node_count p = length xs"
  by auto

lemma insert_delete_at: "i < length xs \<Longrightarrow> insert_at i (xs ! i) (delete_at i xs) = xs"
  by (simp add: insert_at_def delete_at_def min_def Cons_nth_drop_Suc)

lemma map_of_delete_at:
  assumes "distinct (map fst xs)" "i < length xs"
  shows "map_of (delete_at i xs) = (map_of xs)(fst (xs ! i) := None)"
proof -
  let ?ys = "delete_at i xs" and ?k = "fst (xs ! i)"
  have "distinct (map fst (take i xs @ xs ! i # drop (Suc i) xs))"
    using assms by (simp add: id_take_nth_drop [symmetric])
  then have new: "?k \<notin> fst ` set ?ys" by (auto simp: delete_at_def)
  have "map_of xs = (map_of ?ys)(?k \<mapsto> snd (xs ! i))"
    using map_of_insert_at [OF new, of i "snd (xs ! i)"] insert_delete_at [OF assms(2)] by simp
  moreover have "map_of ?ys ?k = None" using new by (simp add: map_of_eq_None_iff)
  ultimately show ?thesis by auto
qed

lemma distinct_keys:
  assumes "sorted_wrt (<) (map (DBKey \<circ> fst) xs)"
  shows "distinct (map fst xs)"
proof -
  have "distinct (map DBKey (map fst xs))" using assms by (simp add: strict_sorted_iff)
  then show ?thesis by (rule distinct_map [THEN iffD1, THEN conjunct1])
qed

lemma node_keys_mem: "DBKey k \<in> set (node_keys p) \<longleftrightarrow> k \<in> dom (leaf_map p)"
  by (auto simp: node_keys_leaf leaf_map_def dom_map_of_conv_image_fst)

lemma leaf_entry_found:
  assumes inv: "leaf_inv p ts" and mem: "DBKey key \<in> set (node_keys p)"
  defines "k \<equiv> lower_bound (node_keys p) (DBKey key)"
  shows "k < node_count p" "cell_key p (cell_at p k) = key"
    "leaf_map p key = Some (leaf_cell_value p (cell_at p k))"
proof -
  have asc: "sorted_wrt (<) (node_keys p)" using inv by (simp add: leaf_inv_def)
  note k = lower_bound_present [OF asc mem, folded k_def]
  show kn: "k < node_count p" using k by simp
  show key: "cell_key p (cell_at p k) = key" using k kn by (simp add: node_keys_nth)
  have "(key, leaf_cell_value p (cell_at p k)) = leaf_entries p ! k"
    using key kn by (simp add: leaf_entries_def leaf_entry_def)
  then have "(key, leaf_cell_value p (cell_at p k)) \<in> set (leaf_entries p)" using kn by simp
  then show "leaf_map p key = Some (leaf_cell_value p (cell_at p k))"
    using distinct_keys [of "leaf_entries p"] asc by (simp add: leaf_map_def node_keys_leaf)
qed

section \<open>The store interface\<close>

text \<open>
  What a client of a leaf relies on: a search that reads the content, an insertion of an
  absent key that is total when the entry fits, and a removal.  \<open>content\<close> is the finite map
  of the state.
\<close>

datatype ('k, 'v) store_op = Put 'k 'v | Remove 'k

locale kv_store =
  fixes inv :: "'s \<Rightarrow> bool"
    and content :: "'s \<Rightarrow> 'k \<Rightarrow> 'v option"
    and key_ok :: "'k \<Rightarrow> bool"
    and fits :: "'s \<Rightarrow> 'k \<Rightarrow> 'v \<Rightarrow> bool"
    and find :: "'s \<Rightarrow> 'k \<Rightarrow> 'v option res"
    and put :: "'s \<Rightarrow> 'k \<Rightarrow> 'v \<Rightarrow> 's res"
    and remove :: "'s \<Rightarrow> 'k \<Rightarrow> (bool \<times> 's) res"
  assumes find_law: "inv s \<Longrightarrow> key_ok k \<Longrightarrow> find s k = Inr (content s k)"
    and put_law: "inv s \<Longrightarrow> key_ok k \<Longrightarrow> content s k = None \<Longrightarrow> fits s k v \<Longrightarrow>
          \<exists>s'. put s k v = Inr s' \<and> inv s' \<and> content s' = (content s)(k \<mapsto> v)"
    and remove_law: "inv s \<Longrightarrow> key_ok k \<Longrightarrow>
          \<exists>s'. remove s k = Inr (content s k \<noteq> None, s') \<and> inv s' \<and> content s' = (content s)(k := None)"
begin

lemma find_after_put:
  assumes "inv s" "key_ok k" "content s k = None" "fits s k v" "put s k v = Inr s'" "key_ok k'"
  shows "find s' k' = Inr (if k' = k then Some v else content s k')"
  using put_law [OF assms(1-4)] assms(5,6) find_law by fastforce

lemma find_after_remove:
  assumes "inv s" "key_ok k" "remove s k = Inr (b, s')" "key_ok k'"
  shows "find s' k' = Inr (if k' = k then None else content s k') \<and> b = (content s k \<noteq> None)"
  using remove_law [OF assms(1,2)] assms(3,4) find_law by fastforce

lemma put_remove:
  assumes "inv s" "key_ok k" "content s k = None" "fits s k v"
  shows "\<exists>s' s''. put s k v = Inr s' \<and> remove s' k = Inr (True, s'') \<and> inv s'' \<and> content s'' = content s"
proof -
  obtain s' where s': "put s k v = Inr s'" "inv s'" "content s' = (content s)(k \<mapsto> v)"
    using put_law [OF assms] by blast
  obtain s'' where "remove s' k = Inr (True, s'')" "inv s''" "content s'' = (content s')(k := None)"
    using remove_law [OF s'(2) assms(2)] s'(3) by auto
  then show ?thesis using s' assms(3) by (auto simp: fun_upd_idem)
qed

end

text \<open>Running a sequence of operations, and the same sequence on the finite map.\<close>

fun store_step :: "('s \<Rightarrow> 'k \<Rightarrow> 'v \<Rightarrow> 's res) \<Rightarrow> ('s \<Rightarrow> 'k \<Rightarrow> (bool \<times> 's) res) \<Rightarrow>
    's \<Rightarrow> ('k, 'v) store_op \<Rightarrow> 's res" where
  "store_step put remove s (Put k v) = put s k v"
| "store_step put remove s (Remove k) = bind_res (remove s k) (\<lambda>(_, s'). Inr s')"

fun store_run :: "('s \<Rightarrow> 'k \<Rightarrow> 'v \<Rightarrow> 's res) \<Rightarrow> ('s \<Rightarrow> 'k \<Rightarrow> (bool \<times> 's) res) \<Rightarrow>
    's \<Rightarrow> ('k, 'v) store_op list \<Rightarrow> 's res" where
  "store_run put remove s [] = Inr s"
| "store_run put remove s (c # cs) =
     bind_res (store_step put remove s c) (\<lambda>s'. store_run put remove s' cs)"

fun map_step :: "('k \<Rightarrow> 'v option) \<Rightarrow> ('k, 'v) store_op \<Rightarrow> 'k \<Rightarrow> 'v option" where
  "map_step m (Put k v) = m(k \<mapsto> v)"
| "map_step m (Remove k) = m(k := None)"

text \<open>Every insertion of the sequence is of an absent key and has room when its turn comes.\<close>

fun store_allowed :: "('s \<Rightarrow> 'k \<Rightarrow> 'v option) \<Rightarrow> ('k \<Rightarrow> bool) \<Rightarrow> ('s \<Rightarrow> 'k \<Rightarrow> 'v \<Rightarrow> bool) \<Rightarrow>
    ('s \<Rightarrow> 'k \<Rightarrow> 'v \<Rightarrow> 's res) \<Rightarrow> ('s \<Rightarrow> 'k \<Rightarrow> (bool \<times> 's) res) \<Rightarrow>
    's \<Rightarrow> ('k, 'v) store_op list \<Rightarrow> bool" where
  "store_allowed content key_ok fits put remove s [] = True"
| "store_allowed content key_ok fits put remove s (c # cs) \<longleftrightarrow>
     (case c of Put k v \<Rightarrow> key_ok k \<and> content s k = None \<and> fits s k v | Remove k \<Rightarrow> key_ok k) \<and>
     (case store_step put remove s c of
        Inr s' \<Rightarrow> store_allowed content key_ok fits put remove s' cs | Inl _ \<Rightarrow> True)"

context kv_store
begin

lemma run_refines:
  "inv s \<Longrightarrow> store_allowed content key_ok fits put remove s cs \<Longrightarrow>
     \<exists>s'. store_run put remove s cs = Inr s' \<and> inv s' \<and> content s' = foldl map_step (content s) cs"
proof (induction cs arbitrary: s)
  case Nil
  then show ?case by simp
next
  case (Cons c cs)
  have "\<exists>s1. store_step put remove s c = Inr s1 \<and> inv s1 \<and> content s1 = map_step (content s) c"
  proof (cases c)
    case (Put k v)
    then show ?thesis using put_law [of s k v] Cons.prems by simp
  next
    case (Remove k)
    then show ?thesis using remove_law [of s k] Cons.prems by fastforce
  qed
  then obtain s1 where s1: "store_step put remove s c = Inr s1" "inv s1" "content s1 = map_step (content s) c" by blast
  moreover have "store_allowed content key_ok fits put remove s1 cs" using Cons.prems(2) s1(1) by simp
  ultimately show ?case using Cons.IH [of s1] by simp
qed

end

section \<open>The leaf is such a store\<close>

text \<open>
  The calls a client makes, as the tests of the repository make them: search, then insert at
  the returned index; search, then read the entry behind the returned cell pointer.
\<close>

definition leaf_ok :: "page \<Rightarrow> bool" where
  "leaf_ok p \<longleftrightarrow> (\<exists>ts. leaf_inv p ts)"

definition leaf_key_ok :: "u8 list \<Rightarrow> bool" where
  "leaf_key_ok key \<longleftrightarrow> length key < 2 ^ 31"

definition leaf_fits :: "page \<Rightarrow> u8 list \<Rightarrow> u8 list \<Rightarrow> bool" where
  "leaf_fits p key val \<longleftrightarrow> fresh_room p (length key + length val)"

definition leaf_find :: "page \<Rightarrow> u8 list \<Rightarrow> u8 list option res" where
  "leaf_find p key =
     bind_res (node_get_cell p key (of_nat (length key))) (\<lambda>cell_ptr.
       Inr (map_option (\<lambda>c. let ptrs = node_cell_pointers p c
                           in rd_bytes p (the (ptr_value ptrs)) (unat (ptr_value_size ptrs))) cell_ptr))"

definition leaf_put :: "page \<Rightarrow> u8 list \<Rightarrow> u8 list \<Rightarrow> page res" where
  "leaf_put p key val =
     bind_res (loop_res (node_bin_search p key (of_nat (length key)))) (\<lambda>(_, idx).
       Inr (node_insert_nonfull p idx key (of_nat (length key)) val (of_nat (length val))))"

definition leaf_remove :: "page \<Rightarrow> u8 list \<Rightarrow> (bool \<times> page) res" where
  "leaf_remove p key = bind_res (node_delete_key p key (of_nat (length key))) (\<lambda>(ret, q). Inr (ret = 0, q))"

lemma leaf_key_arg: "leaf_key_ok key \<Longrightarrow> key_arg key (of_nat (length key))"
  by (simp add: leaf_key_ok_def key_arg_def unat_simps)

lemma leaf_find_eq:
  assumes "leaf_ok p" "leaf_key_ok key"
  shows "leaf_find p key = Inr (leaf_map p key)"
proof -
  obtain ts where inv: "leaf_inv p ts" using assms(1) by (auto simp: leaf_ok_def)
  note s = search_inv_leaf [OF inv] and arg = leaf_key_arg [OF assms(2)]
  show ?thesis
  proof (cases "DBKey key \<in> set (node_keys p)")
    case True
    have "(ucast (node_flags p) :: u32) AND BTREE_NODE_FLAGS_LEAF \<noteq> 0"
      using inv by (simp add: leaf_inv_def node_is_leaf_def)
    then show ?thesis
      using True leaf_entry_found(3) [OF inv True] unat_lower_bound [OF s, of "DBKey key"]
      by (simp add: leaf_find_def node_get_cell_eq [OF s arg] node_cell_pointers_def Let_def
          cell_from_ptr_at leaf_cell_value_def)
  next
    case False
    then have "leaf_map p key = None" by (auto simp: node_keys_mem)
    with False show ?thesis by (simp add: leaf_find_def node_get_cell_eq [OF s arg])
  qed
qed

lemma leaf_put_eq:
  assumes "leaf_ok p" "leaf_key_ok key" "leaf_map p key = None" "leaf_fits p key val"
  shows "\<exists>q. leaf_put p key val = Inr q \<and> leaf_ok q \<and> leaf_map q = (leaf_map p)(key \<mapsto> val)"
proof -
  obtain ts where inv: "leaf_inv p ts" using assms(1) by (auto simp: leaf_ok_def)
  note s = search_inv_leaf [OF inv] and arg = leaf_key_arg [OF assms(2)]
  have new: "DBKey key \<notin> set (node_keys p)" using assms(3) by (auto simp: node_keys_mem)
  have lay: "node_layout p [0..<node_count p] ts" using inv by (simp add: leaf_inv_def node_wf_def)
  have "length val < 2 ^ 32"
    using assms(4) node_layoutD(2) [OF lay] cell_space_bounds(1) [of "length key + length val"]
    by (simp add: leaf_fits_def fresh_room_def)
  then have len: "length key = unat (of_nat (length key) :: u32)" "length val = unat (of_nat (length val) :: u32)"
    using arg by (simp_all add: key_arg_def unat_simps)
  have room: "fresh_room p (unat (of_nat (length key) :: u32) + unat (of_nat (length val) :: u32))"
    using assms(4) len by (simp add: leaf_fits_def)
  note ins = insert_nonfull_entries [OF inv len room new unat_lower_bound [OF s]]
  have "key \<notin> fst ` set (leaf_entries p)"
    using assms(3) by (simp add: leaf_map_def map_of_eq_None_iff)
  then show ?thesis
    using ins(1,2) by (auto simp: leaf_put_def node_bin_search_eq [OF s arg] leaf_ok_def leaf_map_def map_of_insert_at)
qed

lemma leaf_remove_eq:
  assumes "leaf_ok p" "leaf_key_ok key"
  shows "\<exists>q. leaf_remove p key = Inr (leaf_map p key \<noteq> None, q) \<and> leaf_ok q \<and> leaf_map q = (leaf_map p)(key := None)"
proof -
  obtain ts where inv: "leaf_inv p ts" using assms(1) by (auto simp: leaf_ok_def)
  note s = search_inv_leaf [OF inv] and arg = leaf_key_arg [OF assms(2)]
  show ?thesis
  proof (cases "DBKey key \<in> set (node_keys p)")
    case True
    let ?k = "lower_bound (node_keys p) (DBKey key)"
    obtain q where q: "node_delete_key p key (of_nat (length key)) = Inr (0, q)" "leaf_ok q"
        "leaf_entries q = delete_at ?k (leaf_entries p)"
      using delete_key_entries [OF inv arg True] by (auto simp: leaf_ok_def)
    have "distinct (map fst (leaf_entries p))"
      using inv distinct_keys [of "leaf_entries p"] by (simp add: leaf_inv_def node_keys_leaf)
    moreover have "fst (leaf_entries p ! ?k) = key"
      using leaf_entry_found(1,2) [OF inv True] by (simp add: leaf_entries_def leaf_entry_def)
    ultimately have "leaf_map q = (leaf_map p)(key := None)"
      using q(3) leaf_entry_found(1) [OF inv True] by (simp add: leaf_map_def map_of_delete_at)
    then show ?thesis using q True leaf_entry_found(3) [OF inv True] by (simp add: leaf_remove_def)
  next
    case False
    then have "leaf_map p key = None" by (auto simp: node_keys_mem)
    moreover from this have "leaf_map p = (leaf_map p)(key := None)" by (simp add: fun_upd_idem)
    ultimately show ?thesis
      using delete_key_missing [OF s arg False] assms(1) by (simp add: leaf_remove_def)
  qed
qed

interpretation leaf: kv_store leaf_ok leaf_map leaf_key_ok leaf_fits leaf_find leaf_put leaf_remove
  by unfold_locales (fact leaf_find_eq leaf_put_eq leaf_remove_eq)+

end
