(* ===== verification/Samples.thy ===== *)
theory Samples
  imports Leaf
begin

text \<open>
  Concrete pages that the operations of the model build, on which the properties of the node
  layer are applied: three leaf cells of 1320 bytes that leave 68 free bytes, and the same leaf
  after deletions.
\<close>

definition sample_leaf :: page where "sample_leaf = node_init (\<lambda>_. 0) BTREE_NODE_FLAGS_LEAF"

definition sample_val :: "u8 list" where "sample_val = replicate 1300 7"

definition sample_leaf1 :: page where
  "sample_leaf1 = node_insert_nonfull sample_leaf 0 [1] 1 sample_val 1300"

definition sample_leaf2 :: page where
  "sample_leaf2 = node_insert_nonfull sample_leaf1 1 [2] 1 sample_val 1300"

definition sample_leaf3 :: page where
  "sample_leaf3 = node_insert_nonfull sample_leaf2 2 [3] 1 sample_val 1300"

lemma sample_val_len [simp]: "length sample_val = 1300"
  by (simp add: sample_val_def)

lemma sample_order [simp]:
  "DBKey [1] < DBKey [2]" "DBKey [1] < DBKey [3]" "DBKey [2] < DBKey [3]" "DBKey [0] < DBKey [1]"
  "\<not> DBKey [1] < DBKey [0]"
  by (simp_all add: less_dbkey_def less_eq_dbkey_def)

lemma sample_leaf_inv: "leaf_inv sample_leaf []"
  unfolding sample_leaf_def
  by (simp add: leaf_inv_def node_init_wf cells_ok_def node_is_leaf_def BTREE_NODE_FLAGS_LEAF_def
      node_keys_def node_view_def)

lemma sample_leaf_empty: "leaf_entries sample_leaf = []" "node_count sample_leaf = 0"
    "unat (node_cell_offset sample_leaf) = 4096"
  by (simp_all add: sample_leaf_def leaf_entries_def node_view_def)

lemma sample_leaf1:
  "leaf_inv sample_leaf1 []" "leaf_entries sample_leaf1 = [([1], sample_val)]"
  "unat (node_cell_offset sample_leaf1) = 2776" "cell_at sample_leaf1 0 = 2776" "node_count sample_leaf1 = 1"
proof -
  note e = sample_leaf_empty
  have k: "node_keys sample_leaf = []" by (simp add: node_keys_leaf e)
  have r: "fresh_room sample_leaf (unat (1::u32) + unat (1300::u32))"
    by (simp add: fresh_room_def e cell_space_def)
  note i = insert_nonfull_entries [OF sample_leaf_inv _ _ r, of "[1]" sample_val 0, folded sample_leaf1_def]
  show "leaf_inv sample_leaf1 []" "unat (node_cell_offset sample_leaf1) = 2776" "cell_at sample_leaf1 0 = 2776"
    and en: "leaf_entries sample_leaf1 = [([1], sample_val)]"
    using i(1,2,6,9) by (simp_all add: k lower_bound_def e cell_space_def insert_at_def)
  show "node_count sample_leaf1 = 1" using leaf_count [OF en] by simp
qed

lemma sample_leaf2:
  "leaf_inv sample_leaf2 []" "leaf_entries sample_leaf2 = [([1], sample_val), ([2], sample_val)]"
  "unat (node_cell_offset sample_leaf2) = 1456" "cell_at sample_leaf2 0 = 2776" "cell_at sample_leaf2 (Suc 0) = 1456"
  "node_count sample_leaf2 = 2"
proof -
  note e = sample_leaf1
  have k: "node_keys sample_leaf1 = [DBKey [1]]" by (simp add: node_keys_leaf e)
  have r: "fresh_room sample_leaf1 (unat (1::u32) + unat (1300::u32))"
    by (simp add: fresh_room_def e cell_space_def)
  note i = insert_nonfull_entries [OF e(1) _ _ r, of "[2]" sample_val 1, folded sample_leaf2_def]
  show "leaf_inv sample_leaf2 []" "unat (node_cell_offset sample_leaf2) = 1456" "cell_at sample_leaf2 0 = 2776"
      "cell_at sample_leaf2 (Suc 0) = 1456"
    and en: "leaf_entries sample_leaf2 = [([1], sample_val), ([2], sample_val)]"
    using i(1,2,6,8,9) by (simp_all add: k lower_bound_def e cell_space_def insert_at_def)
  show "node_count sample_leaf2 = 2" using leaf_count [OF en] by simp
qed

lemma sample_leaf3:
  "leaf_inv sample_leaf3 []"
  "leaf_entries sample_leaf3 = [([1], sample_val), ([2], sample_val), ([3], sample_val)]"
  "unat (node_cell_offset sample_leaf3) = 136"
  "cell_at sample_leaf3 0 = 2776" "cell_at sample_leaf3 (Suc 0) = 1456" "cell_at sample_leaf3 2 = 136"
  "node_count sample_leaf3 = 3" "node_keys sample_leaf3 = [DBKey [1], DBKey [2], DBKey [3]]"
proof -
  note e = sample_leaf2
  have k: "node_keys sample_leaf2 = [DBKey [1], DBKey [2]]" by (simp add: node_keys_leaf e)
  have r: "fresh_room sample_leaf2 (unat (1::u32) + unat (1300::u32))"
    by (simp add: fresh_room_def e cell_space_def)
  note i = insert_nonfull_entries [OF e(1) _ _ r, of "[3]" sample_val 2, folded sample_leaf3_def]
  show "leaf_inv sample_leaf3 []" "unat (node_cell_offset sample_leaf3) = 136" "cell_at sample_leaf3 0 = 2776"
      "cell_at sample_leaf3 (Suc 0) = 1456" "cell_at sample_leaf3 2 = 136"
    and en: "leaf_entries sample_leaf3 = [([1], sample_val), ([2], sample_val), ([3], sample_val)]"
    using i(1,2,6,8,9) by (simp_all add: k lower_bound_def e cell_space_def insert_at_def)
  show "node_count sample_leaf3 = 3" "node_keys sample_leaf3 = [DBKey [1], DBKey [2], DBKey [3]]"
    using leaf_count [OF en] by (simp_all add: node_keys_leaf en)
qed

text \<open>With the first entry deleted: one tombstone of 1317 bytes above the live cells.\<close>

definition sample_deleted :: page where "sample_deleted = delete_at_idx sample_leaf3 0"

lemma leaf_total:
  assumes "leaf_inv p ts" "i < node_count p" "leaf_entries p ! i = (key, val)" "length key + length val < 2 ^ 32"
  shows "cell_total_size p (cell_at p i) = of_nat (length key + length val)"
proof -
  let ?c = "cell_at p i"
  have "leaf_cell_ok p ?c" using assms(1,2) by (simp add: leaf_inv_def cells_okD)
  moreover have "leaf_entry p ?c = (key, val)" using assms(2,3) by (simp add: leaf_entries_def)
  ultimately have "unat (cell_total_size p ?c) = length key + length val"
    by (auto simp: leaf_cell_ok_def leaf_entry_def)
  then show ?thesis by (metis of_nat_unat ucast_id)
qed

lemma sample_cell_len:
  assumes "i < 3"
  shows "cell_len sample_leaf3 (cell_at sample_leaf3 i) = 1317"
proof -
  note e = sample_leaf3
  have "leaf_entries sample_leaf3 ! i = (fst (leaf_entries sample_leaf3 ! i), sample_val) \<and>
      length (fst (leaf_entries sample_leaf3 ! i)) = 1"
    using assms by (auto simp: e less_Suc_eq numeral_3_eq_3)
  then have "cell_total_size sample_leaf3 (cell_at sample_leaf3 i) = 1301"
    using leaf_total [OF e(1), of i "fst (leaf_entries sample_leaf3 ! i)" sample_val] assms by (simp add: e(7))
  then show ?thesis by (simp add: cell_len_def)
qed

lemma sample_bytes_before:
  "bytes_before sample_leaf3 0 = 0" "bytes_before sample_leaf3 1 = 1317" "bytes_before sample_leaf3 2 = 2634"
  using sample_cell_len [of 0] sample_cell_len [of 1] by (simp_all add: bytes_before_def upt_rec numeral_2_eq_2)

lemma sample_deleted:
  "leaf_inv sample_deleted [2776]" "leaf_entries sample_deleted = [([2], sample_val), ([3], sample_val)]"
  "unat (node_cell_offset sample_deleted) = 136" "cell_tombstone_size sample_deleted 2776 = 1317"
  "cell_at sample_deleted 0 = 1456" "node_count sample_deleted = 2"
  "node_keys sample_deleted = [DBKey [2], DBKey [3]]"
proof -
  note e = sample_leaf3
  have wf: "node_wf sample_leaf3 []" using e(1) by (simp add: leaf_inv_def)
  note d = leaf_delete_at [OF e(1), of 0, folded sample_deleted_def]
  note st = delete_steps [OF wf, of 0, folded sample_deleted_def]
  have "cell_total_size sample_leaf3 2776 = 1301"
    using leaf_total [OF e(1), of 0 "[1]" sample_val] by (simp add: e)
  then show "leaf_inv sample_deleted [2776]" "cell_tombstone_size sample_deleted 2776 = 1317"
    "unat (node_cell_offset sample_deleted) = 136" "cell_at sample_deleted 0 = 1456"
    and en: "leaf_entries sample_deleted = [([2], sample_val), ([3], sample_val)]"
    using d st(4) st(8) [of 0] st(11) by (simp_all add: e delete_at_def)
  show "node_count sample_deleted = 2" "node_keys sample_deleted = [DBKey [2], DBKey [3]]"
    using leaf_count [OF en] by (simp_all add: node_keys_leaf en)
qed

text \<open>A small entry in front, then the large first entry and the small one deleted: the head of
  the tombstone chain is too small for what the second tombstone would hold.\<close>

definition sample_leaf4 :: page where "sample_leaf4 = node_insert_nonfull sample_leaf3 0 [0] 1 [] 0"

definition sample_two_tombs :: page where
  "sample_two_tombs = delete_at_idx (delete_at_idx sample_leaf4 1) 0"

lemma sample_leaf4:
  "leaf_inv sample_leaf4 []"
  "leaf_entries sample_leaf4 = [([0], []), ([1], sample_val), ([2], sample_val), ([3], sample_val)]"
  "unat (node_cell_offset sample_leaf4) = 116" "cell_at sample_leaf4 0 = 116" "cell_at sample_leaf4 (Suc 0) = 2776"
  "node_count sample_leaf4 = 4"
proof -
  note e = sample_leaf3
  have r: "fresh_room sample_leaf3 (unat (1::u32) + unat (0::u32))"
    by (simp add: fresh_room_def e cell_space_def)
  note i = insert_nonfull_entries [OF e(1) _ _ r, of "[0]" "[]" 0, folded sample_leaf4_def]
  have n: "DBKey [0] \<noteq> DBKey [3]" "DBKey [0] \<noteq> DBKey [2]" by simp_all
  show "leaf_inv sample_leaf4 []" "unat (node_cell_offset sample_leaf4) = 116" "cell_at sample_leaf4 0 = 116"
      "cell_at sample_leaf4 (Suc 0) = 2776"
    and en: "leaf_entries sample_leaf4 = [([0], []), ([1], sample_val), ([2], sample_val), ([3], sample_val)]"
    using i(1,2,6,9) i(10) [of 0] by (simp_all add: e lower_bound_def cell_space_def insert_at_def)
  show "node_count sample_leaf4 = 4" using leaf_count [OF en] by simp
qed

lemma sample_two_tombs:
  "leaf_inv sample_two_tombs [116, 2776]" "node_count sample_two_tombs = 2"
  "unat (node_cell_offset sample_two_tombs) = 116"
  "cell_tombstone_size sample_two_tombs 116 = 17" "cell_tombstone_size sample_two_tombs 2776 = 1317"
proof -
  note e = sample_leaf4
  let ?d = "delete_at_idx sample_leaf4 1"
  have wf: "node_wf sample_leaf4 []" using e(1) by (simp add: leaf_inv_def)
  note d = leaf_delete_at [OF e(1), of 1] and st = delete_steps [OF wf, of 1]
  have one: "cell_total_size sample_leaf4 2776 = 1301"
    using leaf_total [OF e(1), of 1 "[1]" sample_val] by (simp add: e)
  have f: "leaf_inv ?d [2776]" "leaf_entries ?d = [([0], []), ([2], sample_val), ([3], sample_val)]"
    "cell_tombstone_size ?d 2776 = 1317" "cell_at ?d 0 = 116" "unat (node_cell_offset ?d) = 116"
    using d st(4) st(7) [of 0] st(11) one by (simp_all add: e delete_at_def)
  have n: "node_count ?d = 3" using leaf_count [OF f(2)] by simp
  have wf2: "node_wf ?d [2776]" using f(1) by (simp add: leaf_inv_def)
  note d2 = leaf_delete_at [OF f(1), of 0, folded sample_two_tombs_def]
  note st2 = delete_steps [OF wf2, of 0, folded sample_two_tombs_def]
  have "cell_total_size ?d 116 = 1"
    using leaf_total [OF f(1), of 0 "[0]" "[]"] by (simp add: f n)
  then show "leaf_inv sample_two_tombs [116, 2776]" "node_count sample_two_tombs = 2"
    "unat (node_cell_offset sample_two_tombs) = 116"
    "cell_tombstone_size sample_two_tombs 116 = 17" "cell_tombstone_size sample_two_tombs 2776 = 1317"
    using d2 st2(2,4,11) st2(12) [of 2776] by (simp_all add: f n)
qed

text \<open>An internal node with three separators and a rightmost child.\<close>

definition sample_internal :: page where
  "sample_internal =
     node_set_rightmost_child
       (node_insert_internal_cell
         (node_insert_internal_cell
           (node_insert_internal_cell (node_init (\<lambda>_. 0) 0) 4076 0 [1] 1 11) 4056 1 [2] 1 12) 4036 2 [3] 1 13) 14"

lemma sample_internal:
  "internal_inv sample_internal []" "internal_entries sample_internal = [([1], 11), ([2], 12), ([3], 13)]"
  "node_rightmost_pid sample_internal = 14" "node_count sample_internal = 3"
proof -
  let ?p0 = "node_init (\<lambda>_. 0) 0"
  let ?p1 = "node_insert_internal_cell ?p0 4076 0 [1] 1 11"
  let ?p2 = "node_insert_internal_cell ?p1 4056 1 [2] 1 12"
  let ?p3 = "node_insert_internal_cell ?p2 4036 2 [3] 1 13"
  have e0: "cells_ok internal_cell_ok ?p0" "internal_entries ?p0 = []"
    by (simp_all add: cells_ok_def internal_entries_def node_view_def)
  have c: "node_count p = length xs" if "internal_entries p = xs" for p xs using that by auto
  have i1: "node_wf ?p1 []" "cells_ok internal_cell_ok ?p1" "internal_entries ?p1 = [([1], 11)]"
      "node_flags ?p1 = 0" "node_cell_offset ?p1 = 4076"
    using insert_internal_cell [OF node_init_wf e0(1), of 0 "[1]" 1 4076 11] e0(2) by (simp_all add: insert_at_def)
  note n1 = c [OF i1(3)]
  have i2: "node_wf ?p2 []" "cells_ok internal_cell_ok ?p2" "internal_entries ?p2 = [([1], 11), ([2], 12)]"
      "node_flags ?p2 = 0" "node_cell_offset ?p2 = 4056"
    using insert_internal_cell [OF i1(1,2), of 1 "[2]" 1 4056 12] i1 n1 by (simp_all add: insert_at_def)
  note n2 = c [OF i2(3)]
  have i3: "node_wf ?p3 []" "cells_ok internal_cell_ok ?p3" "internal_entries ?p3 = [([1], 11), ([2], 12), ([3], 13)]"
      "node_flags ?p3 = 0"
    using insert_internal_cell [OF i2(1,2), of 2 "[3]" 1 4036 13] i2 n2 by (simp_all add: insert_at_def)
  note s = set_rightmost_view [OF i3(1,2), of 14, folded sample_internal_def]
  show en: "internal_entries sample_internal = [([1], 11), ([2], 12), ([3], 13)]"
    "node_rightmost_pid sample_internal = 14"
    using s(3,5) i3(3) by simp_all
  show "node_count sample_internal = 3" using c [OF en(1)] by simp
  show "internal_inv sample_internal []"
    using s(1,2,4) i3(4) by (simp add: internal_inv_def node_is_leaf_def node_keys_internal en)
qed

lemma sample_free_space:
  "node_free_space sample_deleted < 1308" "node_free_space sample_two_tombs < 1308"
  "node_free_space sample_leaf3 = 68"
proof -
  have l: "node_layout sample_deleted [0..<2] [2776]" "node_layout sample_two_tombs [0..<2] [116, 2776]"
    "node_layout sample_leaf3 [0..<3] []"
    using sample_deleted(1,6) sample_two_tombs(1,2) sample_leaf3(1,7) by (simp_all add: leaf_inv_def node_wf_def)
  note f = l [THEN unat_node_free_space]
  show "node_free_space sample_deleted < 1308" "node_free_space sample_two_tombs < 1308"
    using f by (simp_all add: word_less_nat_alt sample_deleted sample_two_tombs)
  have "unat (node_free_space sample_leaf3) = unat (68 :: u32)" using f(3) by (simp add: sample_leaf3)
  then show "node_free_space sample_leaf3 = 68" by (simp only: word_unat_eq_iff)
qed

end
