(* ===== verification/Node_Properties.thy ===== *)
theory Node_Properties
  imports Samples
begin

text \<open>
  The properties of the node layer, each over the definitions of the code, with an application
  at a concrete page where it has hypotheses.
\<close>

section \<open>Keys and search\<close>

text \<open>C28. \<open>__key_compare\<close> decides a strict total order on keys: its sign is antisymmetric,
  zero exactly for equal keys, and transitive, for all keys below 2 GiB.\<close>
theorem key_compare_total_order:
  assumes "key_arg a m" "key_arg b n" "key_arg c l"
  shows "(key_compare_bytes a m b n < 0 \<longleftrightarrow> 0 < key_compare_bytes b n a m) \<and>
    (key_compare_bytes a m b n = 0 \<longleftrightarrow> a = b) \<and>
    (key_compare_bytes a m b n < 0 \<and> key_compare_bytes b n c l < 0 \<longrightarrow> key_compare_bytes a m c l < 0)"
  using assms by (auto simp: key_arg_def key_compare_bytes_sign intro: less_trans)

lemma key_compare_total_order_witness:
  "key_compare_bytes [1, 2] 2 [1] 1 < 0 \<and> key_compare_bytes [1] 1 [2] 1 < 0 \<and>
   key_compare_bytes [1, 2] 2 [2] 1 < 0"
proof -
  have a: "key_arg [1, 2] 2" "key_arg [1] 1" "key_arg [2] 1" by (simp_all add: key_arg_def)
  have "key_compare_bytes [1, 2] 2 [1] 1 < 0" "key_compare_bytes [1] 1 [2] 1 < 0" by code_simp+
  then show ?thesis using key_compare_total_order [OF a] by blast
qed

text \<open>C26. The binary search of a node returns on every node whose keys are ascending, its flag
  says whether the key occurs, and its index separates the keys below from those not below.\<close>
theorem bin_search_correct:
  assumes "search_inv p" "key_arg key ks"
  shows "\<exists>found idx. node_bin_search p key ks = Some (found, idx) \<and> unat idx \<le> node_count p \<and>
    (found \<longleftrightarrow> DBKey key \<in> set (node_keys p)) \<and>
    (\<forall>i < unat idx. node_keys p ! i < DBKey key) \<and>
    (\<forall>i. unat idx \<le> i \<and> i < node_count p \<longrightarrow> DBKey key \<le> node_keys p ! i)"
proof -
  have "sorted_wrt (<) (node_keys p)" using assms(1) by (simp add: search_inv_def)
  then show ?thesis
    using lower_bound_le [of "node_keys p" "DBKey key"] lower_bound_above [of "node_keys p" "DBKey key"]
    by (simp add: node_bin_search_eq [OF assms] unat_lower_bound [OF assms(1)] lower_bound_below)
qed

lemma bin_search_correct_witness:
  "\<exists>found idx. node_bin_search sample_leaf3 [2] 1 = Some (found, idx) \<and> unat idx \<le> 3 \<and> found"
  using bin_search_correct [of sample_leaf3 "[2]" 1] search_inv_leaf [OF sample_leaf3(1)]
  by (auto simp: key_arg_def sample_leaf3)

text \<open>C27. The binary search returns on any page whose \<open>size\<close> is below \<open>2 ^ 31\<close>, whatever
  its pointers and cells hold, and the index is in range, strictly when it reports a match.\<close>
theorem bin_search_terminates:
  assumes "node_count p < 2 ^ 31"
  shows "\<exists>found idx. node_bin_search p key ks = Some (found, idx) \<and> unat idx \<le> node_count p \<and>
    (found \<longrightarrow> unat idx < node_count p)"
  using bin_search_loop_returns [of 0 "node_size p"] assms
  unfolding node_bin_search_def node_count_def by fastforce

lemma bin_search_terminates_witness:
  "\<exists>found idx. node_bin_search (set_size (\<lambda>_. 255) 77) [1] 1 = Some (found, idx) \<and> unat idx \<le> 77"
  using bin_search_terminates [of "set_size (\<lambda>_. 255) 77" "[1]" 1] by (auto simp: node_count_def)

section \<open>A leaf as a store\<close>

text \<open>C7. Any sequence of insertions of absent keys that have room and of removals runs on a
  leaf without failing, keeps the page invariant, and leaves exactly the finite map that the
  sequence computes; every search then answers from that map.\<close>
theorem leaf_run_refines:
  assumes "leaf_ok p" "store_allowed leaf_map leaf_key_ok leaf_fits leaf_put leaf_remove p ops"
  shows "\<exists>q. store_run leaf_put leaf_remove p ops = Inr q \<and> leaf_ok q \<and>
    leaf_map q = foldl map_step (leaf_map p) ops \<and>
    (\<forall>key. length key < 2 ^ 31 \<longrightarrow> leaf_find q key = Inr (foldl map_step (leaf_map p) ops key))"
proof -
  obtain q where "store_run leaf_put leaf_remove p ops = Inr q" "leaf_ok q"
      "leaf_map q = foldl map_step (leaf_map p) ops"
    using leaf.run_refines [OF assms] by blast
  then show ?thesis using leaf_find_eq [of q] by (simp add: leaf_key_ok_def)
qed

lemma sample_leaf_ok: "leaf_ok sample_leaf" "leaf_ok sample_leaf3" "leaf_map sample_leaf = Map.empty"
  using sample_leaf_inv sample_leaf3(1) by (auto simp: leaf_ok_def leaf_map_def sample_leaf_empty)

lemma sample_fits: "leaf_fits sample_leaf [1] [9]" "leaf_key_ok [1]"
  by (simp_all add: leaf_fits_def fresh_room_def sample_leaf_empty cell_space_def leaf_key_ok_def)

lemma leaf_run_refines_witness:
  "\<exists>q. store_run leaf_put leaf_remove sample_leaf [Put [1] [9], Remove [1]] = Inr q \<and> leaf_find q [1] = Inr None"
proof -
  obtain q where "leaf_put sample_leaf [1] [9] = Inr q" "leaf_ok q"
    using leaf_put_eq [OF sample_leaf_ok(1) sample_fits(2) _ sample_fits(1)] sample_leaf_ok(3) by auto
  then have "store_allowed leaf_map leaf_key_ok leaf_fits leaf_put leaf_remove sample_leaf [Put [1] [9], Remove [1]]"
    using sample_fits sample_leaf_ok leaf_remove_eq [of q "[1]"] by auto
  from leaf_run_refines [OF sample_leaf_ok(1) this] show ?thesis by fastforce
qed

text \<open>C8. \<open>node_insert_nonfull\<close> at the index of a failed search, with room for the cell and
  its pointer: the entry is inserted at its place, everything else is kept, the page invariant
  holds, \<open>cell_offset\<close> falls by the aligned cell size, and no byte past the page is touched.\<close>
theorem insert_nonfull_correct:
  assumes "leaf_inv p ts" "length key = unat ks" "length val = unat vs" "fresh_room p (unat ks + unat vs)"
    and "node_bin_search p key ks = Some (False, idx)"
  shows "leaf_inv (node_insert_nonfull p idx key ks val vs) ts \<and>
    leaf_entries (node_insert_nonfull p idx key ks val vs) = insert_at (unat idx) (key, val) (leaf_entries p) \<and>
    unat (node_cell_offset (node_insert_nonfull p idx key ks val vs)) =
      unat (node_cell_offset p) - cell_space (unat ks + unat vs) \<and>
    (\<forall>a \<ge> NODE_SIZE. node_insert_nonfull p idx key ks val vs a = p a)"
proof -
  have wf: "node_wf p ts" using assms(1) by (simp add: leaf_inv_def)
  note lay = wf [unfolded node_wf_def]
  have arg: "key_arg key ks" using fresh_room_offset(4) [OF lay assms(4)] assms(2) by (simp add: key_arg_def)
  have new: "DBKey key \<notin> set (node_keys p)" and idx: "unat idx = lower_bound (node_keys p) (DBKey key)"
    using assms(5) unat_lower_bound [OF search_inv_leaf [OF assms(1)]]
    by (auto simp: node_bin_search_eq [OF search_inv_leaf [OF assms(1)] arg])
  show ?thesis
    using insert_nonfull_entries(1,2,6,7) [OF assms(1-4) new idx] node_layoutD(2) [OF lay]
    by (meson le_trans)
qed

lemma insert_nonfull_correct_witness:
  "leaf_entries (node_insert_nonfull sample_leaf2 2 [3] 1 sample_val 1300) =
     insert_at 2 ([3], sample_val) (leaf_entries sample_leaf2)"
proof -
  have "node_bin_search sample_leaf2 [3] 1 = Some (False, 2)"
    using node_bin_search_eq [OF search_inv_leaf [OF sample_leaf2(1)], of "[3]" 1]
    by (simp add: key_arg_def node_keys_leaf sample_leaf2 lower_bound_def)
  then show ?thesis
    using insert_nonfull_correct [OF sample_leaf2(1), of "[3]" 1 sample_val 1300 2]
    by (simp add: fresh_room_def sample_leaf2 cell_space_def)
qed

text \<open>C9. What was inserted is read back: \<open>node_get_cell\<close> returns the pointer at the
  inserted index and \<open>node_cell_pointers\<close> gives the key's size, the value's size and pointers
  to exactly the bytes that were passed.\<close>
theorem insert_then_get:
  assumes "leaf_inv p ts" "length key = unat ks" "length val = unat vs" "fresh_room p (unat ks + unat vs)"
    and "node_bin_search p key ks = Some (False, idx)"
    and "q = node_insert_nonfull p idx key ks val vs"
  shows "\<exists>c ptrs v. node_get_cell q key ks = Inr (Some c) \<and> c = node_get_cell_ptr q idx \<and>
    ptrs = node_cell_pointers q c \<and> ptr_key_size ptrs = ks \<and> ptr_value_size ptrs = vs \<and>
    rd_bytes q (ptr_key ptrs) (unat ks) = key \<and> ptr_value ptrs = Some v \<and> rd_bytes q v (unat vs) = val"
proof -
  have lay: "node_layout p [0..<node_count p] ts" using assms(1) by (simp add: leaf_inv_def node_wf_def)
  have arg: "key_arg key ks" using fresh_room_offset(4) [OF lay assms(4)] assms(2) by (simp add: key_arg_def)
  have new: "DBKey key \<notin> set (node_keys p)" and idx: "unat idx = lower_bound (node_keys p) (DBKey key)"
    using assms(5) unat_lower_bound [OF search_inv_leaf [OF assms(1)]]
    by (auto simp: node_bin_search_eq [OF search_inv_leaf [OF assms(1)] arg])
  note ins = insert_nonfull_entries(1,2) [OF assms(1-4) new idx, folded assms(6)]
  have le: "unat idx \<le> node_count p" using idx lower_bound_le [of "node_keys p" "DBKey key"] by simp
  have cnt: "node_count q = Suc (node_count p)" using leaf_count [OF ins(2)] le by simp
  have e: "leaf_entry q (cell_at q (unat idx)) = (key, val)"
  proof -
    have "leaf_entries q ! unat idx = leaf_entry q (cell_at q (unat idx))"
      using le cnt by (simp add: leaf_entries_def)
    moreover have "leaf_entries q ! unat idx = (key, val)"
      unfolding ins(2) using le by (intro insert_at_nth(2)) simp
    ultimately show ?thesis by simp
  qed
  then have c: "cell_key q (cell_at q (unat idx)) = key" "leaf_cell_value q (cell_at q (unat idx)) = val"
    by (simp_all add: leaf_entry_def)
  have "node_keys q ! unat idx = DBKey key" using c(1) le cnt by (simp add: node_keys_nth)
  then have mem: "DBKey key \<in> set (node_keys q)"
    and lb: "lower_bound (node_keys q) (DBKey key) = unat idx"
  proof -
    assume at: "node_keys q ! unat idx = DBKey key"
    have asc: "sorted_wrt (<) (node_keys q)" using ins(1) by (simp add: leaf_inv_def)
    show "DBKey key \<in> set (node_keys q)" using at le cnt by (metis length_entries(3) less_Suc_eq_le nth_mem)
    show "lower_bound (node_keys q) (DBKey key) = unat idx"
      using at asc le cnt by (intro lower_bound_eqI) (auto dest: sorted_wrt_nth_less)
  qed
  have sizes: "cell_key_size q (cell_at q (unat idx)) = ks" "cell_value_size q (cell_at q (unat idx)) = vs"
    using arg_cong [OF c(1), of length] arg_cong [OF c(2), of length] assms(2,3)
    by (simp_all add: word_unat_eq_iff)
  have leaf: "(ucast (node_flags q) :: u32) AND BTREE_NODE_FLAGS_LEAF \<noteq> 0"
    using ins(1) by (simp add: leaf_inv_def node_is_leaf_def)
  show ?thesis
    using mem lb leaf sizes c
    by (simp add: node_get_cell_eq [OF search_inv_leaf [OF ins(1)] arg] node_cell_pointers_def Let_def
        cell_from_ptr_at cell_key_def leaf_cell_value_def)
qed

lemma insert_then_get_witness:
  "\<exists>c. node_get_cell sample_leaf3 [3] 1 = Inr (Some c) \<and> c = node_get_cell_ptr sample_leaf3 2"
proof -
  have "node_bin_search sample_leaf2 [3] 1 = Some (False, 2)"
    using node_bin_search_eq [OF search_inv_leaf [OF sample_leaf2(1)], of "[3]" 1]
    by (simp add: key_arg_def node_keys_leaf sample_leaf2 lower_bound_def)
  then show ?thesis
    using insert_then_get [OF sample_leaf2(1), of "[3]" 1 sample_val 1300 2 sample_leaf3]
    by (auto simp: fresh_room_def sample_leaf2 cell_space_def sample_leaf3_def)
qed

text \<open>C10. \<open>node_delete_key\<close> of a stored key returns 0, removes exactly its entry, puts its
  cell at the head of the tombstone list, keeps the invariant and stays inside the page; of any
  other key it returns 1 and changes nothing.\<close>
theorem delete_key_correct:
  assumes "leaf_inv p ts" "key_arg key ks"
  shows "if DBKey key \<in> set (node_keys p)
    then \<exists>q k. node_delete_key p key ks = Inr (0, q) \<and> k < node_count p \<and> cell_key p (cell_at p k) = key \<and>
      leaf_inv q (cell_at p k # ts) \<and> leaf_entries q = delete_at k (leaf_entries p) \<and>
      (\<forall>a \<ge> NODE_SIZE. q a = p a)
    else node_delete_key p key ks = Inr (1, p)"
  using delete_key_entries [OF assms] delete_key_missing [OF search_inv_leaf [OF assms(1)] assms(2)]
    leaf_entry_found(1,2) [OF assms(1)] by (fastforce split: if_splits)

lemma delete_key_correct_witness:
  "(\<exists>q k. node_delete_key sample_leaf3 [2] 1 = Inr (0, q) \<and> leaf_entries q = delete_at k (leaf_entries sample_leaf3)) \<and>
   node_delete_key sample_leaf3 [5] 1 = Inr (1, sample_leaf3)"
  using delete_key_correct [OF sample_leaf3(1), of "[2]" 1] delete_key_correct [OF sample_leaf3(1), of "[5]" 1]
  by (auto simp: key_arg_def sample_leaf3(8))

section \<open>Space\<close>

text \<open>C30. \<open>node_is_full\<close> returns on every laid-out page, and answers "full" exactly when
  neither the gap below \<open>cell_offset\<close> nor any tombstone of the list holds the aligned cell.\<close>
theorem node_is_full_correct:
  assumes "node_layout p is ts" "unat ks + unat vs < 2 ^ 31"
  shows "node_is_full p ks vs = Some
    (unat (node_cell_offset p) < 56 + 4 * node_count p + cell_space (unat ks + unat vs) \<and>
     (\<forall>t \<in> set ts. unat (cell_tombstone_size p t) < cell_space (unat ks + unat vs)))"
  using node_layoutD(1) [OF assms(1)]
  by (auto simp: node_is_full_eq [OF assms(1)] word_less_nat_alt unat_node_free_space [OF assms(1)]
      unat_new_cell_size [OF assms(2)])

lemma node_is_full_correct_witness: "node_is_full sample_deleted 1 1290 = Some False"
proof -
  have "node_layout sample_deleted [0..<2] [2776]"
    using sample_deleted(1) by (simp add: leaf_inv_def node_wf_def sample_deleted(6))
  from node_is_full_correct [OF this, of 1 1290] show ?thesis
    by (simp add: sample_deleted cell_space_def)
qed

text \<open>The two space tests disagree: with a head tombstone that is too small and a later
  one that fits, \<open>node_is_full\<close> says the node is not full, but \<open>node_get_free_offset\<close>
  looks at the head only and returns 0, "no place".\<close>
lemma space_tests_disagree:
  assumes "node_layout p is (t # ts)" "node_free_space p < new_cell_size ks vs"
    and "cell_tombstone_size p t < new_cell_size ks vs"
    and "u \<in> set ts" "new_cell_size ks vs \<le> cell_tombstone_size p u"
  shows "node_is_full p ks vs = Some False \<and> node_get_free_offset p ks vs = (0, p)"
proof -
  have "t = unat (node_tombstone_offset p)" using node_layoutD(3) [OF assms(1)] by simp
  then show ?thesis
    using assms(2-5) free_offset_none [of p ks vs] by (auto simp: node_is_full_eq [OF assms(1)] not_less)
qed

lemma sample_need [simp]: "new_cell_size 1 1290 = 1308" "new_cell_size 1 51 = 68"
  by code_simp+

lemma space_tests_disagree_witness:
  "node_is_full sample_two_tombs 1 1290 = Some False \<and>
   node_get_free_offset sample_two_tombs 1 1290 = (0, sample_two_tombs)"
proof -
  have "node_layout sample_two_tombs [0..<2] [116, 2776]"
    using sample_two_tombs(1,2) by (simp add: leaf_inv_def node_wf_def)
  from space_tests_disagree [OF this, of 1 1290 2776] show ?thesis
    using sample_free_space(2) by (simp add: sample_two_tombs)
qed

text \<open>C25. Reusing a tombstone breaks the page: the insertion sets \<open>cell_offset\<close> to the
  reused offset, so when a live cell lies below it, that cell is afterwards outside the area of
  cells, the page invariant fails under every tombstone chain, and the gap that the next
  insertion may use contains a live cell.\<close>
theorem tombstone_reuse_breaks_page:
  assumes "node_wf p (t # ts)" "length key = unat ks" "length val = unat vs" "unat ks + unat vs < 2 ^ 31"
    and "node_free_space p < new_cell_size ks vs" "new_cell_size ks vs \<le> cell_tombstone_size p t"
    and "60 + 4 * node_count p \<le> unat (node_cell_offset p)" "unat idx \<le> node_count p"
    and "i < node_count p" "cell_at p i < t"
    and "q = node_insert_nonfull p idx key ks val vs"
  shows "node_is_full p ks vs = Some False \<and> unat (node_cell_offset q) = t \<and> (\<forall>us. \<not> node_wf q us) \<and>
    (\<exists>j < node_count q. cell_at q j < unat (node_cell_offset q))"
proof -
  note r = insert_nonfull_reuse [OF assms(1-8), folded assms(11)]
  obtain j where j: "j < node_count q" "cell_at q j < unat (node_cell_offset q)"
    using r(2) r(3) [OF assms(9)] assms(10) by auto
  have "\<not> node_wf q us" for us
  proof
    assume "node_wf q us"
    then have "unat (node_cell_offset q) \<le> cell_at q j"
      unfolding node_wf_def by (rule node_layout_live(1)) (simp add: j)
    with j(2) show False by simp
  qed
  moreover have "node_is_full p ks vs = Some False"
    using assms(6) by (simp add: node_is_full_eq [OF assms(1) [unfolded node_wf_def]] not_less)
  ultimately show ?thesis using j r(2) by blast
qed

lemma tombstone_reuse_breaks_page_witness:
  "\<forall>us. \<not> node_wf (node_insert_nonfull sample_deleted 0 [1] 1 (replicate 1290 5) 1290) us"
proof -
  have "node_wf sample_deleted [2776]" using sample_deleted(1) by (simp add: leaf_inv_def)
  from tombstone_reuse_breaks_page [OF this, of "[1]" 1 "replicate 1290 5" 1290 0 0, OF _ _ _ _ _ _ _ _ _ refl]
  show ?thesis using sample_free_space(1) by (simp add: sample_deleted)
qed

text \<open>C29. The new cell pointer is not counted: when the gap is exactly as large as the cell,
  \<open>node_is_full\<close> says the node is not full, the insertion lets the new cell overlap the last
  cell pointer, and that pointer reads 0 (the page header) afterwards.\<close>
theorem exact_gap_overwrites_pointer:
  assumes "node_wf p ts" "length key = unat ks" "length val = unat vs" "unat ks + unat vs < 2 ^ 31"
    and "node_free_space p = new_cell_size ks vs" "unat idx \<le> node_count p"
    and "q = node_insert_nonfull p idx key ks val vs"
  shows "node_is_full p ks vs = Some False \<and> node_count q = Suc (node_count p) \<and>
    cell_at q (node_count p) = 0 \<and> (\<forall>us. \<not> node_wf q us)"
  using insert_nonfull_no_slot [OF assms(1-6), folded assms(7)] by blast

lemma exact_gap_overwrites_pointer_witness:
  "cell_at (node_insert_nonfull sample_leaf3 0 [0] 1 (replicate 51 5) 51) 3 = 0"
proof -
  have "node_wf sample_leaf3 []" using sample_leaf3(1) by (simp add: leaf_inv_def)
  from exact_gap_overwrites_pointer [OF this, of "[0]" 1 "replicate 51 5" 51 0, OF _ _ _ _ _ refl]
  show ?thesis using sample_free_space(3) by (simp add: sample_leaf3)
qed

section \<open>Splits\<close>

text \<open>C31. The partition index lies in the node and is the first index at which the cells
  before it take 1992 bytes, or the node's size when they never do.\<close>
theorem partition_idx_correct:
  assumes "node_wf p ts"
  shows "unat (node_partition_idx p) \<le> node_count p \<and>
    (\<forall>j < unat (node_partition_idx p). bytes_before p j < 1992) \<and>
    (unat (node_partition_idx p) < node_count p \<longrightarrow> 1992 \<le> bytes_before p (unat (node_partition_idx p)))"
  using node_partition_idx_eq [OF assms] by blast

lemma partition_idx_correct_witness: "unat (node_partition_idx sample_leaf3) = 2"
proof -
  let ?u = "unat (node_partition_idx sample_leaf3)"
  have "node_wf sample_leaf3 []" "node_count sample_leaf3 = 3" using sample_leaf3(1,7) by (simp_all add: leaf_inv_def)
  with partition_idx_correct [of sample_leaf3 "[]"] have p: "\<forall>j < ?u. bytes_before sample_leaf3 j < 1992"
    "?u < 3 \<longrightarrow> 1992 \<le> bytes_before sample_leaf3 ?u" by simp_all
  have "\<not> 2 < ?u" using p(1) sample_bytes_before(3) by auto
  moreover have "?u \<noteq> i" if "bytes_before sample_leaf3 i < 1992" "i < 3" for i using p(2) that by auto
  from this [of 0] this [of 1] have "?u \<noteq> 0" "?u \<noteq> 1" using sample_bytes_before(1,2) by simp_all
  ultimately show ?thesis by linarith
qed

text \<open>C11. Splitting a leaf inside its range loses and invents nothing: the old page keeps
  the first entries, the fresh page gets the others in order, both satisfy the leaf invariant,
  and every key of the old page is below every key of the new one.\<close>
theorem leaf_split_correct:
  assumes "leaf_inv p ts" "fresh_node q" "node_is_leaf q" "unat k < node_count p"
  shows "\<exists>p' q' ts'. leaf_node_split p q k = Inr (p', q') \<and> leaf_inv p' ts' \<and> leaf_inv q' [] \<and>
    leaf_entries p' @ leaf_entries q' = leaf_entries p \<and> node_count p' = unat k \<and>
    (\<forall>x \<in> set (node_keys p'). \<forall>y \<in> set (node_keys q'). x < y)"
proof -
  obtain p' q' where s: "leaf_node_split p q k = Inr (p', q')" "leaf_inv q' []"
      "leaf_inv p' (rev (map (cell_at p) [unat k..<node_count p]) @ ts)"
      "leaf_entries p' = take (unat k) (leaf_entries p)" "leaf_entries q' = drop (unat k) (leaf_entries p)"
    using leaf_node_split_eq [OF assms] by blast
  have app: "leaf_entries p' @ leaf_entries q' = leaf_entries p" by (simp add: s)
  have "sorted_wrt (<) (node_keys p' @ node_keys q')"
    using assms(1) unfolding node_keys_leaf leaf_inv_def map_append [symmetric] app by simp
  then have "\<forall>x \<in> set (node_keys p'). \<forall>y \<in> set (node_keys q'). x < y" by (simp add: sorted_wrt_append)
  moreover have "node_count p' = unat k" using leaf_count [OF s(4)] assms(4) by simp
  ultimately show ?thesis using s(1-3) app by blast
qed

lemma leaf_split_correct_witness:
  "\<exists>p' q'. leaf_node_split sample_leaf3 sample_leaf 2 = Inr (p', q') \<and>
     leaf_entries p' @ leaf_entries q' = leaf_entries sample_leaf3"
proof -
  have "fresh_node sample_leaf" "node_is_leaf sample_leaf"
    using sample_leaf_inv by (simp_all add: sample_leaf_def leaf_inv_def)
  from leaf_split_correct [OF sample_leaf3(1) this, of 2] show ?thesis by (auto simp: sample_leaf3)
qed

text \<open>A split at an index equal to the node's size, which \<open>node_partition_idx\<close> returns
  for a leaf whose cells stay below 1992 bytes, aborts in an assertion: a leaf that is full only
  because the new entry is large is never split.\<close>
lemma light_leaf_split_aborts:
  assumes "node_wf p ts" "\<forall>j < node_count p. bytes_before p j < 1992" "node_size q = 0"
  shows "node_partition_idx p = node_size p \<and> leaf_node_split p q (node_partition_idx p) = Inl AssertFail"
proof -
  have "\<not> unat (node_partition_idx p) < node_count p"
    using node_partition_idx_eq(3) [OF assms(1)] assms(2) by (meson not_le)
  then have "node_partition_idx p = node_size p"
    using node_partition_idx_eq(1) [OF assms(1)] by (simp add: node_count_def word_unat_eq_iff)
  then show ?thesis using leaf_node_split_at_end [OF assms(3), of p] by simp
qed

lemma light_leaf_split_aborts_witness:
  "leaf_node_split sample_leaf1 sample_leaf (node_partition_idx sample_leaf1) = Inl AssertFail"
proof -
  have "node_wf sample_leaf1 []" using sample_leaf1(1) by (simp add: leaf_inv_def)
  moreover have "node_size sample_leaf = 0" by (simp add: sample_leaf_def)
  moreover have "\<forall>j < node_count sample_leaf1. bytes_before sample_leaf1 j < 1992"
    by (simp add: sample_leaf1 bytes_before_def)
  ultimately show ?thesis using light_leaf_split_aborts [of sample_leaf1 "[]" sample_leaf] by blast
qed

text \<open>Splitting an internal node at an inner index keeps the entries before it in the old
  page and moves those behind it to the fresh page, in order, with both invariants; the entry at
  the index is in neither, and the rightmost child of the old page stays what it was while that
  of the new page stays 0, so that the child under the moved-up separator is referenced by
  neither page and the old rightmost child stays with the wrong half.\<close>
lemma internal_split_drops_child:
  assumes "internal_inv p ts" "fresh_node q" "\<not> node_is_leaf q" "0 < unat k" "Suc (unat k) < node_count p"
  shows "\<exists>p' q' ts'. internal_node_split p q k = Inr (p', q') \<and> internal_inv p' ts' \<and> internal_inv q' [] \<and>
    internal_entries p' = take (unat k) (internal_entries p) \<and>
    internal_entries q' = drop (Suc (unat k)) (internal_entries p) \<and>
    node_rightmost_pid p' = node_rightmost_pid p \<and> node_rightmost_pid q' = node_rightmost_pid q"
  using internal_node_split_eq [OF assms] by blast

lemma internal_split_drops_child_witness:
  "\<exists>p' q'. internal_node_split sample_internal (node_init (\<lambda>_. 0) 0) 1 = Inr (p', q') \<and>
     internal_entries p' = [([1], 11)] \<and> internal_entries q' = [([3], 13)] \<and>
     node_rightmost_pid p' = 14 \<and> node_rightmost_pid q' = 0"
proof -
  have "\<not> node_is_leaf (node_init (\<lambda>_. 0) 0)" by (simp add: node_is_leaf_def)
  from internal_split_drops_child [OF sample_internal(1) fresh_node_init this, of 1] show ?thesis
    by (auto simp: sample_internal)
qed

text \<open>\<open>node_insert_internal_cell\<close> at any index and any fresh offset with room inserts the
  key with its child at that index, keeps layout and header, and stays inside the page.\<close>
lemma insert_internal_cell_correct:
  assumes "node_wf p ts" "cells_ok internal_cell_ok p" "unat idx \<le> node_count p" "length key = unat ks"
    and "60 + 4 * node_count p \<le> unat off" "unat off + (16 + unat ks) \<le> unat (node_cell_offset p)"
    and "q = node_insert_internal_cell p off idx key ks child"
  shows "node_wf q ts \<and> cells_ok internal_cell_ok q \<and> node_cell_offset q = off \<and>
    internal_entries q = insert_at (unat idx) (key, child) (internal_entries p) \<and>
    node_flags q = node_flags p \<and> node_rightmost_pid q = node_rightmost_pid p \<and>
    (\<forall>a \<ge> NODE_SIZE. q a = p a)"
  using insert_internal_cell(1-4,6,8,11) [OF assms(1-6), where child = child, folded assms(7)]
    node_layoutD(2) [OF assms(1) [unfolded node_wf_def]] by (meson le_trans)

lemma insert_internal_cell_correct_witness:
  "internal_entries (node_insert_internal_cell (node_init (\<lambda>_. 0) 0) 4076 0 [1] 1 11) = [([1], 11)]"
  using insert_internal_cell_correct [OF node_init_wf, of "\<lambda>_. 0" 0 0 "[1]" 1 4076, OF _ _ _ _ _ refl, where child = 11]
  by (simp add: cells_ok_def internal_entries_def node_view_def insert_at_def)

end
