(* ===== verification/Node_Debug.thy ===== *)
theory Node_Debug
  imports Node_Space
begin

text \<open>
  The debugging output of src/tree/cell.c and src/tree/node.c, with \<open>DEBUG\<close> as configure.h
  defines it.  The model of a call of \<open>LOG\<close> is its format and its arguments; a function that
  prints returns the list of its calls (the newlines that end the formats are left out).  \<open>btree_insert\<close> prints the parent node before it aborts
  for lack of space.
\<close>

section \<open>The code\<close>

text \<open>For \<open>%.*s\<close> the argument is the precision with the bytes that it and the pointer denote.\<close>

datatype log_arg = Log_u32 u32 | Log_u64 u64 | Log_ptr u64 | Log_str string | Log_chars u32 "u8 list"

type_synonym log_call = "string \<times> log_arg list"

text \<open>Pointers are addresses here: the node's address \<open>node\<close> plus the offset \<open>c\<close> of the cell.\<close>

definition debug_cell :: "u64 \<Rightarrow> page \<Rightarrow> nat \<Rightarrow> log_call list" where
  "debug_cell node p c =
     [(''cell %p'', [Log_ptr (node + of_nat c)]),
      (''key_size: %u'', [Log_u32 (cell_key_size p c)]),
      (''total_size: %u'', [Log_u32 (cell_total_size p c)]),
      (''key: %.*s'', [Log_chars (cell_key_size p c) (rd_bytes p (cell_get_key p c) (unat (cell_key_size p c)))])]"

definition debug_node_cell :: "u64 \<Rightarrow> page \<Rightarrow> nat \<Rightarrow> log_call list" where
  "debug_node_cell node p c =
     debug_cell node p c @
     (if node \<noteq> 0
      then (if node_is_leaf p
            then [(''flags: %u'', [Log_u32 (cell_flags p c)]),
                  (''value_size: %u'', [Log_u32 (cell_value_size p c)]),
                  (''value: %.*s'', [Log_chars (cell_value_size p c)
                     (rd_bytes p (leaf_cell_get_value p c) (unat (cell_value_size p c)))])]
            else [(''pid: %p'', [Log_ptr (cell_pid p c)])]) @
           [(''offset: %u'', [Log_u32 (offset_from_cell p c)])]
      else [])"

text \<open>The loop follows a pointer, which is the node's address plus an offset, until it is NULL.\<close>

partial_function (option) debug_tombstone_loop :: "u64 \<Rightarrow> page \<Rightarrow> u64 \<Rightarrow> log_call list option" where
  "debug_tombstone_loop node p cell =
     (if cell \<noteq> 0
      then (let next = node + ucast (cell_next_off p (unat (cell - node)))
            in Option.bind (debug_tombstone_loop node p next) (\<lambda>rest.
                 Some ([(''tombstone: %p'', [Log_ptr cell]),
                        (''tombstone_size: %u'', [Log_u32 (cell_tombstone_size p (unat (cell - node)))]),
                        (''next_off: %p'', [Log_ptr next]),
                        ('''', [])] @ rest)))
      else Some [])"

definition debug_tombstone :: "u64 \<Rightarrow> page \<Rightarrow> log_call list option" where
  "debug_tombstone node p = debug_tombstone_loop node p (node + ucast (node_tombstone_offset p))"

text \<open>\<open>%lu\<close>: \<open>free_bytes\<close> is computed in 64 bits.\<close>

definition debug_header :: "u64 \<Rightarrow> page \<Rightarrow> log_call list" where
  "debug_header node p =
     [(''node type: %s%s'', [Log_str (if node_is_leaf p then ''leaf'' else ''internal''),
         Log_str (if (ucast (node_flags p) :: u32) AND BTREE_NODE_FLAGS_ROOT \<noteq> 0 then '' root'' else '''')]),
      (''node: %p'', [Log_ptr node]),
      (''size: %u'', [Log_u32 (node_size p)]),
      (''tombstone_offset: %u'', [Log_u32 (node_tombstone_offset p)]),
      (''flags: %u'', [Log_u32 (ucast (node_flags p))]),
      (''last_overflow_pid: %p'', [Log_ptr (node_last_overflow_pid p)]),
      (''next_overflow_pid: %p'', [Log_ptr (node_next_overflow_pid p)]),
      (''parent_pid: %p'', [Log_ptr (node_parent p)]),
      (''rightmost_pid: %p'', [Log_ptr (node_rightmost_pid p)]),
      (''tombstone_bytes: %u'', [Log_u32 (node_tombstone_bytes p)]),
      (''cell_offset: %u'', [Log_u32 (node_cell_offset p)]),
      (''free_bytes: %lu'', [Log_u64 (ucast (node_cell_offset p) - (56 + 4 * ucast (node_size p)))])]"

definition debug_cells :: "u64 \<Rightarrow> page \<Rightarrow> log_call list" where
  "debug_cells node p = concat (map (\<lambda>i.
     [(''idx: %u'', [Log_u32 (of_nat i)])] @
     debug_node_cell node p (node_cell_from_ptr p (node_get_cell_ptr p (of_nat i))) @
     [('''', [])]) [0..<unat (node_size p)])"

definition debug_node :: "u64 \<Rightarrow> page \<Rightarrow> bool \<Rightarrow> bool \<Rightarrow> log_call list option" where
  "debug_node node p show_cells show_tombstones =
     (let out = debug_header node p @ (if show_cells then (''cells:'', []) # debug_cells node p else [])
      in if show_tombstones
         then Option.bind (debug_tombstone node p) (\<lambda>rest. Some (out @ (''tombstones:'', []) # rest))
         else Some out)"

section \<open>What is shown\<close>

text \<open>The printed strings, with the precision that printf is given.\<close>

definition shown_chars :: "log_call list \<Rightarrow> u8 list list" where
  "shown_chars out = concat (map (\<lambda>c. case snd c of [Log_chars n bs] \<Rightarrow> [take (unat n) bs] | _ \<Rightarrow> []) out)"

lemma shown_simps [simp]:
  "shown_chars [] = []" "shown_chars (xs @ ys) = shown_chars xs @ shown_chars ys"
  "shown_chars ((f, [Log_chars n bs]) # xs) = take (unat n) bs # shown_chars xs"
  "shown_chars ((f, []) # xs) = shown_chars xs" "shown_chars ((f, [Log_u32 a]) # xs) = shown_chars xs"
  "shown_chars ((f, [Log_u64 b]) # xs) = shown_chars xs" "shown_chars ((f, [Log_ptr b]) # xs) = shown_chars xs"
  "shown_chars ((f, [Log_str c, Log_str d]) # xs) = shown_chars xs"
  by (simp_all add: shown_chars_def)

lemma shown_concat: "shown_chars (concat xs) = concat (map shown_chars xs)"
  by (induction xs) simp_all

lemma shown_cell:
  "shown_chars (debug_node_cell node p c) =
     cell_key p c # (if node \<noteq> 0 \<and> node_is_leaf p then [leaf_cell_value p c] else [])"
  by (simp add: debug_node_cell_def debug_cell_def cell_key_def leaf_cell_value_def)

text \<open>Of a leaf, \<open>debug_node\<close> prints the keys and values of the entries in their order.\<close>

lemma debug_node_shows_leaf:
  assumes "node \<noteq> 0" "node_is_leaf p"
  shows "\<exists>out. debug_node node p True False = Some out \<and>
    shown_chars out = concat (map (\<lambda>(k, v). [k, v]) (leaf_entries p))"
proof -
  have "node_cell_from_ptr p (node_get_cell_ptr p (of_nat i)) = cell_at p i" if "i < unat (node_size p)" for i
  proof -
    have "unat (of_nat i :: u32) = i" using that unat_lt_u32 [of "node_size p"] by (simp add: unat_of_nat_nowrap)
    then show ?thesis by (simp add: node_cell_from_ptr_def node_get_cell_ptr_def node_cells_def node_cell_from_offset_def cell_at_def)
  qed
  then have "shown_chars (debug_cells node p) = concat (map (\<lambda>(k, v). [k, v]) (leaf_entries p))"
    using assms by (simp add: debug_cells_def shown_concat o_def shown_cell leaf_entries_def node_view_def node_count_def
        leaf_entry_def split_def)
      (intro arg_cong [where f = concat] map_cong refl, simp)
  then show ?thesis by (simp add: debug_node_def debug_header_def)
qed

section \<open>The walk over the tombstones\<close>

text \<open>
  The walk tests the pointer, not the offset, so the end of the chain is the node itself and the
  walk goes on: at any address of a node, it never returns.
\<close>

lemma debug_tombstone_loop_ends:
  assumes "debug_tombstone_loop node p c = Some y"
  shows "(\<forall>x :: u32. node + ucast x \<noteq> 0) \<longrightarrow> (\<forall>x :: u32. c \<noteq> node + ucast x)"
proof (rule debug_tombstone_loop.raw_induct [OF _ assms], intro impI allI notI)
  fix loop :: "u64 \<Rightarrow> page \<Rightarrow> u64 \<Rightarrow> log_call list option" and node c p y and x :: u32
  assume IH: "\<And>node p c y. loop node p c = Some y \<Longrightarrow>
      (\<forall>x :: u32. node + ucast x \<noteq> 0) \<longrightarrow> (\<forall>x :: u32. c \<noteq> node + ucast x)"
    and body: "(if c \<noteq> 0
      then (let next = node + ucast (cell_next_off p (unat (c - node)))
            in Option.bind (loop node p next) (\<lambda>rest.
                 Some ([(''tombstone: %p'', [Log_ptr c]),
                        (''tombstone_size: %u'', [Log_u32 (cell_tombstone_size p (unat (c - node)))]),
                        (''next_off: %p'', [Log_ptr next]),
                        ('''', [])] @ rest)))
      else Some []) = Some y"
    and nz: "\<forall>x :: u32. node + ucast x \<noteq> 0" and c: "c = node + ucast x"
  then obtain z where "loop node p (node + ucast (cell_next_off p (unat (c - node)))) = Some z"
    by (auto simp: Let_def bind_eq_Some_conv)
  from IH [OF this] nz show False by blast
qed

lemma debug_tombstone_loop_None:
  assumes base: "0 < unat node" "unat node + 2 ^ 32 \<le> 2 ^ 64"
  shows "debug_tombstone_loop node p (node + ucast (x :: u32)) = None"
proof -
  have "node + ucast (x :: u32) \<noteq> 0" for x
  proof -
    have "unat (node + ucast x) = unat node + unat x"
      using base(2) unat_lt_u32 [of x] by (subst unat_add_nowrap) (simp_all add: unat_ucast_up)
    then show ?thesis using base(1) by (metis unsigned_0 add_is_0 less_irrefl)
  qed
  then show ?thesis using debug_tombstone_loop_ends by (metis option.exhaust)
qed

text \<open>The walk of \<open>debug_node\<close> over the tombstones never returns, for a page with any
  content at any address: the loop tests a pointer that is the node's address plus an offset,
  which is never null.\<close>

lemma debug_node_diverges:
  assumes "0 < unat node" "unat node + 2 ^ 32 \<le> 2 ^ 64"
  shows "debug_node node p show_cells True = None"
  using debug_tombstone_loop_None [OF assms] by (simp add: debug_node_def debug_tombstone_def Let_def)

end
