(* ===== verification/Btree.thy ===== *)
theory Btree
  imports Leaf Node_Debug
begin

text \<open>
  src/tree/btree.c: the tree of nodes.  Node pointers are addresses; the heap maps an
  address to the bytes of its node.  \<open>malloc\<close> is a parameter: given the heap it returns no
  memory or an address with unspecified contents.
\<close>

section \<open>State\<close>

type_synonym node_heap = "u64 \<Rightarrow> page option"
type_synonym malloc = "node_heap \<Rightarrow> (u64 \<times> page) option"

record btree =
  btree_root :: u64
  btree_count :: u32
  btree_heap :: node_heap

definition load_node :: "btree \<Rightarrow> u64 \<Rightarrow> page res" where
  "load_node t a = (case btree_heap t a of None \<Rightarrow> Inl BadPointer | Some p \<Rightarrow> Inr p)"

definition store_node :: "btree \<Rightarrow> u64 \<Rightarrow> page \<Rightarrow> btree" where
  "store_node t a p = t\<lparr>btree_heap := (btree_heap t)(a \<mapsto> p)\<rparr>"

text \<open>The result is the address, 0 for NULL.\<close>

definition btree_node_alloc :: "malloc \<Rightarrow> btree \<Rightarrow> u64 \<times> btree" where
  "btree_node_alloc alloc t =
     (case alloc (btree_heap t) of None \<Rightarrow> (0, t) | Some (a, p) \<Rightarrow> (a, store_node t a p))"

definition btree_init :: "malloc \<Rightarrow> btree \<Rightarrow> (int \<times> btree) res" where
  "btree_init alloc t =
     (let (node, t) = btree_node_alloc alloc t
      in if node = 0 then Inr (-1, t)
         else (let t = t\<lparr>btree_count := 0, btree_root := node\<rparr>
               in bind_res (load_node t node) (\<lambda>p.
                    Inr (0, store_node t node
                       (node_init p (BTREE_NODE_FLAGS_ROOT OR BTREE_NODE_FLAGS_LEAF))))))"

text \<open>The search looks at the root only, and returns NULL whether it finds the key or not.\<close>

definition btree_search :: "btree \<Rightarrow> u8 list \<Rightarrow> u32 \<Rightarrow> nat option res" where
  "btree_search t key key_size =
     bind_res (load_node t (btree_root t)) (\<lambda>p.
     bind_res (node_get_cell p key key_size) (\<lambda>tuple_hdr.
       if tuple_hdr = None then Inr None else Inr None))"

section \<open>Insertion\<close>

text \<open>
  \<open>struct node_breadcrumb\<close>.  The array on the stack has 16 of them; writing a seventeenth is
  \<open>OutOfBounds\<close>.
\<close>

record node_breadcrumb =
  bc_node :: u64
  bc_new_node :: u64
  bc_f_node :: u64
  bc_partition_idx :: u32
  bc_is_full :: bool

text \<open>
  The descent: \<open>slots\<close> is the number of breadcrumbs left, \<open>crumbs\<close> the nodes visited,
  last one first.  \<open>None\<close>: the key was met as a separator.
\<close>

fun btree_descend :: "btree \<Rightarrow> u8 list \<Rightarrow> u32 \<Rightarrow> nat \<Rightarrow> u64 \<Rightarrow> u64 list \<Rightarrow> u64 list option res" where
  "btree_descend t key key_size slots node crumbs =
     bind_res (load_node t node) (\<lambda>p.
       if node_is_leaf p then Inr (Some crumbs)
       else bind_res (loop_res (node_bin_search p key key_size)) (\<lambda>(ret, idx).
         if ret then Inr None
         else bind_res
           (if idx < node_size p then Inr (internal_cell_child p (node_cell_from_idx p idx))
            else assert_res (node_rightmost_pid p \<noteq> 0) (Inr (node_rightmost_pid p))) (\<lambda>child.
             case slots of 0 \<Rightarrow> Inl OutOfBounds
             | Suc slots \<Rightarrow> btree_descend t key key_size slots child (child # crumbs))))"

declare btree_descend.simps [simp del]

text \<open>Preparing the split of the leaf: where the entry will go, and the new node.\<close>

definition prepare_leaf :: "malloc \<Rightarrow> btree \<Rightarrow> u64 \<Rightarrow> u8 list \<Rightarrow> u32 \<Rightarrow> (node_breadcrumb \<times> btree) res" where
  "prepare_leaf alloc t node key key_size =
     bind_res (load_node t node) (\<lambda>p.
       let partition_idx = node_partition_idx p;
           partition = node_cell_from_idx p partition_idx;
           (new_node, t) = btree_node_alloc alloc t
       in assert_res (new_node \<noteq> 0) (bind_res (load_node t new_node) (\<lambda>q.
            let t = store_node t new_node (node_init q BTREE_NODE_FLAGS_LEAF);
                leaf_node = (if key_compare_cell p partition key key_size < 0 then new_node else node)
            in Inr (\<lparr>bc_node = node, bc_new_node = new_node, bc_f_node = leaf_node,
                     bc_partition_idx = partition_idx, bc_is_full = True\<rparr>, t))))"

text \<open>One round of the propagation: does the parent have room for the child's separator?\<close>

definition prepare_internal :: "malloc \<Rightarrow> btree \<Rightarrow> u64 \<Rightarrow> node_breadcrumb \<Rightarrow> (node_breadcrumb \<times> btree) res" where
  "prepare_internal alloc t node child =
     bind_res (load_node t node) (\<lambda>p.
     bind_res (load_node t (bc_node child)) (\<lambda>c.
       let partition_idx = node_partition_idx p;
           partition = node_cell_from_idx p partition_idx;
           child_partition = node_cell_from_idx c (bc_partition_idx child)
       in bind_res (loop_res (node_is_full p (cell_key_size c child_partition) 0)) (\<lambda>full.
            if full
            then (let (new_node, t) = btree_node_alloc alloc t
                  in assert_res (new_node \<noteq> 0) (bind_res (load_node t new_node) (\<lambda>q.
                       let t = store_node t new_node (node_init q 0);
                           f_node = (if key_compare_cell p partition (cell_key c child_partition)
                                          (cell_key_size c child_partition) < 0
                                     then new_node else node)
                       in Inr (\<lparr>bc_node = node, bc_new_node = new_node, bc_f_node = f_node,
                                bc_partition_idx = partition_idx, bc_is_full = True\<rparr>, t))))
            else Inr (\<lparr>bc_node = node, bc_new_node = 0, bc_f_node = node,
                       bc_partition_idx = partition_idx, bc_is_full = False\<rparr>, t))))"

text \<open>
  The propagation goes up while the node below is to be split.  It returns the breadcrumbs from
  the topmost node it reached down to the leaf, and whether that node is the root.
\<close>

fun propagate :: "malloc \<Rightarrow> btree \<Rightarrow> u64 list \<Rightarrow> node_breadcrumb \<Rightarrow> node_breadcrumb list \<Rightarrow>
    (node_breadcrumb list \<times> bool \<times> btree) res" where
  "propagate alloc t [] c below = Inr (c # below, True, t)"
| "propagate alloc t (node # up) c below =
     (if bc_is_full c
      then bind_res (prepare_internal alloc t node c) (\<lambda>(b, t). propagate alloc t up b (c # below))
      else Inr (c # below, False, t))"

definition split_root :: "malloc \<Rightarrow> btree \<Rightarrow> node_breadcrumb \<Rightarrow> btree res" where
  "split_root alloc t b =
     (let node = bc_node b; new_node = bc_new_node b; (new_root, t) = btree_node_alloc alloc t
      in assert_res (new_root \<noteq> 0) (bind_res (load_node t new_root) (\<lambda>r.
         bind_res (load_node t node) (\<lambda>p.
           let r = node_init r BTREE_NODE_FLAGS_ROOT;
               partition = node_cell_from_idx p (bc_partition_idx b);
               (root_offset, r) = node_get_free_offset r (cell_key_size p partition) 0
           in assert_res (root_offset > 0)
             (let r = node_insert_internal_cell r root_offset 0 (cell_key p partition) (cell_key_size p partition) node;
                  t = store_node t new_root (node_set_rightmost_child r new_node)
              in let t = t\<lparr>btree_root := new_root\<rparr>
              in bind_res (load_node t new_node) (\<lambda>q.
                 let t = store_node t new_node (node_set_parent q new_root)
                 in bind_res (load_node t node) (\<lambda>p.
                    Inr (store_node t node (node_unset_root (node_set_parent p new_root))))))))))"

text \<open>The split of the node of a breadcrumb, with the assertions around it.\<close>

definition split_crumb :: "btree \<Rightarrow> u64 \<Rightarrow> node_breadcrumb \<Rightarrow> btree res" where
  "split_crumb t leaf_node b =
     bind_res (load_node t (bc_node b)) (\<lambda>p.
       if \<not> bc_is_full b then Inr t
       else bind_res (load_node t (bc_new_node b)) (\<lambda>q.
         let before_len = node_size p; partition_idx = bc_partition_idx b
         in assert_res (partition_idx \<le> node_size p)
           (if node_is_leaf p
            then assert_res (node_is_leaf q)
              (bind_res (leaf_node_split p q partition_idx) (\<lambda>(p, q).
                 assert_res (leaf_node = bc_node b \<or> leaf_node = bc_new_node b)
                 (assert_res (before_len = node_size p + node_size q)
                   (Inr (store_node (store_node t (bc_node b) p) (bc_new_node b) q)))))
            else assert_res (\<not> node_is_leaf q)
              (bind_res (internal_node_split p q partition_idx) (\<lambda>(p, q).
                 assert_res (before_len - 1 = node_size p + node_size q)
                   (Inr (store_node (store_node t (bc_node b) p) (bc_new_node b) q)))))))"

text \<open>
  Linking the two halves of the child under \<open>f_node\<close>: the entry that pointed to the child now
  points to the new node, and the separator with the old node is inserted before it.  When no
  place is found the debugging output comes first.
\<close>

definition link_child :: "btree \<Rightarrow> node_breadcrumb \<Rightarrow> node_breadcrumb \<Rightarrow> btree res" where
  "link_child t b child =
     bind_res (load_node t (bc_f_node b)) (\<lambda>f.
     bind_res (load_node t (bc_node child)) (\<lambda>c.
       let child_partition = node_cell_from_idx c (bc_partition_idx child);
           sep = cell_key c child_partition; sep_size = cell_key_size c child_partition
       in bind_res (loop_res (node_bin_search f sep sep_size)) (\<lambda>(ret, idx).
          let f = (if idx < node_size f
                   then set_cell_pid f (node_cell_from_idx f idx) (bc_new_node child)
                   else node_set_rightmost_child f (bc_new_node child));
              (off, f) = node_get_free_offset f sep_size 0
          in if off = 0
             then bind_res (loop_res (debug_node (bc_f_node b) f True True)) (\<lambda>_. Inl AssertFail)
             else Inr (store_node t (bc_f_node b)
                    (node_insert_internal_cell f off idx sep sep_size (bc_node child))))))"

fun write_down :: "btree \<Rightarrow> u64 \<Rightarrow> node_breadcrumb list \<Rightarrow> btree res" where
  "write_down t leaf_node [] = Inr t"
| "write_down t leaf_node (b # bs) =
     bind_res (split_crumb t leaf_node b) (\<lambda>t.
     bind_res (load_node t (bc_node b)) (\<lambda>p.
       if node_is_leaf p then write_down t leaf_node bs
       else case bs of [] \<Rightarrow> Inl OutOfBounds
            | child # _ \<Rightarrow> bind_res (link_child t b child) (\<lambda>t. write_down t leaf_node bs)))"

definition btree_insert_leaf :: "btree \<Rightarrow> u64 \<Rightarrow> u8 list \<Rightarrow> u32 \<Rightarrow> u8 list \<Rightarrow> u32 \<Rightarrow> (int \<times> btree) res" where
  "btree_insert_leaf t leaf_node key key_size val value_size =
     bind_res (load_node t leaf_node) (\<lambda>p.
       let (off, p) = node_get_free_offset p key_size value_size
       in assert_res (off > 0) (bind_res (loop_res (node_bin_search p key key_size)) (\<lambda>(ret, idx).
            let t = store_node t leaf_node (node_insert_leaf_cell p off idx key key_size val value_size)
            in Inr (0, t\<lparr>btree_count := btree_count t + 1\<rparr>))))"

definition btree_insert :: "malloc \<Rightarrow> btree \<Rightarrow> u8 list \<Rightarrow> u32 \<Rightarrow> u8 list \<Rightarrow> u32 \<Rightarrow> (int \<times> btree) res" where
  "btree_insert alloc t key key_size val value_size =
     bind_res (btree_descend t key key_size 15 (btree_root t) [btree_root t]) (\<lambda>path.
       case path of None \<Rightarrow> Inr (1, t)
       | Some [] \<Rightarrow> Inl OutOfBounds
       | Some (node # up) \<Rightarrow>
           bind_res (load_node t node) (\<lambda>p.
           bind_res (loop_res (node_is_full p key_size value_size)) (\<lambda>full.
             if full
             then bind_res (prepare_leaf alloc t node key key_size) (\<lambda>(c, t).
                  bind_res (propagate alloc t up c []) (\<lambda>(bs, at_root, t).
                  bind_res (if at_root \<and> bc_is_full (hd bs) then split_root alloc t (hd bs) else Inr t) (\<lambda>t.
                  bind_res (write_down t (bc_f_node c) bs) (\<lambda>t.
                    btree_insert_leaf t (bc_f_node c) key key_size val value_size))))
             else btree_insert_leaf t node key key_size val value_size)))"

end
