(* ===== verification/Btree_Tree.thy ===== *)
theory Btree_Tree
  imports Btree
begin

text \<open>
  The tree that a heap of nodes stands for, and insertion without splits: the descent reaches
  the leaf whose separators bracket the key, and the in-order sequence of the tree gains exactly
  the new entry.
\<close>

section \<open>Trees and their in-order sequence\<close>

text \<open>
  A node of the tree is a leaf with its entries or an inner node with n separators and n + 1
  children; the last child is the one of \<open>rightmost_pid\<close>.
\<close>

datatype bt = Tip u64 "(u8 list \<times> u8 list) list" | Fork u64 "u8 list list" "bt list"

datatype item = Sep dbkey | Ent "u8 list" "u8 list"

fun item_key :: "item \<Rightarrow> dbkey" where
  "item_key (Sep k) = k"
| "item_key (Ent k v) = DBKey k"

text \<open>A separator may equal the key of an entry behind it: the first entry of a right half.\<close>

fun item_lt :: "item \<Rightarrow> item \<Rightarrow> bool" where
  "item_lt (Sep a) (Ent k v) \<longleftrightarrow> a \<le> DBKey k"
| "item_lt x y \<longleftrightarrow> item_key x < item_key y"

lemma item_lt_trans: "item_lt x y \<Longrightarrow> item_lt y z \<Longrightarrow> item_lt x z"
  by (cases x; cases y; cases z) auto

lemma item_lt_sep: "item_key x < a \<Longrightarrow> a < DBKey k \<Longrightarrow> item_lt x (Ent k v)"
  by (cases x) auto

lemma item_lt_ent: "DBKey k < a \<Longrightarrow> item_lt (Sep a) y \<Longrightarrow> DBKey k < item_key y"
  by (cases y) auto

definition weave :: "'a list list \<Rightarrow> 'a list \<Rightarrow> 'a list" where
  "weave xss ks = hd xss @ concat (map2 (\<lambda>k xs. k # xs) ks (tl xss))"

definition weave_pre :: "nat \<Rightarrow> 'a list list \<Rightarrow> 'a list \<Rightarrow> 'a list" where
  "weave_pre i xss ks = concat (map2 (\<lambda>xs k. xs @ [k]) (take i xss) (take i ks))"

definition weave_post :: "nat \<Rightarrow> 'a list list \<Rightarrow> 'a list \<Rightarrow> 'a list" where
  "weave_post i xss ks = concat (map2 (\<lambda>k xs. k # xs) (drop i ks) (drop (Suc i) xss))"

lemma weave_split:
  "length xss = Suc (length ks) \<Longrightarrow> i \<le> length ks \<Longrightarrow>
     weave xss ks = weave_pre i xss ks @ xss ! i @ weave_post i xss ks"
proof (induction i arbitrary: xss ks)
  case 0
  then show ?case by (cases xss) (simp_all add: weave_def weave_pre_def weave_post_def drop_Suc)
next
  case (Suc i)
  obtain k ks' where ks: "ks = k # ks'" using Suc.prems(2) by (cases ks) auto
  obtain x xs where x: "xss = x # xs" "length xs = Suc (length ks')" using Suc.prems(1) ks by (cases xss) auto
  have "weave xss ks = x @ k # weave xs ks'" using x by (cases xs) (simp_all add: weave_def ks)
  also have "weave xs ks' = weave_pre i xs ks' @ xs ! i @ weave_post i xs ks'"
    using Suc.IH [of xs ks'] Suc.prems(2) x(2) by (simp add: ks)
  finally show ?case by (simp add: weave_pre_def weave_post_def ks x(1))
qed

lemma weave_update:
  assumes "length xss = Suc (length ks)" "i \<le> length ks"
  shows "weave (xss[i := ys]) ks = weave_pre i xss ks @ ys @ weave_post i xss ks"
  using weave_split [of "xss[i := ys]" ks i] assms by (simp add: weave_pre_def weave_post_def)

lemma weave_pre_last:
  assumes "length xss = Suc (length ks)" "Suc i \<le> length ks"
  shows "weave_pre (Suc i) xss ks = weave_pre i xss ks @ xss ! i @ [ks ! i]"
  using assms by (simp add: weave_pre_def take_Suc_conv_app_nth)

lemma weave_post_first:
  assumes "length xss = Suc (length ks)" "i < length ks"
  shows "weave_post i xss ks = ks ! i # xss ! Suc i @ weave_post (Suc i) xss ks"
  using assms by (simp add: weave_post_def Cons_nth_drop_Suc [symmetric])

primrec addr_of :: "bt \<Rightarrow> u64" where
  "addr_of (Tip a xs) = a"
| "addr_of (Fork a ks bs) = a"

primrec inorder :: "bt \<Rightarrow> item list" where
  "inorder (Tip a xs) = map (\<lambda>(k, v). Ent k v) xs"
| "inorder (Fork a ks bs) = weave (map inorder bs) (map (Sep \<circ> DBKey) ks)"

primrec addrs :: "bt \<Rightarrow> u64 list" where
  "addrs (Tip a xs) = [a]"
| "addrs (Fork a ks bs) = a # concat (map addrs bs)"

text \<open>At most \<open>n\<close> inner nodes on every path.\<close>

primrec levels :: "bt \<Rightarrow> nat \<Rightarrow> bool" where
  "levels (Tip a xs) = (\<lambda>n. True)"
| "levels (Fork a ks bs) = (\<lambda>n. 0 < n \<and> list_all (\<lambda>f. f (n - 1)) (map levels bs))"

fun ent_of :: "item \<Rightarrow> (u8 list \<times> u8 list) list" where
  "ent_of (Sep k) = []"
| "ent_of (Ent k v) = [(k, v)]"

definition entries :: "bt \<Rightarrow> (u8 list \<times> u8 list) list" where
  "entries b = concat (map ent_of (inorder b))"

section \<open>Representation in the heap\<close>

definition leaf_node :: "node_heap \<Rightarrow> u64 \<Rightarrow> (u8 list \<times> u8 list) list \<Rightarrow> bool" where
  "leaf_node h a xs \<longleftrightarrow> (\<exists>p. h a = Some p \<and> leaf_ok p \<and> leaf_entries p = xs)"

definition inner_node :: "node_heap \<Rightarrow> u64 \<Rightarrow> u8 list list \<Rightarrow> u64 list \<Rightarrow> bool" where
  "inner_node h a ks cs \<longleftrightarrow>
     (\<exists>p ts. h a = Some p \<and> internal_inv p ts \<and> length cs = Suc (length ks) \<and>
        internal_entries p = zip ks cs \<and> node_rightmost_pid p = last cs \<and> last cs \<noteq> 0)"

primrec represents :: "bt \<Rightarrow> node_heap \<Rightarrow> bool" where
  "represents (Tip a xs) = (\<lambda>h. leaf_node h a xs)"
| "represents (Fork a ks bs) = (\<lambda>h. inner_node h a ks (map addr_of bs) \<and> list_all (\<lambda>f. f h) (map represents bs))"

definition tree_inv :: "bt \<Rightarrow> btree \<Rightarrow> bool" where
  "tree_inv b t \<longleftrightarrow> represents b (btree_heap t) \<and> addr_of b = btree_root t \<and>
     sorted_wrt item_lt (inorder b) \<and> distinct (addrs b)"

lemma addr_of_addrs [simp]: "addr_of b \<in> set (addrs b)"
  by (cases b) simp_all

lemma represents_frame:
  "represents b h \<Longrightarrow> \<forall>a \<in> set (addrs b). h' a = h a \<Longrightarrow> represents b h'"
proof (induction b)
  case (Tip a xs)
  then show ?case by (simp add: leaf_node_def)
next
  case (Fork a ks bs)
  then show ?case by (auto simp: inner_node_def list_all_iff)
qed

lemma ent_of_key: "(k, v) \<in> set (ent_of y) \<Longrightarrow> item_key y = DBKey k"
  by (cases y) simp_all

lemma entries_sorted:
  assumes "sorted_wrt item_lt (inorder b)"
  shows "sorted_wrt (<) (map (DBKey \<circ> fst) (entries b))"
proof -
  have "sorted_wrt (<) (map (DBKey \<circ> fst) (concat (map ent_of xs)))" if "sorted_wrt item_lt xs" for xs
    using that
  proof (induction xs)
    case (Cons x xs)
    have "\<forall>y \<in> set (concat (map ent_of xs)). DBKey k < DBKey (fst y)" if "x = Ent k v" for k v
      using Cons.prems that by (fastforce dest: ent_of_key)
    with Cons show ?case by (cases x) auto
  qed simp
  then show ?thesis using assms by (simp add: entries_def)
qed

section \<open>The descent\<close>

lemma inner_search:
  assumes "internal_inv p ts" "internal_entries p = zip ks cs" "length cs = Suc (length ks)" "key_arg key n"
  defines "i \<equiv> lower_bound (map DBKey ks) (DBKey key)"
  shows "node_count p = length ks" "i \<le> length ks"
    "node_bin_search p key n = Some (key \<in> set ks, of_nat i)" "unat (of_nat i :: u32) = i"
proof -
  note s = search_inv_internal [OF assms(1)]
  have len: "node_count p = length (zip ks cs)" using assms(2) by (metis length_entries(2))
  then show "node_count p = length ks" using assms(3) by simp
  have "map fst (zip ks cs) = ks" using assms(3) by (simp add: map_fst_zip_take)
  then have "map DBKey (map fst (internal_entries p)) = map DBKey ks" using assms(2) by simp
  then have k: "node_keys p = map DBKey ks" by (simp add: node_keys_internal comp_def)
  show "i \<le> length ks" using lower_bound_le [of "map DBKey ks" "DBKey key"] by (simp add: i_def)
  show "node_bin_search p key n = Some (key \<in> set ks, of_nat i)"
    by (simp add: node_bin_search_eq [OF s assms(4)] k i_def image_iff)
  show "unat (of_nat i :: u32) = i" unfolding i_def k [symmetric] by (rule unat_lower_bound [OF s])
qed

lemma descend_inner:
  assumes "inner_node (btree_heap t) a ks cs" "key_arg key n"
  shows "btree_descend t key n slots a crumbs =
    (if key \<in> set ks then Inr None
     else let c = cs ! lower_bound (map DBKey ks) (DBKey key) in
       case slots of 0 \<Rightarrow> Inl OutOfBounds | Suc s \<Rightarrow> btree_descend t key n s c (c # crumbs))"
proof -
  let ?i = "lower_bound (map DBKey ks) (DBKey key)"
  obtain p ts where p: "btree_heap t a = Some p" "internal_inv p ts" "length cs = Suc (length ks)"
      "internal_entries p = zip ks cs" "node_rightmost_pid p = last cs" "last cs \<noteq> 0"
    using assms(1) by (auto simp: inner_node_def)
  note s = inner_search [OF p(2,4,3) assms(2)]
  have child: "(if of_nat ?i < node_size p then Inr (internal_cell_child p (node_cell_from_idx p (of_nat ?i)))
      else assert_res (node_rightmost_pid p \<noteq> 0) (Inr (node_rightmost_pid p))) = (Inr (cs ! ?i) :: u64 res)"
  proof (cases "?i < length ks")
    case True
    then have "internal_entry p (cell_at p ?i) = (ks ! ?i, cs ! ?i)"
      using s(1) p(3,4) by (metis internal_entries_def node_view_nth nth_zip less_SucI)
    then show ?thesis
      using True s by (simp add: word_less_nat_alt node_count_def internal_cell_child_def cell_from_idx_at internal_entry_def)
  next
    case False
    then have "?i = length ks" using s(2) by simp
    moreover have "cs ! length ks = last cs" using p(3) by (metis last_conv_nth length_0_conv nat.distinct(1) diff_Suc_1)
    ultimately show ?thesis
      using s p(5,6) by (simp add: word_less_nat_alt node_count_def)
  qed
  have "\<not> node_is_leaf p" using p(2) by (simp add: internal_inv_def)
  then show ?thesis
    using child by (subst btree_descend.simps) (simp add: load_node_def p(1) s(3) Let_def)
qed

lemma descend_leaf:
  assumes "leaf_node (btree_heap t) a xs"
  shows "btree_descend t key n slots a crumbs = Inr (Some crumbs)"
  using assms by (subst btree_descend.simps) (auto simp: leaf_node_def load_node_def leaf_ok_def leaf_inv_def)

text \<open>
  What the descent finds: the leaf \<open>la\<close> with the entries \<open>xs\<close>, everything before them in
  order below the key, everything behind above it, and a hole in which the leaf can be replaced.
\<close>

definition hole :: "bt \<Rightarrow> node_heap \<Rightarrow> u64 \<Rightarrow> (u8 list \<times> u8 list) list \<Rightarrow> item list \<Rightarrow> item list \<Rightarrow> bool" where
  "hole b h la xs pre post \<longleftrightarrow>
     leaf_node h la xs \<and> la \<in> set (addrs b) \<and> inorder b = pre @ map (\<lambda>(k, v). Ent k v) xs @ post \<and>
     (\<forall>h' ys. (\<forall>a. a \<noteq> la \<longrightarrow> h' a = h a) \<longrightarrow> leaf_node h' la ys \<longrightarrow>
        (\<exists>b'. represents b' h' \<and> addr_of b' = addr_of b \<and> addrs b' = addrs b \<and> levels b' = levels b \<and>
              inorder b' = pre @ map (\<lambda>(k, v). Ent k v) ys @ post))"

lemma distinct_concat_nth:
  "distinct (concat xss) \<Longrightarrow> i < length xss \<Longrightarrow> j < length xss \<Longrightarrow> i \<noteq> j \<Longrightarrow> set (xss ! i) \<inter> set (xss ! j) = {}"
proof (induction xss arbitrary: i j)
  case (Cons xs xss)
  have "set xs \<inter> set (xss ! k) = {}" if "k < length xss" for k
    using Cons.prems(1) nth_mem [OF that] by auto
  then show ?case using Cons by (cases i; cases j) auto
qed simp

lemma hole_Fork:
  assumes rep: "represents (Fork a ks bs) h" and i: "i < length bs" and hole: "hole (bs ! i) h la xs pre post"
    and dist: "distinct (addrs (Fork a ks bs))"
  shows "hole (Fork a ks bs) h la xs (weave_pre i (map inorder bs) (map (Sep \<circ> DBKey) ks) @ pre)
    (post @ weave_post i (map inorder bs) (map (Sep \<circ> DBKey) ks))"
proof -
  let ?ks = "map (Sep \<circ> DBKey) ks"
  have len: "length (map inorder bs) = Suc (length ?ks)" using rep by (auto simp: inner_node_def)
  have ile: "i \<le> length ?ks" using len i by simp
  have la: "la \<in> set (addrs (bs ! i))" using hole by (simp add: hole_def)
  have other: "la \<noteq> a \<and> (\<forall>j < length bs. j \<noteq> i \<longrightarrow> la \<notin> set (addrs (bs ! j)))"
  proof -
    have "la \<in> set (concat (map addrs bs))" using la i by (auto intro: nth_mem)
    then have "la \<noteq> a" using dist by auto
    moreover have "la \<notin> set (addrs (bs ! j))" if "j < length bs" "j \<noteq> i" for j
    proof -
      have "distinct (concat (map addrs bs))" using dist by simp
      then have "set (map addrs bs ! i) \<inter> set (map addrs bs ! j) = {}"
        using that i by (intro distinct_concat_nth) simp_all
      then show ?thesis using la that i by auto
    qed
    ultimately show ?thesis by blast
  qed
  have "\<exists>b'. represents b' h' \<and> addr_of b' = a \<and> addrs b' = addrs (Fork a ks bs) \<and> levels b' = levels (Fork a ks bs) \<and>
      inorder b' = (weave_pre i (map inorder bs) ?ks @ pre) @ map (\<lambda>(k, v). Ent k v) ys @ post @ weave_post i (map inorder bs) ?ks"
    if h': "\<forall>c. c \<noteq> la \<longrightarrow> h' c = h c" "leaf_node h' la ys" for h' ys
  proof -
    obtain b' where b': "represents b' h'" "addr_of b' = addr_of (bs ! i)" "addrs b' = addrs (bs ! i)" "levels b' = levels (bs ! i)"
        "inorder b' = pre @ map (\<lambda>(k, v). Ent k v) ys @ post"
      using hole h' unfolding hole_def by blast
    have "represents (bs ! j) h'" if "j < length bs" "j \<noteq> i" for j
    proof (rule represents_frame)
      show "represents (bs ! j) h" using rep that(1) by (simp add: list_all_length)
      show "\<forall>c \<in> set (addrs (bs ! j)). h' c = h c" using other that h'(1) by metis
    qed
    then have "list_all (\<lambda>f. f h') (map represents (bs[i := b']))"
      using b'(1) i by (auto simp: list_all_length nth_list_update)
    moreover have "map addr_of (bs[i := b']) = map addr_of bs" "map addrs (bs[i := b']) = map addrs bs"
        "map levels (bs[i := b']) = map levels bs"
      using b'(2-4) i by (simp_all add: map_update list_update_same_conv)
    moreover have "inner_node h' a ks (map addr_of bs)"
      using rep other h'(1) by (auto simp: inner_node_def)
    moreover have "map inorder (bs[i := b']) = (map inorder bs)[i := pre @ map (\<lambda>(k, v). Ent k v) ys @ post]"
      using b'(5) by (simp add: map_update)
    ultimately show ?thesis
      by (intro exI [of _ "Fork a ks (bs[i := b'])"]) (simp add: weave_update [OF len ile])
  qed
  moreover have "la \<in> set (addrs (Fork a ks bs))" using la i by (auto intro: nth_mem)
  moreover have "inorder (Fork a ks bs) = (weave_pre i (map inorder bs) ?ks @ pre) @
      map (\<lambda>(k, v). Ent k v) xs @ post @ weave_post i (map inorder bs) ?ks"
    using hole i weave_split [OF len ile] by (simp add: hole_def)
  ultimately show ?thesis
    using hole unfolding hole_def addr_of.simps by blast
qed

text \<open>The separators of an ordered sequence ascend.\<close>

lemma weave_Cons: "xs \<noteq> [] \<Longrightarrow> weave (x # xs) (k # ks) = x @ k # weave xs ks"
  by (cases xs) (simp_all add: weave_def)

lemma sorted_weave_keys:
  assumes "length xss = Suc (length ks)" "sorted_wrt item_lt (weave xss ks)"
  shows "sorted_wrt item_lt ks \<and> set ks \<subseteq> set (weave xss ks)"
  using assms
proof (induction ks arbitrary: xss)
  case (Cons k ks)
  obtain x xs where x: "xss = x # xs" "length xs = Suc (length ks)" using Cons.prems(1) by (cases xss) auto
  then have w: "weave xss (k # ks) = x @ k # weave xs ks" by (simp add: weave_Cons flip: length_greater_0_conv)
  show ?case using Cons.IH [OF x(2)] Cons.prems(2) unfolding w by (auto simp: sorted_wrt_append)
qed simp

lemma weave_bounds:
  fixes ks :: "u8 list list"
  assumes len: "length xss = Suc (length ks)" and sorted: "sorted_wrt item_lt (weave xss (map (Sep \<circ> DBKey) ks))"
    and new: "key \<notin> set ks"
  defines "i \<equiv> lower_bound (map DBKey ks) (DBKey key)"
  shows "\<forall>x \<in> set (weave_pre i xss (map (Sep \<circ> DBKey) ks)). item_lt x (Ent key val)"
    "\<forall>y \<in> set (weave_post i xss (map (Sep \<circ> DBKey) ks)). item_lt (Ent key val) y"
proof -
  let ?ks = "map (Sep \<circ> DBKey) ks"
  have len': "length xss = Suc (length ?ks)" and i: "i \<le> length ?ks"
    using len lower_bound_le [of "map DBKey ks" "DBKey key"] by (simp_all add: i_def)
  have dec: "sorted_wrt item_lt (weave_pre i xss ?ks @ xss ! i @ weave_post i xss ?ks)"
    using sorted weave_split [OF len' i] by simp
  show "\<forall>x \<in> set (weave_pre i xss ?ks). item_lt x (Ent key val)"
  proof (cases i)
    case 0
    then show ?thesis by (simp add: weave_pre_def)
  next
    case (Suc j)
    then have j: "Suc j \<le> length ?ks" using i by simp
    note p = weave_pre_last [OF len' j]
    have lt: "DBKey (ks ! j) < DBKey key"
      using lower_bound_below [of j "map DBKey ks" "DBKey key"] j Suc by (simp add: i_def)
    have "\<forall>x \<in> set (weave_pre j xss ?ks @ xss ! j). item_lt x (Sep (DBKey (ks ! j)))"
      using dec j unfolding Suc p by (auto simp: sorted_wrt_append)
    then show ?thesis using lt j unfolding Suc p by (auto intro: item_lt_sep)
  qed
  show "\<forall>y \<in> set (weave_post i xss ?ks). item_lt (Ent key val) y"
  proof (cases "i < length ks")
    case False
    then show ?thesis by (simp add: weave_post_def)
  next
    case True
    then have i': "i < length ?ks" by simp
    note p = weave_post_first [OF len' i']
    have asc: "sorted_wrt (<) (map DBKey ks)"
      using sorted_weave_keys [OF len'] sorted by (simp add: sorted_wrt_map)
    have "DBKey key < map DBKey ks ! i"
      using lower_bound_above_strict [OF asc, of "DBKey key" i] new True by (auto simp: i_def)
    then have lt: "DBKey key < DBKey (ks ! i)" using True by simp
    have "\<forall>y \<in> set (xss ! Suc i @ weave_post (Suc i) xss ?ks). item_lt (Sep (DBKey (ks ! i))) y"
      using dec i' unfolding p by (auto simp: sorted_wrt_append)
    then show ?thesis using lt i' unfolding p by (auto intro: item_lt_ent)
  qed
qed

lemma descend_tree:
  assumes "represents b (btree_heap t)" "levels b slots" "sorted_wrt item_lt (inorder b)" "distinct (addrs b)"
    and "key_arg key n"
  shows "(btree_descend t key n slots (addr_of b) (addr_of b # up) = Inr None \<and> Sep (DBKey key) \<in> set (inorder b)) \<or>
    (\<exists>la path xs pre post. btree_descend t key n slots (addr_of b) (addr_of b # up) = Inr (Some (la # path)) \<and>
       hole b (btree_heap t) la xs pre post \<and>
       (\<forall>x \<in> set pre. item_lt x (Ent key val)) \<and> (\<forall>y \<in> set post. item_lt (Ent key val) y))"
  using assms
proof (induction b arbitrary: slots up)
  case (Tip a xs)
  have "hole (Tip a xs) (btree_heap t) a xs [] []"
    using Tip.prems(1) unfolding hole_def
    by (auto intro!: exI [of _ "Tip a ys" for ys])
  then show ?case
    using Tip.prems(1) descend_leaf [of t a xs key n slots "a # up"]
    by (intro disjI2 exI [of _ a] exI [of _ up] exI [of _ xs] exI [of _ "[]"]) simp
next
  case (Fork a ks bs)
  let ?i = "lower_bound (map DBKey ks) (DBKey key)" and ?ks = "map (Sep \<circ> DBKey) ks"
  have inner: "inner_node (btree_heap t) a ks (map addr_of bs)" using Fork.prems(1) by simp
  then have len: "length bs = Suc (length ks)" by (auto simp: inner_node_def)
  have i: "?i < length bs" using lower_bound_le [of "map DBKey ks" "DBKey key"] len by simp
  obtain s where s: "slots = Suc s" "levels (bs ! ?i) s"
    using Fork.prems(2) i by (cases slots) (auto simp: list_all_length)
  note d = descend_inner [OF inner Fork.prems(5), of slots "a # up", unfolded s(1) Let_def]
  have lenx: "length (map inorder bs) = Suc (length ks)" "length (map inorder bs) = Suc (length ?ks)" using len by simp_all
  have sorted: "sorted_wrt item_lt (weave (map inorder bs) ?ks)" using Fork.prems(3) by simp
  show ?case
  proof (cases "key \<in> set ks")
    case True
    then have "Sep (DBKey key) \<in> set ?ks" by auto
    then have "Sep (DBKey key) \<in> set (weave (map inorder bs) ?ks)"
      using sorted_weave_keys [OF lenx(2) sorted] by blast
    then show ?thesis using d True s(1) by simp
  next
    case False
    let ?b = "bs ! ?i"
    have ile: "?i \<le> length ?ks" using i len by simp
    have eq: "btree_descend t key n slots (addr_of (Fork a ks bs)) (addr_of (Fork a ks bs) # up) =
        btree_descend t key n s (addr_of ?b) (addr_of ?b # a # up)"
      using d False i s(1) by simp
    have sub: "sorted_wrt item_lt (inorder ?b)"
      using sorted i unfolding weave_split [OF lenx(2) ile] by (simp add: sorted_wrt_append)
    have "set (addrs ?b) \<subseteq> set (concat (map addrs bs))" using i by (auto intro: nth_mem)
    have db: "distinct (addrs ?b)"
      using Fork.prems(4) i by (auto simp: distinct_concat_iff)
    have rb: "represents ?b (btree_heap t)" using Fork.prems(1) i by (simp add: list_all_length)
    note bounds = weave_bounds [OF lenx(1) sorted False, where val = val]
    from Fork.IH [OF nth_mem [OF i] rb s(2) sub db Fork.prems(5), of "a # up"] show ?thesis
    proof
      assume h: "btree_descend t key n s (addr_of ?b) (addr_of ?b # a # up) = Inr None \<and> Sep (DBKey key) \<in> set (inorder ?b)"
      then have "Sep (DBKey key) \<in> set (inorder (Fork a ks bs))"
        using i weave_split [OF lenx(2) ile] by simp
      then show ?thesis using h unfolding eq by simp
    next
      assume "\<exists>la path xs pre post. btree_descend t key n s (addr_of ?b) (addr_of ?b # a # up) = Inr (Some (la # path)) \<and>
       hole ?b (btree_heap t) la xs pre post \<and>
       (\<forall>x \<in> set pre. item_lt x (Ent key val)) \<and> (\<forall>y \<in> set post. item_lt (Ent key val) y)"
      then obtain la path xs pre post where h: "btree_descend t key n s (addr_of ?b) (addr_of ?b # a # up) = Inr (Some (la # path))"
        "hole ?b (btree_heap t) la xs pre post"
        "\<forall>x \<in> set pre. item_lt x (Ent key val)" "\<forall>y \<in> set post. item_lt (Ent key val) y" by blast
      note hf = hole_Fork [OF Fork.prems(1) i h(2) Fork.prems(4)]
      show ?thesis
        unfolding eq using h(1,3,4) hf bounds
        by (intro disjI2 exI [of _ la] exI [of _ path] exI [of _ xs] exI conjI) (assumption | auto)+
    qed
  qed
qed

text \<open>In a tree that is deeper than the breadcrumbs the descent runs off their end.\<close>

primrec deep :: "bt \<Rightarrow> nat \<Rightarrow> bool" where
  "deep (Tip a xs) = (\<lambda>n. n = 0)"
| "deep (Fork a ks bs) = (\<lambda>n. n = 0 \<or> list_all (\<lambda>f. f (n - 1)) (map deep bs))"

lemma weave_set:
  "length xss = Suc (length ks) \<Longrightarrow> set (weave xss ks) = set ks \<union> (\<Union>xs \<in> set xss. set xs)"
proof (induction ks arbitrary: xss)
  case Nil
  then show ?case by (cases xss) (simp_all add: weave_def)
next
  case (Cons k ks)
  then obtain xs yss where "xss = xs # yss" "length yss = Suc (length ks)" by (cases xss) auto
  moreover from this have "yss \<noteq> []" by auto
  ultimately show ?case using Cons.IH by (auto simp: weave_Cons)
qed

lemma descend_deep:
  assumes "represents b (btree_heap t)" "deep b (Suc slots)" "key_arg key n"
  shows "btree_descend t key n slots (addr_of b) crumbs = Inl OutOfBounds \<or>
    btree_descend t key n slots (addr_of b) crumbs = Inr None \<and> Sep (DBKey key) \<in> set (inorder b)"
  using assms
proof (induction b arbitrary: slots crumbs)
  case (Tip a xs)
  then show ?case by simp
next
  case (Fork a ks bs)
  let ?i = "lower_bound (map DBKey ks) (DBKey key)"
  have inner: "inner_node (btree_heap t) a ks (map addr_of bs)" using Fork.prems(1) by simp
  then have len: "length bs = Suc (length ks)" by (auto simp: inner_node_def)
  then have i: "?i < length bs" using lower_bound_le [of "map DBKey ks" "DBKey key"] by simp
  note d = descend_inner [OF inner Fork.prems(3), of slots crumbs]
  have "length (map inorder bs) = Suc (length (map (Sep \<circ> DBKey) ks))" using len by simp
  note w = weave_set [OF this]
  have sep: "Sep (DBKey key) \<in> set (inorder (Fork a ks bs))" if "key \<in> set ks \<or> Sep (DBKey key) \<in> set (inorder (bs ! ?i))"
    using that w nth_mem [OF i] by auto
  show ?case
  proof (cases slots)
    case 0
    then show ?thesis using d sep by (simp add: Let_def)
  next
    case (Suc s)
    have "represents (bs ! ?i) (btree_heap t)" "deep (bs ! ?i) (Suc s)"
      using Fork.prems(1,2) i Suc by (simp_all add: list_all_length)
    from Fork.IH [OF nth_mem [OF i] this Fork.prems(3)] show ?thesis
      using d i Suc sep by (auto simp: Let_def)
  qed
qed

section \<open>Insertion without a split\<close>

lemma insert_leaf_room:
  assumes h: "leaf_node (btree_heap t) la xs" and arg: "length key = unat ks" "length val = unat vs"
    and room: "\<And>p. btree_heap t la = Some p \<Longrightarrow> fresh_room p (unat ks + unat vs)"
    and new: "key \<notin> fst ` set xs"
  shows "\<exists>q. btree_insert_leaf t la key ks val vs =
        Inr (0, (store_node t la q)\<lparr>btree_count := btree_count t + 1\<rparr>) \<and> leaf_ok q \<and>
      leaf_entries q = insert_at (lower_bound (map (DBKey \<circ> fst) xs) (DBKey key)) (key, val) xs \<and>
      (\<forall>p. btree_heap t la = Some p \<longrightarrow> node_is_full p ks vs = Some False)"
proof -
  obtain p ts where p: "btree_heap t la = Some p" "leaf_inv p ts" "leaf_entries p = xs"
    using h by (auto simp: leaf_node_def leaf_ok_def)
  have lay: "node_layout p [0..<node_count p] ts" using p(2) by (simp add: leaf_inv_def node_wf_def)
  note r = fresh_room_offset [OF lay room [OF p(1)]]
  have karg: "key_arg key ks" using r(4) arg(1) by (simp add: key_arg_def)
  have keys: "node_keys p = map (DBKey \<circ> fst) xs" by (simp add: node_keys_leaf p(3))
  have nk: "DBKey key \<notin> set (node_keys p)" using new by (auto simp: keys)
  note s = search_inv_leaf [OF p(2)]
  let ?idx = "of_nat (lower_bound (node_keys p) (DBKey key)) :: u32"
  let ?q = "node_insert_nonfull p ?idx key ks val vs"
  note ins = insert_nonfull_entries(1,2) [OF p(2) arg room [OF p(1)] nk unat_lower_bound [OF s]]
  have "unat (node_cell_offset p - new_cell_size ks vs) > 0"
    unfolding r(3) using room [OF p(1)] by (simp add: fresh_room_def)
  then have "node_cell_offset p - new_cell_size ks vs > 0" by (simp add: word_less_nat_alt)
  then have "btree_insert_leaf t la key ks val vs = Inr (0, (store_node t la ?q)\<lparr>btree_count := btree_count t + 1\<rparr>)"
    using nk by (simp add: btree_insert_leaf_def load_node_def p(1) r(2) node_bin_search_eq [OF s karg]
        node_insert_nonfull_def store_node_def)
  moreover have "node_is_full p ks vs = Some False" using r(1) by (simp add: node_is_full_def)
  moreover have "leaf_ok ?q" using ins(1) by (auto simp: leaf_ok_def)
  moreover have "leaf_entries ?q = insert_at (lower_bound (map (DBKey \<circ> fst) xs) (DBKey key)) (key, val) xs"
    using ins(2) unfolding p(3) unat_lower_bound [OF s, unfolded keys] keys .
  ultimately show ?thesis using p(1) by (intro exI [of _ ?q]) simp
qed

lemma ent_of_map: "concat (map (ent_of \<circ> (\<lambda>(k, v). Ent k v)) xs) = xs"
  by (induction xs) auto

lemma entries_Tip [simp]: "entries (Tip a xs) = xs"
  by (simp add: entries_def ent_of_map)

lemma insert_no_split:
  assumes inv: "tree_inv b t" "levels b 15" and arg: "key_arg key ks" "length val = unat vs"
    and room: "\<forall>la path p. btree_descend t key ks 15 (btree_root t) [btree_root t] = Inr (Some (la # path)) \<and>
      btree_heap t la = Some p \<longrightarrow> fresh_room p (unat ks + unat vs)"
    and new: "key \<notin> fst ` set (entries b)"
  shows "(btree_insert alloc t key ks val vs = Inr (1, t) \<and> Sep (DBKey key) \<in> set (inorder b)) \<or>
    (\<exists>t' b'. btree_insert alloc t key ks val vs = Inr (0, t') \<and> tree_inv b' t' \<and> levels b' = levels b \<and>
       addrs b' = addrs b \<and> btree_root t' = btree_root t \<and> btree_count t' = btree_count t + 1 \<and>
       set (entries b') = insert (key, val) (set (entries b)))"
proof -
  have rep: "represents b (btree_heap t)" "addr_of b = btree_root t" "sorted_wrt item_lt (inorder b)" "distinct (addrs b)"
    using inv(1) by (simp_all add: tree_inv_def)
  from descend_tree [OF rep(1) inv(2) rep(3,4) arg(1), of "[]" val, unfolded rep(2)] show ?thesis
  proof
    assume "btree_descend t key ks 15 (btree_root t) [btree_root t] = Inr None \<and> Sep (DBKey key) \<in> set (inorder b)"
    then show ?thesis by (simp add: btree_insert_def)
  next
    assume "\<exists>la path xs pre post. btree_descend t key ks 15 (btree_root t) [btree_root t] = Inr (Some (la # path)) \<and>
       hole b (btree_heap t) la xs pre post \<and>
       (\<forall>x \<in> set pre. item_lt x (Ent key val)) \<and> (\<forall>y \<in> set post. item_lt (Ent key val) y)"
    then obtain la path xs pre post where d: "btree_descend t key ks 15 (btree_root t) [btree_root t] = Inr (Some (la # path))"
      and h: "hole b (btree_heap t) la xs pre post"
      and bounds: "\<forall>x \<in> set pre. item_lt x (Ent key val)" "\<forall>y \<in> set post. item_lt (Ent key val) y" by blast
    let ?E = "map (\<lambda>(k, v). Ent k v)"
    have ln: "leaf_node (btree_heap t) la xs" and io: "inorder b = pre @ ?E xs @ post"
      using h by (simp_all add: hole_def)
    obtain p where p: "btree_heap t la = Some p" using ln by (auto simp: leaf_node_def)
    have ex: "entries b = concat (map ent_of pre) @ xs @ concat (map ent_of post)"
      by (simp add: entries_def io ent_of_map)
    have nk: "key \<notin> fst ` set xs" using new ex by auto
    let ?i = "lower_bound (map (DBKey \<circ> fst) xs) (DBKey key)"
    obtain q where q: "btree_insert_leaf t la key ks val vs = Inr (0, (store_node t la q)\<lparr>btree_count := btree_count t + 1\<rparr>)"
        "leaf_ok q" "leaf_entries q = insert_at ?i (key, val) xs" "node_is_full p ks vs = Some False"
      using insert_leaf_room [OF ln _ arg(2) _ nk] arg(1) room d p by (auto simp: key_arg_def)
    let ?t = "(store_node t la q)\<lparr>btree_count := btree_count t + 1\<rparr>"
    have run: "btree_insert alloc t key ks val vs = Inr (0, ?t)"
      using q(1,4) by (simp add: btree_insert_def d load_node_def p)
    have "leaf_node (btree_heap ?t) la (insert_at ?i (key, val) xs)"
      using q(2,3) by (simp add: leaf_node_def store_node_def)
    moreover have "\<forall>a. a \<noteq> la \<longrightarrow> btree_heap ?t a = btree_heap t a" by (simp add: store_node_def)
    ultimately obtain b' where b': "represents b' (btree_heap ?t)" "addr_of b' = addr_of b" "addrs b' = addrs b"
        "levels b' = levels b" "inorder b' = pre @ ?E (insert_at ?i (key, val) xs) @ post"
      using h unfolding hole_def by blast
    have sx: "sorted_wrt item_lt (?E xs)" using rep(3) io by (simp add: sorted_wrt_append)
    then have kx: "sorted_wrt (<) (map (DBKey \<circ> fst) xs)" by (simp add: sorted_wrt_map case_prod_beta)
    have "DBKey key \<notin> set (map (DBKey \<circ> fst) xs)" using nk by auto
    from sorted_insert_lower_bound [OF kx this]
    have "sorted_wrt (<) (map (DBKey \<circ> fst) (insert_at ?i (key, val) xs))" by simp
    then have s1: "sorted_wrt item_lt (?E (insert_at ?i (key, val) xs))"
      unfolding sorted_wrt_map by (simp add: case_prod_beta)
    have "sorted_wrt item_lt (inorder b')"
      using s1 rep(3) bounds unfolding b'(5) io by (auto simp: sorted_wrt_append)
    then have "tree_inv b' ?t" using b' rep by (simp add: tree_inv_def store_node_def)
    moreover have "set (entries b') = insert (key, val) (set (entries b))"
      by (auto simp: entries_def b'(5) io ent_of_map)
    ultimately show ?thesis using run b' by (auto simp: store_node_def)
  qed
qed

end
