(* ===== verification/Btree_Split.thy ===== *)
theory Btree_Split
  imports Btree_Tree
begin

text \<open>
  The first split: the root is a full leaf.  \<open>btree_insert\<close> makes a new leaf and a new root,
  moves the upper half of the entries, and then inserts into one of the halves.
\<close>

section \<open>Header stores of the split\<close>

lemma node_is_leaf_bit: "node_is_leaf p \<longleftrightarrow> bit (node_flags p) 0"
  using and_exp_eq_0_iff_not_bit [of "ucast (node_flags p) :: u32" 0]
  by (simp add: node_is_leaf_def BTREE_NODE_FLAGS_LEAF_def bit_ucast_iff)

lemma leaf_header_edit:
  assumes "leaf_inv p ts" "\<forall>a. 32 \<le> a \<and> a < 48 \<or> 56 \<le> a \<longrightarrow> q a = p a" "node_is_leaf q"
  shows "leaf_inv q ts" "leaf_entries q = leaf_entries p" "node_count q = node_count p"
    "node_size q = node_size p" "node_cell_offset q = node_cell_offset p" "cell_at q i = cell_at p i"
    "i < node_count p \<Longrightarrow> same_cell p q (cell_at p i)"
proof -
  have wf: "node_wf p ts" "cells_ok leaf_cell_ok p" using assms(1) by (simp_all add: leaf_inv_def)
  note e = leaf_view.header_edit [OF wf assms(2)]
  show en: "leaf_entries q = leaf_entries p" unfolding leaf_entries_def by (rule e(3))
  show "leaf_inv q ts" using e(1,2) assms(1,3) by (simp add: leaf_inv_def node_keys_leaf en)
  show "node_count q = node_count p" "node_cell_offset q = node_cell_offset p" "cell_at q i = cell_at p i" by (fact e)+
  then show "node_size q = node_size p" by (simp add: node_count_def word_unat_eq_iff)
  show "i < node_count p \<Longrightarrow> same_cell p q (cell_at p i)" by (rule e(7))
qed

lemma set_parent_bytes: "\<forall>a. 32 \<le> a \<and> a < 48 \<or> 56 \<le> a \<longrightarrow> node_set_parent p x a = p a"
  by (auto simp: node_set_parent_def node_set_defs)

lemma unset_root_bytes: "\<forall>a. 32 \<le> a \<and> a < 48 \<or> 56 \<le> a \<longrightarrow> node_unset_root p a = p a"
  by (auto simp: node_unset_root_def node_set_defs)

lemma header_flags:
  "node_flags (node_set_parent p x) = node_flags p"
  "bit (node_flags (node_unset_root p)) 0 = bit (node_flags p) 0"
  "\<not> bit (node_flags (node_unset_root p)) (Suc 0)"
  "node_parent_pid (node_set_parent p x) = x" "node_parent_pid (node_unset_root p) = node_parent_pid p"
  by (simp_all add: node_set_parent_def node_unset_root_def node_set_defs node_get_defs
      bit_ucast_iff bit_and_iff bit_not_iff BTREE_NODE_FLAGS_ROOT_def bit_push_bit_iff)

lemma detached_leaf:
  fixes x :: u64
  assumes "leaf_inv p ts"
  defines "q \<equiv> node_unset_root (node_set_parent p x)"
  shows "leaf_inv q ts" "leaf_entries q = leaf_entries p" "node_count q = node_count p"
    "node_size q = node_size p" "cell_at q i = cell_at p i" "node_parent_pid q = x" "\<not> node_is_root q"
    "i < node_count p \<Longrightarrow> cell_len q (cell_at p i) = cell_len p (cell_at p i)"
proof -
  have leaf: "node_is_leaf p" using assms(1) by (simp add: leaf_inv_def)
  have l1: "node_is_leaf (node_set_parent p x)" using leaf by (simp add: node_is_leaf_bit header_flags)
  have l2: "node_is_leaf q" using l1 by (simp add: q_def node_is_leaf_bit header_flags)
  note e1 = leaf_header_edit [OF assms(1) set_parent_bytes l1]
  note e2 = leaf_header_edit [OF e1(1) unset_root_bytes, folded q_def, OF l2]
  show "leaf_inv q ts" "leaf_entries q = leaf_entries p" "node_count q = node_count p"
    "node_size q = node_size p" "cell_at q i = cell_at p i"
    using e1 e2 by simp_all
  show "cell_len q (cell_at p i) = cell_len p (cell_at p i)" if "i < node_count p"
    using same_cell_fields(6) [OF e1(7) [OF that]] same_cell_fields(6) [OF e2(7), of i] that e1(3,6) by simp
  show "node_parent_pid q = x" by (simp add: q_def header_flags)
  have "\<not> bit (ucast (node_flags q) :: u32) 1" by (simp add: q_def bit_ucast_iff header_flags)
  then show "\<not> node_is_root q"
    using and_exp_eq_0_iff_not_bit [of "ucast (node_flags q) :: u32" 1]
    by (simp add: node_is_root_def BTREE_NODE_FLAGS_ROOT_def push_bit_eq_mult)
qed

section \<open>The new root\<close>

lemma new_root_page:
  fixes m :: page and child right :: u64
  assumes "length sep = unat ks" "unat ks \<le> 4000"
  defines "r0 \<equiv> node_init m BTREE_NODE_FLAGS_ROOT"
  shows "\<exists>off. node_get_free_offset r0 ks 0 = (off, r0) \<and> off > 0 \<and>
    (let r = node_set_rightmost_child (node_insert_internal_cell r0 off 0 sep ks child) right
     in internal_inv r [] \<and> internal_entries r = [(sep, child)] \<and> node_rightmost_pid r = right \<and> node_is_root r)"
proof -
  have wf: "node_wf r0 []" "cells_ok internal_cell_ok r0"
    by (simp_all add: r0_def node_init_wf cells_ok_def)
  have room: "fresh_room r0 (unat ks + unat (0::u32))"
    using cell_space_bounds(2) [of "unat ks"] assms(2) by (simp add: fresh_room_def r0_def)
  note o = fresh_room_offset [OF wf(1) [unfolded node_wf_def] room]
  let ?off = "node_cell_offset r0 - new_cell_size ks 0"
  have off: "unat ?off = 4096 - cell_space (unat ks)" using o(3) by (simp add: r0_def)
  have b: "60 \<le> unat ?off" "unat ?off + (16 + unat ks) \<le> 4096"
    using off cell_space_bounds [of "unat ks"] assms(2) by simp_all
  note i = insert_internal_cell [OF wf, where idx = 0 and key = sep and ks = ks and off = ?off and child = child]
  let ?r1 = "node_insert_internal_cell r0 ?off 0 sep ks child"
  let ?r = "node_set_rightmost_child ?r1 right"
  have i': "node_wf ?r1 []" "cells_ok internal_cell_ok ?r1" "internal_entries ?r1 = [(sep, child)]"
      "node_flags ?r1 = node_flags r0"
    using i b assms(1) by (simp_all add: r0_def insert_at_def internal_entries_def node_view_def)
  note e = set_rightmost_view [OF i'(1,2), of right]
  have en: "internal_entries ?r = [(sep, child)]" using e(3) i'(3) by simp
  have "node_flags ?r = node_flags ?r1" by (rule e(4))
  moreover have "node_flags r0 = 2" by (simp add: r0_def BTREE_NODE_FLAGS_ROOT_def)
  ultimately have fl: "node_flags ?r = 2" using i'(4) by (simp only:)
  have "\<not> node_is_leaf ?r" unfolding node_is_leaf_bit fl by simp
  moreover have "node_keys ?r = [DBKey sep]" by (simp only: node_keys_internal en) simp
  ultimately have "internal_inv ?r []" using e(1,2) unfolding internal_inv_def by simp
  moreover have "node_rightmost_pid ?r = right"
    by (simp add: node_set_rightmost_child_def node_set_defs node_get_defs)
  moreover have "node_is_root ?r" using fl by (simp add: node_is_root_def BTREE_NODE_FLAGS_ROOT_def)
  moreover have "?off > 0" using b(1) by (simp add: word_less_nat_alt)
  ultimately show ?thesis using o(2) en by (intro exI [of _ ?off]) (simp add: Let_def)
qed

section \<open>The split of a root leaf\<close>

text \<open>Two allocations that succeed with fresh addresses, one after the other.\<close>

definition allocates :: "malloc \<Rightarrow> node_heap \<Rightarrow> u64 \<Rightarrow> u64 \<Rightarrow> bool" where
  "allocates alloc h a1 a2 \<longleftrightarrow> a1 \<noteq> 0 \<and> a2 \<noteq> 0 \<and> a1 \<noteq> a2 \<and> h a1 = None \<and> h a2 = None \<and>
     (\<exists>m1 m2. alloc h = Some (a1, m1) \<and> (\<forall>q. alloc (h(a1 \<mapsto> q)) = Some (a2, m2)))"

lemma cell_key_live:
  assumes "leaf_inv p ts" "i < node_count p"
  shows "unat (cell_key_size p (cell_at p i)) + 16 \<le> cell_len p (cell_at p i)"
    "cell_key p (cell_at p i) = fst (leaf_entries p ! i)"
proof -
  have "leaf_cell_ok p (cell_at p i)" using assms by (simp add: leaf_inv_def cells_okD)
  then show "unat (cell_key_size p (cell_at p i)) + 16 \<le> cell_len p (cell_at p i)"
    by (simp add: leaf_cell_ok_def cell_len_def)
  show "cell_key p (cell_at p i) = fst (leaf_entries p ! i)"
    using assms(2) by (simp add: leaf_entries_def leaf_entry_def)
qed

text \<open>What \<open>prepare_leaf\<close> records, and the copy of the upper half to a new leaf.\<close>

lemma prepare_leaf_eq:
  fixes t :: btree
  assumes leaf: "btree_heap t la = Some p" "leaf_inv p ts"
    and alloc: "alloc (btree_heap t) = Some (a1, m)" "a1 \<noteq> 0"
    and k: "k = node_partition_idx p" "unat k < node_count p" and key: "key_arg key ks"
  defines "sep \<equiv> fst (leaf_entries p ! unat k)" and "n \<equiv> cell_key_size p (cell_at p (unat k))"
  shows "prepare_leaf alloc t la key ks =
      Inr (\<lparr>bc_node = la, bc_new_node = a1, bc_f_node = (if DBKey sep < DBKey key then a1 else la),
            bc_partition_idx = k, bc_is_full = True\<rparr>,
           t\<lparr>btree_heap := (btree_heap t)(a1 \<mapsto> node_init m BTREE_NODE_FLAGS_LEAF)\<rparr>)"
    "cell_key p (cell_at p (unat k)) = sep" "length sep = unat n" "unat n \<le> 4000"
proof -
  have wf: "node_wf p ts" using leaf(2) by (simp add: leaf_inv_def)
  note live = cell_key_live [OF leaf(2) k(2)]
  show ck: "cell_key p (cell_at p (unat k)) = sep" using live(2) by (simp add: sep_def)
  show len: "unat n \<le> 4000"
    using node_partition_idx_eq(3) [OF wf] bytes_before_wf [OF wf Suc_leI [OF k(2)]] live(1) k
    by (simp add: bytes_before_Suc n_def)
  show seplen: "length sep = unat n" using ck by (metis length_cell_key n_def)
  have "key_compare_cell p (cell_at p (unat k)) key ks < 0 \<longleftrightarrow> DBKey sep < DBKey key"
    using key_compare_bytes_sign(1) [OF seplen, of key ks] key len ck
    by (simp add: key_compare_cell_def key_arg_def n_def)
  then show "prepare_leaf alloc t la key ks =
      Inr (\<lparr>bc_node = la, bc_new_node = a1, bc_f_node = (if DBKey sep < DBKey key then a1 else la),
            bc_partition_idx = k, bc_is_full = True\<rparr>,
           t\<lparr>btree_heap := (btree_heap t)(a1 \<mapsto> node_init m BTREE_NODE_FLAGS_LEAF)\<rparr>)"
    using leaf(1) alloc k(1)
    by (simp add: prepare_leaf_def load_node_def btree_node_alloc_def store_node_def cell_from_idx_at Let_def)
qed

lemma init_leaf_fresh:
  "fresh_node (node_init m BTREE_NODE_FLAGS_LEAF)" "node_is_leaf (node_init m BTREE_NODE_FLAGS_LEAF)"
  by (simp_all add: fresh_node_def node_is_leaf_bit BTREE_NODE_FLAGS_LEAF_def)

lemma split_crumb_leaf:
  assumes h: "btree_heap t la = Some p" "btree_heap t a1 = Some q" "la \<noteq> a1"
    and inv: "leaf_inv p ts" "fresh_node q" "node_is_leaf q" and k: "unat k < node_count p"
    and b: "bc_node b = la" "bc_new_node b = a1" "bc_partition_idx b = k" "bc_is_full b"
    and leaf: "target = la \<or> target = a1"
  shows "\<exists>p' q'. split_crumb t target b = Inr (t\<lparr>btree_heap := (btree_heap t)(la \<mapsto> p', a1 \<mapsto> q')\<rparr>) \<and>
    leaf_inv p' (rev (map (cell_at p) [unat k..<node_count p]) @ ts) \<and> leaf_inv q' [] \<and>
    leaf_entries p' = take (unat k) (leaf_entries p) \<and> leaf_entries q' = drop (unat k) (leaf_entries p) \<and>
    node_parent_pid p' = node_parent_pid p \<and> node_parent_pid q' = node_parent_pid q \<and> node_flags p' = node_flags p \<and>
    left_half p (unat k) p' \<and>
    unat (node_cell_offset q') + (bytes_before p (node_count p) - bytes_before p (unat k)) = 4096"
proof -
  let ?n = "node_count p"
  obtain p' q' where s: "leaf_node_split p q k = Inr (p', q')"
      "leaf_inv p' (rev (map (cell_at p) [unat k..<?n]) @ ts)" "leaf_inv q' []"
      "leaf_entries p' = take (unat k) (leaf_entries p)" "leaf_entries q' = drop (unat k) (leaf_entries p)"
      "unat (node_cell_offset q') + (\<Sum>i\<leftarrow>[unat k..<?n]. cell_len p (cell_at p i)) = 4096"
      "node_parent_pid p' = node_parent_pid p" "node_parent_pid q' = node_parent_pid q" "node_flags p' = node_flags p"
      "left_half p (unat k) p'"
    using leaf_node_split_eq [OF inv k] by blast
  have wf: "node_wf p ts" using inv(1) by (simp add: leaf_inv_def)
  have "node_count p' + node_count q' = ?n"
    using leaf_count [OF s(4)] leaf_count [OF s(5)] k by simp
  then have "node_size p = node_size p' + node_size q'"
    using node_count_bound [OF wf [unfolded node_wf_def]]
    by (simp add: node_count_def word_unat_eq_iff unat_simps)
  moreover have "k \<le> node_size p" using k by (simp add: word_le_nat_alt node_count_def)
  moreover have "node_is_leaf p" using inv(1) by (simp add: leaf_inv_def)
  ultimately have "split_crumb t target b = Inr (t\<lparr>btree_heap := (btree_heap t)(la \<mapsto> p', a1 \<mapsto> q')\<rparr>)"
    using h b leaf s(1) inv(3) by (simp add: split_crumb_def load_node_def store_node_def Let_def)
  moreover have "(\<Sum>i\<leftarrow>[unat k..<?n]. cell_len p (cell_at p i)) = bytes_before p ?n - bytes_before p (unat k)"
    using upt_add_eq_append [of 0 "unat k" "?n - unat k"] k by (simp add: bytes_before_def)
  ultimately show ?thesis using s(2-10) by (intro exI [of _ p'] exI [of _ q']) simp
qed

text \<open>Up to the insertion of the new entry: the state after \<open>write_down\<close>.\<close>

lemma split_root_leaf:
  assumes root: "btree_heap t (btree_root t) = Some p" and inv: "leaf_inv p ts"
    and alloc: "allocates alloc (btree_heap t) a1 a2"
    and k: "k = node_partition_idx p" "unat k < node_count p"
    and key: "key_arg key ks"
  shows "\<exists>c t1 t2 t3 p' q' r ts'. prepare_leaf alloc t (btree_root t) key ks = Inr (c, t1) \<and>
    propagate alloc t1 [] c [] = Inr ([c], True, t1) \<and> bc_is_full c \<and>
    bc_f_node c = (if DBKey (fst (leaf_entries p ! unat k)) < DBKey key then a1 else btree_root t) \<and>
    split_root alloc t1 c = Inr t2 \<and> write_down t2 (bc_f_node c) [c] = Inr t3 \<and>
    t3 = t\<lparr>btree_root := a2, btree_heap := (btree_heap t)(a1 \<mapsto> q', a2 \<mapsto> r, btree_root t \<mapsto> p')\<rparr> \<and>
    leaf_inv p' (rev (map (cell_at p) [unat k..<node_count p]) @ ts') \<and> leaf_inv q' [] \<and>
    leaf_entries p' = take (unat k) (leaf_entries p) \<and> leaf_entries q' = drop (unat k) (leaf_entries p) \<and>
    node_parent_pid p' = a2 \<and> node_parent_pid q' = a2 \<and> \<not> node_is_root p' \<and>
    internal_inv r [] \<and> internal_entries r = [(fst (leaf_entries p ! unat k), btree_root t)] \<and>
    node_rightmost_pid r = a1 \<and> node_is_root r \<and> left_half p (unat k) p' \<and>
    unat (node_cell_offset q') + (bytes_before p (node_count p) - bytes_before p (unat k)) = 4096"
proof -
  let ?root = "btree_root t" and ?sep = "fst (leaf_entries p ! unat k)" and ?n = "node_count p"
  let ?cell = "cell_at p (unat k)"
  obtain m1 m2 where m: "alloc (btree_heap t) = Some (a1, m1)" "\<forall>q. alloc ((btree_heap t)(a1 \<mapsto> q)) = Some (a2, m2)"
    using alloc unfolding allocates_def by blast
  have a: "a1 \<noteq> 0" "a2 \<noteq> 0" "a1 \<noteq> a2" "a1 \<noteq> ?root" "a2 \<noteq> ?root"
    using alloc root by (auto simp: allocates_def)
  note prep = prepare_leaf_eq [where t = t and alloc = alloc, OF root inv m(1) a(1) k key]
  let ?fresh = "node_init m1 BTREE_NODE_FLAGS_LEAF"
  let ?c = "\<lparr>bc_node = ?root, bc_new_node = a1, bc_f_node = (if DBKey ?sep < DBKey key then a1 else ?root),
      bc_partition_idx = k, bc_is_full = True\<rparr>"
  let ?ta = "t\<lparr>btree_heap := (btree_heap t)(a1 \<mapsto> ?fresh)\<rparr>"
  let ?empty = "node_init m2 BTREE_NODE_FLAGS_ROOT"
  obtain off r where r: "node_get_free_offset ?empty (cell_key_size p ?cell) 0 = (off, ?empty)" "off > 0"
      "r = node_set_rightmost_child (node_insert_internal_cell ?empty off 0 ?sep (cell_key_size p ?cell) ?root) a1"
      "internal_inv r []" "internal_entries r = [(?sep, ?root)]" "node_rightmost_pid r = a1" "node_is_root r"
    using new_root_page [OF prep(3,4), of m2 ?root a1] unfolding Let_def by blast
  let ?old = "node_unset_root (node_set_parent p a2)" and ?new = "node_set_parent ?fresh a2"
  let ?tb = "t\<lparr>btree_root := a2, btree_heap := (btree_heap t)(a1 \<mapsto> ?new, a2 \<mapsto> r, ?root \<mapsto> ?old)\<rparr>"
  have sr: "split_root alloc ?ta ?c = Inr ?tb"
    using a m(2) r(1,2,3) root prep(2)
    by (simp add: split_root_def load_node_def btree_node_alloc_def store_node_def cell_from_idx_at Let_def
        fun_upd_twist)
  note dl = detached_leaf [OF inv, where x = a2]
  have q1: "fresh_node ?new" "node_is_leaf ?new"
    by (simp_all add: fresh_node_def node_is_leaf_bit header_flags BTREE_NODE_FLAGS_LEAF_def
        node_set_parent_def node_set_defs node_get_defs)
      (simp_all flip: node_get_defs)
  have h: "btree_heap ?tb ?root = Some ?old" "btree_heap ?tb a1 = Some ?new" using a by simp_all
  have k': "unat k < node_count ?old" using k(2) dl(3) by simp
  have bc: "bc_node ?c = ?root" "bc_new_node ?c = a1" "bc_partition_idx ?c = k" "bc_is_full ?c"
    "bc_f_node ?c = ?root \<or> bc_f_node ?c = a1"
    by simp_all
  obtain p' q' where s: "split_crumb ?tb (bc_f_node ?c) ?c = Inr (?tb\<lparr>btree_heap := (btree_heap ?tb)(?root \<mapsto> p', a1 \<mapsto> q')\<rparr>)"
      "leaf_inv p' (rev (map (cell_at ?old) [unat k..<?n]) @ ts)" "leaf_inv q' []"
      "leaf_entries p' = take (unat k) (leaf_entries p)" "leaf_entries q' = drop (unat k) (leaf_entries p)"
      "node_parent_pid p' = node_parent_pid ?old" "node_parent_pid q' = node_parent_pid ?new" "node_flags p' = node_flags ?old"
      "left_half ?old (unat k) p'"
      "unat (node_cell_offset q') + (bytes_before ?old ?n - bytes_before ?old (unat k)) = 4096"
    using split_crumb_leaf [OF h a(4) [symmetric] dl(1) q1 k' bc] unfolding dl(2,3) by blast
  let ?tc = "t\<lparr>btree_root := a2, btree_heap := (btree_heap t)(a1 \<mapsto> q', a2 \<mapsto> r, ?root \<mapsto> p')\<rparr>"
  have "node_is_leaf p'" using s(2) by (simp add: leaf_inv_def)
  then have wd: "write_down ?tb (bc_f_node ?c) [?c] = Inr ?tc"
    using a s(1) by (simp add: load_node_def fun_upd_twist)
  have at: "map (cell_at ?old) [unat k..<?n] = map (cell_at p) [unat k..<?n]" using dl(5) by simp
  have "bytes_before ?old i = bytes_before p i" if "i \<le> ?n" for i
    unfolding bytes_before_def using that dl(5,8) by (intro arg_cong [where f = sum_list] map_cong) simp_all
  then have lo: "unat (node_cell_offset q') + (bytes_before p ?n - bytes_before p (unat k)) = 4096"
    using s(10) k(2) by simp
  have "node_cell_offset ?old = node_cell_offset p"
    by (simp add: node_set_parent_def node_unset_root_def node_set_defs node_get_defs)
  then have half: "left_half p (unat k) p'" using s(9) k(2) dl(3,5,8) by (simp add: left_half_def)
  have c: "bc_is_full ?c" "bc_f_node ?c = (if DBKey ?sep < DBKey key then a1 else ?root)"
    "propagate alloc ?ta [] ?c [] = Inr ([?c], True, ?ta)"
    by simp_all
  have par: "node_parent_pid p' = a2" "node_parent_pid q' = a2" "\<not> node_is_root p'"
    using s(6-8) dl(6,7) by (simp_all add: header_flags node_is_root_def)
  show ?thesis
    by (intro exI conjI) (fact prep(1) c sr wd refl s(2) [unfolded at] s(3-5) par r(4-7) half lo)+
qed

section \<open>Insertion that splits the root leaf\<close>

lemma entries_two_leaves: "entries (Fork a [s] [Tip l xs, Tip r ys]) = xs @ ys"
  by (simp add: entries_def weave_def ent_of_map)

text \<open>The entries of the two halves, the new entry in the half that the partition key selects.\<close>

definition entry_added :: "u8 list \<Rightarrow> u8 list \<Rightarrow> (u8 list \<times> u8 list) list \<Rightarrow> (u8 list \<times> u8 list) list" where
  "entry_added key val xs = insert_at (lower_bound (map (DBKey \<circ> fst) xs) (DBKey key)) (key, val) xs"

definition split_halves :: "u8 list \<Rightarrow> u8 list \<Rightarrow> (u8 list \<times> u8 list) list \<Rightarrow> nat \<Rightarrow>
    (u8 list \<times> u8 list) list \<times> (u8 list \<times> u8 list) list" where
  "split_halves key val xs k =
     (if DBKey (fst (xs ! k)) < DBKey key then (take k xs, entry_added key val (drop k xs))
      else (entry_added key val (take k xs), drop k xs))"

lemma entry_added:
  assumes "sorted_wrt (<) (map (DBKey \<circ> fst) xs)" "key \<notin> fst ` set xs"
  shows "sorted_wrt (<) (map (DBKey \<circ> fst) (entry_added key val xs))"
    "set (entry_added key val xs) = insert (key, val) (set xs)"
proof -
  have "DBKey key \<notin> set (map (DBKey \<circ> fst) xs)" using assms(2) by auto
  from sorted_insert_lower_bound [OF assms(1) this]
  show "sorted_wrt (<) (map (DBKey \<circ> fst) (entry_added key val xs))" by (simp add: entry_added_def)
  show "set (entry_added key val xs) = insert (key, val) (set xs)" by (simp add: entry_added_def)
qed

lemma split_inorder:
  fixes key val :: "u8 list" and xs :: "(u8 list \<times> u8 list) list"
  assumes asc: "sorted_wrt (<) (map (DBKey \<circ> fst) xs)" and k: "k < length xs" and key: "key \<notin> fst ` set xs"
    and halves: "split_halves key val xs k = (l, r)"
  shows "sorted_wrt item_lt (map (\<lambda>(k, v). Ent k v) l @ Sep (DBKey (fst (xs ! k))) # map (\<lambda>(k, v). Ent k v) r)"
    "set (l @ r) = insert (key, val) (set xs)"
proof -
  let ?E = "map (\<lambda>(k, v). Ent k v)" and ?K = "DBKey \<circ> fst" and ?sep = "DBKey (fst (xs ! k))"
  have E: "sorted_wrt item_lt (?E zs) \<longleftrightarrow> sorted_wrt (<) (map ?K zs)" for zs :: "(u8 list \<times> u8 list) list"
    by (simp add: sorted_wrt_map case_prod_beta)
  have parts: "sorted_wrt (<) (map ?K (take k xs))" "sorted_wrt (<) (map ?K (drop k xs))"
    using asc by (simp_all only: take_map [symmetric] drop_map [symmetric] sorted_wrt_take sorted_wrt_drop)
  have nk: "key \<notin> fst ` set (take k xs)" "key \<notin> fst ` set (drop k xs)" "key \<noteq> fst (xs ! k)"
    using key k by (auto dest: in_set_takeD in_set_dropD)
  note add = entry_added [OF parts(1) nk(1), of val] entry_added [OF parts(2) nk(2), of val]
  have lt: "DBKey (fst x) < ?sep" if "x \<in> set (take k xs)" for x
    using that k sorted_wrt_nth_less [OF asc, of _ k] by (auto simp: in_set_conv_nth)
  have ge: "?sep \<le> DBKey (fst y)" if "y \<in> set (drop k xs)" for y
  proof -
    have "?sep \<le> DBKey (fst (xs ! (k + j)))" if "k + j < length xs" for j
      using that sorted_wrt_nth_less [OF asc, of k "k + j"] by (cases j) (auto intro: less_imp_le)
    then show ?thesis using that by (auto simp: in_set_conv_nth)
  qed
  have side: "\<not> ?sep < DBKey key \<Longrightarrow> DBKey key < ?sep" using nk(3) by (metis antisym_conv3 dbkey.inject)
  have below: "\<forall>x \<in> set l. DBKey (fst x) < ?sep" and above: "\<forall>y \<in> set r. ?sep \<le> DBKey (fst y)"
    and sorted: "sorted_wrt (<) (map ?K l)" "sorted_wrt (<) (map ?K r)"
    using halves lt ge add parts side by (auto simp: split_halves_def less_imp_le split: if_splits)
  have sep: "\<forall>x \<in> set (?E l). item_lt x (Sep ?sep)" using below by (fastforce simp: case_prod_beta)
  have behind: "\<forall>y \<in> set (?E r). item_lt (Sep ?sep) y" using above by (fastforce simp: case_prod_beta)
  have cross: "item_lt x y" if "x \<in> set (?E l)" "y \<in> set (?E r)" for x y
    using sep behind that item_lt_trans by blast
  have "sorted_wrt item_lt (Sep ?sep # ?E r)"
    unfolding sorted_wrt.simps(2) by (rule conjI [OF behind E [THEN iffD2, OF sorted(2)]])
  moreover have "\<forall>x \<in> set (?E l). \<forall>y \<in> set (Sep ?sep # ?E r). item_lt x y" using sep cross by (metis set_ConsD)
  ultimately show "sorted_wrt item_lt (?E l @ Sep ?sep # ?E r)"
    using E [THEN iffD2, OF sorted(1)] unfolding sorted_wrt_append by blast
  have "set xs = set (take k xs) \<union> set (drop k xs)" by (metis append_take_drop_id set_append)
  then show "set (l @ r) = insert (key, val) (set xs)"
    using halves add(2,4) by (auto simp: split_halves_def split: if_splits)
qed

text \<open>The right half of a split leaf has room for a cell of half a page.\<close>

lemma right_half_room:
  assumes inv: "leaf_inv p ts" and k: "k = node_partition_idx p" "unat k < node_count p"
    and q: "leaf_entries q = drop (unat k) (leaf_entries p)"
      "unat (node_cell_offset q) + (bytes_before p (node_count p) - bytes_before p (unat k)) = 4096"
    and content: "cell_space content \<le> 1988"
  shows "fresh_room q content"
proof -
  have wf: "node_wf p ts" using inv by (simp add: leaf_inv_def)
  have cnt: "node_count q = node_count p - unat k" using leaf_count [OF q(1)] by simp
  have "4 * node_count p + bytes_before p (node_count p) \<le> 4040"
    using live_cells_fit [OF wf] by (simp add: bytes_before_def)
  moreover have "unat (node_cell_offset q) + bytes_before p (node_count p) = 4096 + bytes_before p (unat k)"
    using q(2) bytes_before_mono [OF less_imp_le [OF k(2)], of p] by simp
  ultimately have "2048 + 4 * node_count p \<le> unat (node_cell_offset q)"
    using k node_partition_idx_eq(3) [OF wf] by simp
  then show ?thesis using content unfolding fresh_room_def cnt by linarith
qed

lemma left_half_room:
  "left_half p k p' \<Longrightarrow> 60 + 4 * k + cell_space content \<le> unat (node_cell_offset p) \<Longrightarrow> fresh_room p' content"
  by (simp add: left_half_def fresh_room_def)

text \<open>The insertion into the selected half, when that half has room.\<close>

lemma insert_into_half:
  fixes t :: btree and key val :: "u8 list"
  assumes "leaf_node (btree_heap t) la (take k xs)" "leaf_node (btree_heap t) a1 (drop k xs)" "la \<noteq> a1"
    and "target = (if DBKey (fst (xs ! k)) < DBKey key then a1 else la)"
    and "\<And>p. btree_heap t target = Some p \<Longrightarrow> fresh_room p (unat ks + unat vs)"
    and "length key = unat ks" "length val = unat vs" "key \<notin> fst ` set xs" "split_halves key val xs k = (l, r)"
  shows "\<exists>q. btree_insert_leaf t target key ks val vs = Inr (0, (store_node t target q)\<lparr>btree_count := btree_count t + 1\<rparr>) \<and>
    leaf_node ((btree_heap t)(target \<mapsto> q)) la l \<and> leaf_node ((btree_heap t)(target \<mapsto> q)) a1 r"
proof -
  let ?side = "DBKey (fst (xs ! k)) < DBKey key"
  define zs where "zs = (if ?side then drop k xs else take k xs)"
  have zs: "leaf_node (btree_heap t) target zs" "key \<notin> fst ` set zs"
    using assms(1,2,4,8) by (auto simp: zs_def dest: in_set_takeD in_set_dropD)
  obtain q where q: "btree_insert_leaf t target key ks val vs =
      Inr (0, (store_node t target q)\<lparr>btree_count := btree_count t + 1\<rparr>)" "leaf_ok q" "leaf_entries q = entry_added key val zs"
    using insert_leaf_room [OF zs(1) assms(6,7,5) zs(2)] unfolding entry_added_def by blast
  have "leaf_node ((btree_heap t)(target \<mapsto> q)) target (entry_added key val zs)"
    using q(2,3) zs(1) by (simp add: leaf_node_def)
  then show ?thesis
    using q(1) assms(1-4,9) by (intro exI [of _ q]) (auto simp: zs_def split_halves_def leaf_node_def split: if_splits)
qed

lemma insert_split_root:
  assumes root: "btree_heap t (btree_root t) = Some p" "btree_root t \<noteq> 0" and inv: "leaf_inv p ts"
    and alloc: "allocates alloc (btree_heap t) a1 a2"
    and full: "node_is_full p ks vs = Some True"
    and k: "k = node_partition_idx p" "unat k < node_count p"
    and arg: "key_arg key ks" "length val = unat vs" "cell_space (unat ks + unat vs) \<le> 1988"
    and key: "DBKey key \<notin> set (node_keys p)"
    and room: "DBKey (fst (leaf_entries p ! unat k)) < DBKey key \<or>
      60 + 4 * unat k + cell_space (unat ks + unat vs) \<le> unat (node_cell_offset p)"
    and halves: "split_halves key val (leaf_entries p) (unat k) = (l, r)"
  shows "\<exists>t'. btree_insert alloc t key ks val vs = Inr (0, t') \<and> btree_count t' = btree_count t + 1 \<and>
    tree_inv (Fork a2 [fst (leaf_entries p ! unat k)] [Tip (btree_root t) l, Tip a1 r]) t'"
proof -
  let ?root = "btree_root t" and ?k = "unat k" and ?xs = "leaf_entries p"
  obtain c t1 t2 t3 p' q' pg ts' where sp: "prepare_leaf alloc t ?root key ks = Inr (c, t1)"
    "propagate alloc t1 [] c [] = Inr ([c], True, t1)" "bc_is_full c"
    "bc_f_node c = (if DBKey (fst (?xs ! ?k)) < DBKey key then a1 else ?root)"
    "split_root alloc t1 c = Inr t2" "write_down t2 (bc_f_node c) [c] = Inr t3"
    "t3 = t\<lparr>btree_root := a2, btree_heap := (btree_heap t)(a1 \<mapsto> q', a2 \<mapsto> pg, ?root \<mapsto> p')\<rparr>"
    "leaf_inv p' (rev (map (cell_at p) [?k..<node_count p]) @ ts')" "leaf_inv q' []"
    "leaf_entries p' = take ?k ?xs" "leaf_entries q' = drop ?k ?xs" "internal_inv pg []"
    "internal_entries pg = [(fst (?xs ! ?k), ?root)]" "node_rightmost_pid pg = a1" "left_half p ?k p'"
    "unat (node_cell_offset q') + (bytes_before p (node_count p) - bytes_before p ?k) = 4096"
    using split_root_leaf [OF root(1) inv alloc k arg(1)] by blast
  have a: "a1 \<noteq> 0" "a1 \<noteq> a2" "a1 \<noteq> ?root" "a2 \<noteq> ?root"
    using alloc root(1) by (auto simp: allocates_def)
  have leaf: "node_is_leaf p" using inv by (simp add: leaf_inv_def)
  have nk: "key \<notin> fst ` set ?xs" using key by (auto simp: node_keys_leaf)
  have ln: "leaf_node (btree_heap t3) ?root (take ?k ?xs)" "leaf_node (btree_heap t3) a1 (drop ?k ?xs)"
    using sp(7-11) a by (auto simp: leaf_node_def leaf_ok_def)
  have "fresh_room g (unat ks + unat vs)" if "btree_heap t3 (bc_f_node c) = Some g" for g
    using that room right_half_room [OF inv k sp(11,16) arg(3)] left_half_room [OF sp(15)] sp(4,7) a
    by (auto split: if_splits)
  from insert_into_half [OF ln a(3) [symmetric] sp(4) this _ arg(2) nk halves] arg(1)
  obtain q where q: "btree_insert_leaf t3 (bc_f_node c) key ks val vs =
      Inr (0, (store_node t3 (bc_f_node c) q)\<lparr>btree_count := btree_count t3 + 1\<rparr>)"
      "leaf_node ((btree_heap t3)(bc_f_node c \<mapsto> q)) ?root l" "leaf_node ((btree_heap t3)(bc_f_node c \<mapsto> q)) a1 r"
    by (auto simp: key_arg_def)
  let ?t = "(store_node t3 (bc_f_node c) q)\<lparr>btree_count := btree_count t3 + 1\<rparr>"
  have h: "btree_heap ?t = (btree_heap t3)(bc_f_node c \<mapsto> q)" by (simp add: store_node_def)
  have "btree_insert alloc t key ks val vs = Inr (0, ?t)"
    using root(1) leaf full sp(1-6) q(1)
    by (simp add: btree_insert_def btree_descend.simps [of t key ks 15 ?root] load_node_def del: write_down.simps propagate.simps)
  moreover have "tree_inv (Fork a2 [fst (?xs ! ?k)] [Tip ?root l, Tip a1 r]) ?t"
    unfolding tree_inv_def
  proof (intro conjI)
    have asc: "sorted_wrt (<) (map (DBKey \<circ> fst) ?xs)" using inv by (simp add: leaf_inv_def node_keys_leaf)
    show "sorted_wrt item_lt (inorder (Fork a2 [fst (?xs ! ?k)] [Tip ?root l, Tip a1 r]))"
      using split_inorder(1) [OF asc _ nk halves] k(2) by (simp add: weave_def)
    have "btree_heap ?t a2 = Some pg" using sp(4) a by (simp add: sp(7) store_node_def)
    then show "represents (Fork a2 [fst (?xs ! ?k)] [Tip ?root l, Tip a1 r]) (btree_heap ?t)"
      using q(2,3) sp(12-14) a unfolding h by (auto simp: inner_node_def)
  qed (use sp(7) a in \<open>simp_all add: store_node_def\<close>)
  ultimately show ?thesis using sp(7) by (intro exI [of _ ?t]) (simp add: store_node_def)
qed

end
