(* ===== verification/Btree_Grow.thy ===== *)
theory Btree_Grow
  imports Btree_Split
begin

text \<open>
  The split of a leaf below the root: the parent has room for one more separator.
  \<open>btree_insert\<close> links the new leaf under the parent, moves the upper half of the entries to it,
  and inserts there.
\<close>

section \<open>Linking two children under a node\<close>

lemma zip_insert_at:
  "length ys = Suc (length xs) \<Longrightarrow> i \<le> length xs \<Longrightarrow>
     zip (insert_at i x xs) (insert_at i y ys) = insert_at i (x, y) (zip xs ys)"
  by (simp add: insert_at_def take_zip drop_zip zip_append)

lemma last_insert_at: "i < length ys \<Longrightarrow> last (insert_at i y ys) = last ys"
  by (simp add: insert_at_def last_append last_drop)

text \<open>The page after \<open>link_child\<close>: a separator and a child more, the old child before the new one.\<close>

lemma link_page:
  fixes n :: u32 and left right :: u64
  assumes inv: "internal_inv f ts" "internal_entries f = zip ks cs" "length cs = Suc (length ks)"
      "node_rightmost_pid f = last cs"
    and sep: "length sep = unat n" "sep \<notin> set ks" "fresh_room f (unat n)"
  defines "i \<equiv> lower_bound (map DBKey ks) (DBKey sep)"
  defines "g \<equiv> (if of_nat i < node_size f then set_cell_pid f (node_cell_from_idx f (of_nat i)) right
      else node_set_rightmost_child f right)"
  shows "\<exists>off. node_get_free_offset g n 0 = (off, g) \<and> off > 0 \<and>
    (let q = node_insert_internal_cell g off (of_nat i) sep n left in
       internal_inv q ts \<and> internal_entries q = zip (insert_at i sep ks) (insert_at i left (cs[i := right])) \<and>
       node_rightmost_pid q = last (insert_at i left (cs[i := right])))"
proof -
  have wf: "node_wf f ts" "cells_ok internal_cell_ok f" using inv(1) by (simp_all add: internal_inv_def)
  have cnt: "node_count f = length ks" using inv(2,3) by (metis length_entries(2) length_zip min_absorb1 le_Suc_eq le_refl)
  have ile: "i \<le> length ks" using lower_bound_le [of "map DBKey ks" "DBKey sep"] by (simp add: i_def)
  have ks: "map fst (internal_entries f) = ks" using inv(2,3) by (simp add: map_fst_zip_take)
  then have "map DBKey (map fst (internal_entries f)) = map DBKey ks" by simp
  then have keys: "node_keys f = map DBKey ks" by (simp add: node_keys_internal comp_def)
  have u: "unat (of_nat i :: u32) = i"
    unfolding i_def keys [symmetric] by (rule unat_lower_bound [OF search_inv_internal [OF inv(1)]])
  have g: "node_wf g ts" "cells_ok internal_cell_ok g" "internal_entries g = zip ks (cs[i := right])"
    "node_flags g = node_flags f" "node_count g = node_count f" "node_cell_offset g = node_cell_offset f"
    "node_rightmost_pid g = last (cs[i := right])"
  proof -
    consider "i < length ks" "g = set_cell_pid f (cell_at f i) right" | "i = length ks" "g = node_set_rightmost_child f right"
    proof (cases "i < length ks")
      case True
      then show ?thesis using that(1) u cnt by (simp add: g_def word_less_nat_alt node_count_def cell_from_idx_at)
    next
      case False
      then have "i = length ks" "\<not> of_nat i < node_size f"
        using ile u cnt by (simp_all add: word_less_nat_alt node_count_def)
      then show ?thesis using that(2) by (simp only: g_def if_False)
    qed
    note cs = this
    have "cs \<noteq> []" using inv(3) by auto
    note last_cs = last_list_update [OF this, of i right]
    have upd: "(zip ks cs)[i := (fst (zip ks cs ! i), right)] = zip ks (cs[i := right])" if "i < length ks"
      using that inv(3) by (intro nth_equalityI) (auto simp: nth_list_update)
    have lst: "last (cs[i := right]) = last cs" if "i < length ks"
      using that inv(3) by (simp add: last_cs)
    have "node_wf g ts \<and> cells_ok internal_cell_ok g \<and> internal_entries g = zip ks (cs[i := right]) \<and>
      node_flags g = node_flags f \<and> node_count g = node_count f \<and> node_cell_offset g = node_cell_offset f \<and>
      node_rightmost_pid g = last (cs[i := right])"
      using cs
    proof cases
      case 1
      from set_cell_pid_view [OF wf, of i right, folded 1(2)] show ?thesis
        using 1(1) inv(2,4) lst upd cnt by simp
    next
      case 2
      have "cs[i := right] = take (length ks) cs @ [right]" using inv(3) 2(1) by (simp add: list_update_append take_Suc_conv_app_nth upd_conv_take_nth_drop)
      moreover have "zip ks cs = zip ks (take (length ks) cs @ [right])"
        using inv(3) by (intro nth_equalityI) (simp_all add: nth_append)
      ultimately show ?thesis using set_rightmost_view [OF wf, of right, folded 2(2)] inv(2) by simp
    qed
    then show "node_wf g ts" "cells_ok internal_cell_ok g" "internal_entries g = zip ks (cs[i := right])"
      "node_flags g = node_flags f" "node_count g = node_count f" "node_cell_offset g = node_cell_offset f"
      "node_rightmost_pid g = last (cs[i := right])"
      by blast+
  qed
  have lay: "node_layout g [0..<node_count g] ts" using g(1) by (simp add: node_wf_def)
  have room: "fresh_room g (unat n + unat (0::u32))" using sep(3) g(5,6) by (simp add: fresh_room_def)
  note o = fresh_room_offset [OF lay room]
  let ?off = "node_cell_offset g - new_cell_size n 0"
  let ?q = "node_insert_internal_cell g ?off (of_nat i) sep n left"
  have b: "60 + 4 * node_count g \<le> unat ?off" "unat ?off + (16 + unat n) \<le> unat (node_cell_offset g)"
    using room cell_space_bounds(1) [of "unat n"] unfolding o(3) fresh_room_def by (simp_all, linarith?)
  have "unat (of_nat i :: u32) \<le> node_count g" using u ile cnt g(5) by simp
  note q = insert_internal_cell [OF g(1,2) this sep(1) b, where child = left]
  have en: "internal_entries ?q = zip (insert_at i sep ks) (insert_at i left (cs[i := right]))"
    using q(3) ile inv(3) unfolding g(3) u by (simp add: zip_insert_at)
  have "node_keys ?q = insert_at i (DBKey sep) (map DBKey ks)"
    unfolding node_keys_internal q(3) g(3) u using inv(3) by (simp add: map_fst_zip_take flip: map_map)
  moreover have "sorted_wrt (<) (insert_at i (DBKey sep) (map DBKey ks))"
    unfolding i_def using inv(1) sep(2) keys by (intro sorted_insert_lower_bound) (auto simp: internal_inv_def)
  ultimately have "internal_inv ?q ts"
    using q(1,2,4) g(4) inv(1) by (simp add: internal_inv_def node_is_leaf_def)
  moreover have "node_rightmost_pid ?q = last (insert_at i left (cs[i := right]))"
    using q(8) g(7) ile inv(3) by (simp add: last_insert_at)
  moreover have "?off > 0" using b(1) by (simp add: word_less_nat_alt)
  ultimately show ?thesis using o(2) en by (intro exI [of _ ?off]) (simp add: Let_def)
qed

section \<open>The split of a leaf below a parent with room\<close>

lemma split_below:
  fixes t :: btree
  assumes leaf: "btree_heap t la = Some p" "leaf_inv p ts" and parent: "btree_heap t f = Some fp"
    and inner: "internal_inv fp us" "internal_entries fp = zip kk cs" "length cs = Suc (length kk)"
      "node_rightmost_pid fp = last cs"
    and alloc: "alloc (btree_heap t) = Some (a1, m)" "a1 \<noteq> 0" "btree_heap t a1 = None"
    and k: "k = node_partition_idx p" "unat k < node_count p" and key: "key_arg key ks"
    and sep: "fst (leaf_entries p ! unat k) \<notin> set kk" "fresh_room fp (length (fst (leaf_entries p ! unat k)))"
  defines "sp \<equiv> fst (leaf_entries p ! unat k)"
  defines "i \<equiv> lower_bound (map DBKey kk) (DBKey sp)"
  shows "\<exists>c t1 bs at_root t2 p' q' r. prepare_leaf alloc t la key ks = Inr (c, t1) \<and>
    bc_f_node c = (if DBKey sp < DBKey key then a1 else la) \<and>
    propagate alloc t1 (f # up) c [] = Inr (bs, at_root, t1) \<and> \<not> bc_is_full (hd bs) \<and>
    write_down t1 (bc_f_node c) bs = Inr t2 \<and>
    t2 = t\<lparr>btree_heap := (btree_heap t)(f \<mapsto> r, la \<mapsto> p', a1 \<mapsto> q')\<rparr> \<and>
    leaf_inv p' (rev (map (cell_at p) [unat k..<node_count p]) @ ts) \<and> leaf_inv q' [] \<and>
    leaf_entries p' = take (unat k) (leaf_entries p) \<and> leaf_entries q' = drop (unat k) (leaf_entries p) \<and>
    internal_inv r us \<and> internal_entries r = zip (insert_at i sp kk) (insert_at i la (cs[i := a1])) \<and>
    node_rightmost_pid r = last (insert_at i la (cs[i := a1])) \<and> left_half p (unat k) p' \<and>
    unat (node_cell_offset q') + (bytes_before p (node_count p) - bytes_before p (unat k)) = 4096"
proof -
  let ?cell = "cell_at p (unat k)"
  let ?n = "cell_key_size p ?cell"
  note prep = prepare_leaf_eq [where t = t and alloc = alloc, OF leaf alloc(1,2) k key, folded sp_def]
  let ?fresh = "node_init m BTREE_NODE_FLAGS_LEAF"
  let ?c = "\<lparr>bc_node = la, bc_new_node = a1, bc_f_node = (if DBKey sp < DBKey key then a1 else la),
      bc_partition_idx = k, bc_is_full = True\<rparr>"
  let ?b = "\<lparr>bc_node = f, bc_new_node = 0, bc_f_node = f, bc_partition_idx = node_partition_idx fp, bc_is_full = False\<rparr>"
  let ?ta = "t\<lparr>btree_heap := (btree_heap t)(a1 \<mapsto> ?fresh)\<rparr>"
  have a: "a1 \<noteq> la" "a1 \<noteq> f" "f \<noteq> la"
    using alloc(3) leaf parent inner(1) by (auto simp: leaf_inv_def internal_inv_def)
  have room: "fresh_room fp (unat ?n)" using sep(2) prep(3) by (simp add: sp_def)
  have lay: "node_layout fp [0..<node_count fp] us" using inner(1) by (simp add: internal_inv_def node_wf_def)
  have "\<not> node_free_space fp < new_cell_size ?n 0" by (rule fresh_room_offset(1) [OF lay]) (use room in simp)
  then have "node_is_full fp ?n 0 = Some False" by (simp add: node_is_full_def)
  then have "prepare_internal alloc ?ta f ?c = Inr (?b, ?ta)"
    using a parent leaf(1) by (simp add: prepare_internal_def load_node_def cell_from_idx_at Let_def)
  then have pg: "propagate alloc ?ta (f # up) ?c [] = Inr ([?b, ?c], up = [], ?ta)"
    by (cases up) simp_all
  have arg: "key_arg sp ?n" using prep(3,4) by (simp add: key_arg_def)
  note s = inner_search [OF inner(1,2,3) arg, folded i_def]
  define g where "g = (if of_nat i < node_size fp then set_cell_pid fp (node_cell_from_idx fp (of_nat i)) a1
      else node_set_rightmost_child fp a1)"
  obtain off where o: "node_get_free_offset g ?n 0 = (off, g)" "off > 0"
    and l: "internal_inv (node_insert_internal_cell g off (of_nat i) sp ?n la) us"
      "internal_entries (node_insert_internal_cell g off (of_nat i) sp ?n la) =
        zip (insert_at i sp kk) (insert_at i la (cs[i := a1]))"
      "node_rightmost_pid (node_insert_internal_cell g off (of_nat i) sp ?n la) = last (insert_at i la (cs[i := a1]))"
    using link_page [OF inner prep(3) sep(1) [folded sp_def] room, of a1 la, folded i_def, folded g_def]
    unfolding Let_def by blast
  have off: "off \<noteq> 0" using o(2) by auto
  define r where "r = node_insert_internal_cell g off (of_nat i) sp ?n la"
  note l = l [folded r_def]
  have link: "link_child ?ta ?b ?c = Inr (store_node ?ta f r)"
    using a parent leaf(1) s(3) prep(2) o(1) off
    by (simp add: link_child_def load_node_def cell_from_idx_at [of p] Let_def r_def g_def [symmetric]
        cong: if_cong split del: if_split)
  let ?tb = "store_node ?ta f r"
  have h: "btree_heap ?tb la = Some p" "btree_heap ?tb a1 = Some ?fresh" using a leaf(1) by (simp_all add: store_node_def)
  have bc: "bc_node ?c = la" "bc_new_node ?c = a1" "bc_partition_idx ?c = k" "bc_is_full ?c"
    "bc_f_node ?c = la \<or> bc_f_node ?c = a1"
    by simp_all
  obtain p' q' where c: "split_crumb ?tb (bc_f_node ?c) ?c = Inr (?tb\<lparr>btree_heap := (btree_heap ?tb)(la \<mapsto> p', a1 \<mapsto> q')\<rparr>)"
    "leaf_inv p' (rev (map (cell_at p) [unat k..<node_count p]) @ ts)" "leaf_inv q' []"
    "leaf_entries p' = take (unat k) (leaf_entries p)" "leaf_entries q' = drop (unat k) (leaf_entries p)"
    "left_half p (unat k) p'"
    "unat (node_cell_offset q') + (bytes_before p (node_count p) - bytes_before p (unat k)) = 4096"
    using split_crumb_leaf [OF h a(1) [symmetric] leaf(2) init_leaf_fresh k(2) bc] by blast
  have leaves: "node_is_leaf p'" "\<not> node_is_leaf fp" using c(2) inner(1) by (simp_all add: leaf_inv_def internal_inv_def)
  let ?tc = "t\<lparr>btree_heap := (btree_heap t)(f \<mapsto> r, la \<mapsto> p', a1 \<mapsto> q')\<rparr>"
  have heap: "?tb\<lparr>btree_heap := (btree_heap ?tb)(la \<mapsto> p', a1 \<mapsto> q')\<rparr> = ?tc"
    using a by (simp add: store_node_def fun_upd_twist)
  have "split_crumb ?ta (bc_f_node ?c) ?b = Inr ?ta" using a parent by (simp add: split_crumb_def load_node_def)
  then have wdn: "write_down ?ta (bc_f_node ?c) [?b, ?c] = Inr ?tc"
    using c(1) link a parent leaves unfolding heap by (simp add: load_node_def)
  have full: "\<not> bc_is_full (hd [?b, ?c])" "bc_f_node ?c = (if DBKey sp < DBKey key then a1 else la)" by simp_all
  show ?thesis
    by (intro exI conjI) (fact prep(1) full pg wdn refl c(2-7) l(1-3))+
qed

end
