(* ===== verification/Btree_Grow_Tree.thy ===== *)
theory Btree_Grow_Tree
  imports Btree_Grow
begin

text \<open>
  The tree after the split of a leaf below the root: a leaf and a separator more, the in-order
  sequence with the new entry at its place.
\<close>

section \<open>A leaf and its parent\<close>

text \<open>
  The leaf \<open>la\<close> with the entries \<open>xs\<close> is the child \<open>i\<close> of \<open>f\<close>.  When \<open>la\<close> and a new leaf \<open>a1\<close>
  behind it take its place, the in-order sequence gains their entries and the separator.
\<close>

definition branch :: "bt \<Rightarrow> node_heap \<Rightarrow> u64 \<Rightarrow> u64 \<Rightarrow> u8 list list \<Rightarrow> u64 list \<Rightarrow> nat \<Rightarrow> (u8 list \<times> u8 list) list \<Rightarrow>
    item list \<Rightarrow> item list \<Rightarrow> bool" where
  "branch b h la f kk cs i xs pre post \<longleftrightarrow>
     leaf_node h la xs \<and> inner_node h f kk cs \<and> i < length cs \<and> cs ! i = la \<and> la \<in> set (addrs b) \<and> f \<in> set (addrs b) \<and>
     inorder b = pre @ map (\<lambda>(k, v). Ent k v) xs @ post \<and>
     (\<forall>j < i. Sep (DBKey (kk ! j)) \<in> set pre) \<and> (\<forall>j < length kk. i \<le> j \<longrightarrow> Sep (DBKey (kk ! j)) \<in> set post) \<and>
     (\<forall>h' a1 sep ys zs. (\<forall>a. a \<notin> {la, f, a1} \<longrightarrow> h' a = h a) \<longrightarrow> a1 \<notin> set (addrs b) \<longrightarrow> leaf_node h' la ys \<longrightarrow>
        leaf_node h' a1 zs \<longrightarrow> inner_node h' f (insert_at i sep kk) (insert_at i la (cs[i := a1])) \<longrightarrow>
        (\<exists>b'. represents b' h' \<and> addr_of b' = addr_of b \<and> levels b' = levels b \<and>
           (\<exists>P Q. addrs b = P @ la # Q \<and> addrs b' = P @ la # a1 # Q) \<and>
           inorder b' = pre @ map (\<lambda>(k, v). Ent k v) ys @ Sep (DBKey sep) # map (\<lambda>(k, v). Ent k v) zs @ post))"

lemma weave_insert:
  assumes "length xss = Suc (length ks)" "i \<le> length ks"
  shows "weave (insert_at i x (xss[i := y])) (insert_at i k ks) = weave_pre i xss ks @ x @ k # y @ weave_post i xss ks"
proof -
  let ?xss = "insert_at i x (xss[i := y])" and ?ks = "insert_at i k ks"
  have len: "length ?xss = Suc (length ?ks)" "i \<le> length ?ks" using assms by simp_all
  have "weave_pre i ?xss ?ks = weave_pre i xss ks" using assms by (simp add: weave_pre_def insert_at_def)
  moreover have "drop i (xss[i := y]) = y # drop (Suc i) xss"
    using Cons_nth_drop_Suc [of i "xss[i := y]"] assms by simp
  then have "weave_post i ?xss ?ks = k # y @ weave_post i xss ks"
    using assms by (simp add: weave_post_def insert_at_def)
  moreover have "?xss ! i = x" using assms by (simp add: insert_at_nth)
  ultimately show ?thesis using weave_split [OF len] by simp
qed

lemma list_all_insert_at [simp]: "list_all P (insert_at i x xs) \<longleftrightarrow> P x \<and> list_all P xs"
  unfolding list_all_iff by simp

lemma concat_split_nth: "i < length xss \<Longrightarrow> concat xss = concat (take i xss) @ xss ! i @ concat (drop (Suc i) xss)"
  by (metis concat.simps(2) concat_append id_take_nth_drop)

lemma weave_pre_sep:
  assumes "length xss = Suc (length ks)" "j < i" "i \<le> length ks"
  shows "ks ! j \<in> set (weave_pre i xss ks)"
proof -
  have "(take i xss ! j, take i ks ! j) \<in> set (zip (take i xss) (take i ks))"
    using assms by (simp add: set_zip) (metis assms(2) nth_take order_less_le_trans)
  then show ?thesis using assms by (fastforce simp: weave_pre_def)
qed

lemma weave_post_sep:
  assumes "length xss = Suc (length ks)" "i \<le> j" "j < length ks"
  shows "ks ! j \<in> set (weave_post i xss ks)"
proof -
  have "(drop i ks ! (j - i), drop (Suc i) xss ! (j - i)) \<in> set (zip (drop i ks) (drop (Suc i) xss))"
    using assms by (auto simp: set_zip intro!: exI [of _ "j - i"])
  then show ?thesis using assms by (fastforce simp: weave_post_def)
qed

lemma branch_here:
  assumes rep: "represents (Fork f kk bs) h" and i: "i < length bs" "bs ! i = Tip la xs" and dist: "distinct (addrs (Fork f kk bs))"
  shows "branch (Fork f kk bs) h la f kk (map addr_of bs) i xs (weave_pre i (map inorder bs) (map (Sep \<circ> DBKey) kk))
    (weave_post i (map inorder bs) (map (Sep \<circ> DBKey) kk))"
proof -
  let ?E = "map (\<lambda>(k, v). Ent k v)" and ?xss = "map inorder bs" and ?kk = "map (Sep \<circ> DBKey) kk"
  have len: "length ?xss = Suc (length ?kk)" using rep by (auto simp: inner_node_def)
  have ile: "i \<le> length ?kk" using len i(1) by simp
  have reps: "represents (bs ! j) h" if "j < length bs" for j using rep that by (simp add: list_all_length)
  have la1: "la \<in> set (addrs (bs ! i))" by (simp add: i(2))
  then have "la \<in> set (concat (map addrs bs))" using nth_mem [OF i(1)] by auto
  note la = la1 this
  have other: "la \<noteq> f \<and> f \<notin> set (addrs (bs ! j)) \<and> (j \<noteq> i \<longrightarrow> la \<notin> set (addrs (bs ! j)))" if "j < length bs" for j
  proof -
    have "f \<notin> set (concat (map addrs bs))" using dist by simp
    then have "la \<noteq> f \<and> f \<notin> set (addrs (bs ! j))" using la(2) nth_mem [OF that] by auto
    moreover have "la \<notin> set (addrs (bs ! j))" if "j \<noteq> i"
      using distinct_concat_nth [of "map addrs bs" j i] dist that i(1) \<open>j < length bs\<close> la(1) by auto
    ultimately show ?thesis by blast
  qed
  have "\<exists>b'. represents b' h' \<and> addr_of b' = f \<and> levels b' = levels (Fork f kk bs) \<and>
      (\<exists>P Q. addrs (Fork f kk bs) = P @ la # Q \<and> addrs b' = P @ la # a1 # Q) \<and>
      inorder b' = weave_pre i ?xss ?kk @ ?E ys @ Sep (DBKey sep) # ?E zs @ weave_post i ?xss ?kk"
    if h': "\<forall>a. a \<notin> {la, f, a1} \<longrightarrow> h' a = h a" "a1 \<notin> set (addrs (Fork f kk bs))" "leaf_node h' la ys" "leaf_node h' a1 zs"
      "inner_node h' f (insert_at i sep kk) (insert_at i la ((map addr_of bs)[i := a1]))" for h' a1 sep ys zs
  proof -
    let ?bs = "insert_at i (Tip la ys) (bs[i := Tip a1 zs])"
    let ?b = "Fork f (insert_at i sep kk) ?bs"
    have "represents (bs ! j) h'" if "j < length bs" "j \<noteq> i" for j
    proof (rule represents_frame [OF reps [OF that(1)]], intro ballI h'(1) [rule_format])
      fix a assume a: "a \<in> set (addrs (bs ! j))"
      then have "a \<in> set (concat (map addrs bs))" using that(1) by (auto intro!: bexI [of _ "bs ! j"])
      then show "a \<notin> {la, f, a1}" using other [OF that(1)] that(2) a h'(2) by auto
    qed
    then have "list_all (\<lambda>b. represents b h') (bs[i := Tip a1 zs])"
      using h'(4) i(1) by (auto simp: list_all_length nth_list_update)
    then have "list_all (\<lambda>b. represents b h') ?bs" using h'(3) by simp
    moreover have "map addr_of ?bs = insert_at i la ((map addr_of bs)[i := a1])" by (simp add: map_update)
    ultimately have "represents ?b h'" using h'(5) by (simp add: list_all_iff)
    moreover have "levels ?b = levels (Fork f kk bs)"
    proof -
      have "list_all (\<lambda>g. g n) (map levels (bs[i := Tip a1 zs])) = list_all (\<lambda>g. g n) (map levels bs)" for n
        using i by (auto simp: list_all_length nth_list_update) (metis levels.simps(1))
      then show ?thesis by simp
    qed
    moreover have "inorder ?b = weave_pre i ?xss ?kk @ ?E ys @ Sep (DBKey sep) # ?E zs @ weave_post i ?xss ?kk"
      using weave_insert [OF len ile, of "?E ys" "?E zs" "Sep (DBKey sep)"] by (simp add: map_update)
    moreover have "addrs ?b = (f # concat (map addrs (take i bs))) @ la # a1 # concat (map addrs (drop (Suc i) bs))"
      using i(1) by (simp add: insert_at_def upd_conv_take_nth_drop)
    moreover have "addrs (Fork f kk bs) = (f # concat (map addrs (take i bs))) @ la # concat (map addrs (drop (Suc i) bs))"
      using concat_split_nth [of i "map addrs bs"] i by (simp add: take_map drop_map)
    ultimately show ?thesis by (metis addr_of.simps(2))
  qed
  moreover have "Sep (DBKey (kk ! j)) \<in> set (weave_pre i ?xss ?kk)" if "j < i" for j
    using weave_pre_sep [OF len that ile] that ile by simp
  moreover have "Sep (DBKey (kk ! j)) \<in> set (weave_post i ?xss ?kk)" if "j < length kk" "i \<le> j" for j
    using weave_post_sep [OF len that(2)] that(1) by simp
  moreover have "leaf_node h la xs" "inner_node h f kk (map addr_of bs)"
    using reps [OF i(1)] i(2) rep by simp_all
  moreover have "inorder (Fork f kk bs) = weave_pre i ?xss ?kk @ ?E xs @ weave_post i ?xss ?kk"
    using weave_split [OF len ile] i by simp
  ultimately show ?thesis using i la(2) unfolding branch_def by simp
qed

lemma branch_Fork:
  assumes rep: "represents (Fork a ks bs) h" and i: "i < length bs" and branch: "branch (bs ! i) h la f kk cs j xs pre post"
    and dist: "distinct (addrs (Fork a ks bs))"
  shows "branch (Fork a ks bs) h la f kk cs j xs (weave_pre i (map inorder bs) (map (Sep \<circ> DBKey) ks) @ pre)
    (post @ weave_post i (map inorder bs) (map (Sep \<circ> DBKey) ks))"
proof -
  let ?E = "map (\<lambda>(k, v). Ent k v)" and ?xss = "map inorder bs" and ?ks = "map (Sep \<circ> DBKey) ks"
  have len: "length ?xss = Suc (length ?ks)" using rep by (auto simp: inner_node_def)
  have ile: "i \<le> length ?ks" using len i by simp
  have in_i: "la \<in> set (addrs (bs ! i))" "f \<in> set (addrs (bs ! i))" using branch by (simp_all add: branch_def)
  then have in_all: "la \<in> set (concat (map addrs bs))" "f \<in> set (concat (map addrs bs))" using nth_mem [OF i] by auto
  have dc: "distinct (concat (map addrs bs))" "a \<notin> set (concat (map addrs bs))" using dist by simp_all
  have "\<exists>b'. represents b' h' \<and> addr_of b' = a \<and> levels b' = levels (Fork a ks bs) \<and>
      (\<exists>P Q. addrs (Fork a ks bs) = P @ la # Q \<and> addrs b' = P @ la # a1 # Q) \<and>
      inorder b' = (weave_pre i ?xss ?ks @ pre) @ ?E ys @ Sep (DBKey sep) # ?E zs @ post @ weave_post i ?xss ?ks"
    if h': "\<forall>c. c \<notin> {la, f, a1} \<longrightarrow> h' c = h c" "a1 \<notin> set (addrs (Fork a ks bs))" "leaf_node h' la ys" "leaf_node h' a1 zs"
      "inner_node h' f (insert_at j sep kk) (insert_at j la (cs[j := a1]))" for h' a1 sep ys zs
  proof -
    have "a1 \<notin> set (addrs (bs ! i))" using h'(2) nth_mem [OF i] by auto
    then obtain b' P Q where b': "represents b' h'" "addr_of b' = addr_of (bs ! i)" "levels b' = levels (bs ! i)"
        "addrs (bs ! i) = P @ la # Q" "addrs b' = P @ la # a1 # Q"
        "inorder b' = pre @ ?E ys @ Sep (DBKey sep) # ?E zs @ post"
      using branch h'(1,3-5) unfolding branch_def by blast
    have "represents (bs ! m) h'" if "m < length bs" "m \<noteq> i" for m
    proof (rule represents_frame [where h = h], goal_cases)
      case 1
      then show ?case using rep that(1) by (simp add: list_all_length)
    next
      case 2
      show ?case
      proof (intro ballI h'(1) [rule_format])
      fix c assume c: "c \<in> set (addrs (bs ! m))"
      then have "c \<in> set (concat (map addrs bs))" using that(1) by (auto intro!: bexI [of _ "bs ! m"])
      moreover have "set (addrs (bs ! i)) \<inter> set (addrs (bs ! m)) = {}"
        using distinct_concat_nth [of "map addrs bs" i m] dc(1) that i by simp
      ultimately show "c \<notin> {la, f, a1}" using in_i c h'(2) by auto
      qed
    qed
    then have reps: "list_all (\<lambda>g. g h') (map represents (bs[i := b']))"
      using b'(1) i by (auto simp: list_all_length nth_list_update)
    have "a \<notin> {la, f, a1}" using dc(2) in_all h'(2) by auto
    then have "inner_node h' a ks (map addr_of bs)" using rep h'(1) by (simp add: inner_node_def)
    moreover have "map addr_of (bs[i := b']) = map addr_of bs" "map levels (bs[i := b']) = map levels bs"
      using b'(2,3) i by (simp_all add: map_update list_update_same_conv)
    ultimately have "represents (Fork a ks (bs[i := b'])) h'" "levels (Fork a ks (bs[i := b'])) = levels (Fork a ks bs)"
      using reps by simp_all
    moreover have "inorder (Fork a ks (bs[i := b'])) =
        (weave_pre i ?xss ?ks @ pre) @ ?E ys @ Sep (DBKey sep) # ?E zs @ post @ weave_post i ?xss ?ks"
      using b'(6) by (simp add: map_update weave_update [OF len ile])
    moreover have "addrs (Fork a ks bs) = (a # concat (map addrs (take i bs)) @ P) @ la # Q @ concat (map addrs (drop (Suc i) bs))"
      using concat_split_nth [of i "map addrs bs"] i b'(4) by (simp add: take_map drop_map)
    moreover have "addrs (Fork a ks (bs[i := b'])) =
        (a # concat (map addrs (take i bs)) @ P) @ la # a1 # Q @ concat (map addrs (drop (Suc i) bs))"
      using i b'(5) by (simp add: upd_conv_take_nth_drop)
    ultimately show ?thesis by (metis addr_of.simps(2))
  qed
  note grow = this
  have io: "inorder (Fork a ks bs) = (weave_pre i ?xss ?ks @ pre) @ ?E xs @ post @ weave_post i ?xss ?ks"
    using branch i weave_split [OF len ile] by (simp add: branch_def)
  have mem: "la \<in> set (addrs (Fork a ks bs))" "f \<in> set (addrs (Fork a ks bs))" using in_all by simp_all
  have seps: "\<forall>m < j. Sep (DBKey (kk ! m)) \<in> set (weave_pre i ?xss ?ks @ pre)"
    "\<forall>m < length kk. j \<le> m \<longrightarrow> Sep (DBKey (kk ! m)) \<in> set (post @ weave_post i ?xss ?ks)"
    using branch by (simp_all add: branch_def)
  have nodes: "leaf_node h la xs" "inner_node h f kk cs" "j < length cs" "cs ! j = la" using branch by (simp_all add: branch_def)
  show ?thesis
    unfolding branch_def addr_of.simps
    by (intro conjI) (fact nodes mem io seps | (intro allI impI, rule grow; assumption))+
qed

text \<open>The descent in a tree with a root above the leaves ends at a leaf below a parent.\<close>

lemma descend_branch:
  assumes "represents b (btree_heap t)" "levels b slots" "sorted_wrt item_lt (inorder b)" "distinct (addrs b)"
    and "key_arg key n" "btree_descend t key n slots (addr_of b) (addr_of b # up) = Inr (Some (la # path))" "la \<noteq> addr_of b"
  shows "\<exists>f path' kk cs i xs pre post. path = f # path' \<and> branch b (btree_heap t) la f kk cs i xs pre post \<and>
    (\<forall>x \<in> set pre. item_lt x (Ent key val)) \<and> (\<forall>y \<in> set post. item_lt (Ent key val) y)"
  using assms
proof (induction b arbitrary: slots up)
  case (Tip a xs)
  then show ?case using descend_leaf [of t a xs key n slots "a # up"] by simp
next
  case (Fork a ks bs)
  let ?i = "lower_bound (map DBKey ks) (DBKey key)" and ?ks = "map (Sep \<circ> DBKey) ks"
  have inner: "inner_node (btree_heap t) a ks (map addr_of bs)" using Fork.prems(1) by simp
  then have len: "length bs = Suc (length ks)" by (auto simp: inner_node_def)
  have i: "?i < length bs" using lower_bound_le [of "map DBKey ks" "DBKey key"] len by simp
  obtain s where s: "slots = Suc s" "levels (bs ! ?i) s"
    using Fork.prems(2) i by (cases slots) (auto simp: list_all_length)
  note d = descend_inner [OF inner Fork.prems(5), of slots "a # up", unfolded s(1) Let_def]
  have new: "key \<notin> set ks" using d Fork.prems(6) s(1) by (auto split: if_splits)
  let ?b = "bs ! ?i"
  have run: "btree_descend t key n s (addr_of ?b) (addr_of ?b # a # up) = Inr (Some (la # path))"
    using d new i s(1) Fork.prems(6) by simp
  have lenx: "length (map inorder bs) = Suc (length ks)" "length (map inorder bs) = Suc (length ?ks)" using len by simp_all
  have ile: "?i \<le> length ?ks" using i len by simp
  have sorted: "sorted_wrt item_lt (weave (map inorder bs) ?ks)" using Fork.prems(3) by simp
  note bounds = weave_bounds [OF lenx(1) sorted new, where val = val]
  have rb: "represents ?b (btree_heap t)" using Fork.prems(1) i by (simp add: list_all_length)
  have sub: "sorted_wrt item_lt (inorder ?b)"
    using sorted i unfolding weave_split [OF lenx(2) ile] by (simp add: sorted_wrt_append)
  have db: "distinct (addrs ?b)" using Fork.prems(4) i by (auto simp: distinct_concat_iff)
  show ?case
  proof (cases "la = addr_of ?b")
    case True
    show ?thesis
    proof (cases ?b)
      case (Tip c xs)
      then have "path = a # up"
        using run rb descend_leaf [of t c xs key n s "c # a # up"] by simp
      moreover have "c = la" using True Tip by simp
      ultimately show ?thesis
        using branch_here [OF Fork.prems(1) i, of la xs] Tip bounds Fork.prems(4) by blast
    next
      case (Fork c ks' cs)
      then have "\<not> leaf_node (btree_heap t) la xs" for xs
        using rb True by (auto simp: inner_node_def leaf_node_def leaf_ok_def leaf_inv_def internal_inv_def)
      moreover have "\<exists>xs. leaf_node (btree_heap t) la xs"
        using descend_tree [OF rb s(2) sub db Fork.prems(5), of "a # up" val] run by (auto simp: hole_def)
      ultimately show ?thesis by blast
    qed
  next
    case False
    from Fork.IH [OF nth_mem [OF i] rb s(2) sub db Fork.prems(5) run False]
    obtain f path' kk cs j xs pre post where h: "path = f # path'" "branch ?b (btree_heap t) la f kk cs j xs pre post"
        "\<forall>x \<in> set pre. item_lt x (Ent key val)" "\<forall>y \<in> set post. item_lt (Ent key val) y"
      by blast
    note hf = branch_Fork [OF Fork.prems(1) i h(2) Fork.prems(4)]
    show ?thesis
      using h(1,3,4) hf bounds
      by (intro exI [of _ f] exI [of _ path'] exI [of _ kk] exI [of _ cs] exI [of _ j] exI [of _ xs] exI conjI)
        (assumption | auto)+
  qed
qed

section \<open>Insertion that splits a leaf below the root\<close>

lemma represents_allocated: "represents b h \<Longrightarrow> a \<in> set (addrs b) \<Longrightarrow> h a \<noteq> None"
  by (induction b) (auto simp: leaf_node_def inner_node_def list_all_iff)

lemma item_lt_as_sep: "item_lt (Ent k v) y \<Longrightarrow> item_lt (Sep (DBKey k)) y"
  by (cases y) auto

text \<open>The new separator goes right behind those before the leaf.\<close>

lemma branch_sep:
  assumes sorted: "sorted_wrt item_lt (inorder b)" and br: "branch b h la f kk cs i xs pre post"
    and len: "length cs = Suc (length kk)" and k: "0 < k" "k < length xs" and sp: "sp = fst (xs ! k)"
  shows "lower_bound (map DBKey kk) (DBKey sp) = i" "sp \<notin> set kk"
    "x \<in> set pre \<Longrightarrow> item_lt x (Sep (DBKey sp))" "y \<in> set post \<Longrightarrow> item_lt (Sep (DBKey sp)) y"
proof -
  let ?E = "map (\<lambda>(k, v). Ent k v)" and ?K = "DBKey \<circ> fst"
  have io: "inorder b = pre @ ?E xs @ post" and i: "i < length cs"
    and seps: "\<forall>j < i. Sep (DBKey (kk ! j)) \<in> set pre" "\<forall>j < length kk. i \<le> j \<longrightarrow> Sep (DBKey (kk ! j)) \<in> set post"
    using br by (simp_all add: branch_def)
  have "sorted_wrt item_lt (?E xs)" using sorted io by (simp add: sorted_wrt_append)
  then have "sorted_wrt (<) (map ?K xs)" by (simp add: sorted_wrt_map case_prod_beta)
  from sorted_wrt_nth_less [OF this k(1)] have first: "DBKey (fst (xs ! 0)) < DBKey sp" using k sp by (cases xs) simp_all
  have mem: "Ent (fst (xs ! j)) (snd (xs ! j)) \<in> set (?E xs)" if "j < length xs" for j
    using that by (auto simp: case_prod_beta)
  show below: "item_lt x (Sep (DBKey sp))" if "x \<in> set pre" for x
  proof -
    have "item_lt x (Ent (fst (xs ! 0)) (snd (xs ! 0)))"
      using sorted that mem [of 0] k(2) unfolding io sorted_wrt_append by (metis Un_iff less_nat_zero_code neq0_conv set_append)
    then show ?thesis using first by (cases x) auto
  qed
  show above: "item_lt (Sep (DBKey sp)) y" if "y \<in> set post" for y
    using sorted that mem [OF k(2)] unfolding io sorted_wrt_append sp by (auto intro!: item_lt_as_sep)
  show "lower_bound (map DBKey kk) (DBKey sp) = i"
    using seps below above i len by (intro lower_bound_eqI) (fastforce intro: less_imp_le)+
  show "sp \<notin> set kk"
  proof
    assume "sp \<in> set kk"
    then obtain j where "j < length kk" "kk ! j = sp" by (auto simp: in_set_conv_nth)
    then show False using seps below [of "Sep (DBKey sp)"] above [of "Sep (DBKey sp)"] by (cases "j < i") auto
  qed
qed

lemma grow_order:
  fixes key val :: "u8 list" and xs :: "(u8 list \<times> u8 list) list"
  assumes sorted: "sorted_wrt item_lt (pre @ map (\<lambda>(k, v). Ent k v) xs @ post)" and k: "k < length xs" "sp = fst (xs ! k)"
    and key: "key \<notin> fst ` set xs" "split_halves key val xs k = (l, r)"
    and pre: "\<forall>x \<in> set pre. item_lt x (Ent key val)" "\<forall>x \<in> set pre. item_lt x (Sep (DBKey sp))"
    and post: "\<forall>y \<in> set post. item_lt (Ent key val) y" "\<forall>y \<in> set post. item_lt (Sep (DBKey sp)) y"
  shows "sorted_wrt item_lt (pre @ map (\<lambda>(k, v). Ent k v) l @ Sep (DBKey sp) # map (\<lambda>(k, v). Ent k v) r @ post)"
    "set (l @ r) = insert (key, val) (set xs)"
proof -
  let ?E = "map (\<lambda>(k, v). Ent k v)"
  let ?mid = "?E l @ Sep (DBKey sp) # ?E r"
  have "sorted_wrt item_lt (?E xs)" using sorted by (simp add: sorted_wrt_append)
  then have "sorted_wrt (<) (map (DBKey \<circ> fst) xs)" by (simp add: sorted_wrt_map case_prod_beta)
  note si = split_inorder [OF this k(1) key, folded k(2)]
  show "set (l @ r) = insert (key, val) (set xs)" by (fact si(2))
  then have cases: "z = Sep (DBKey sp) \<or> z \<in> set (?E xs) \<or> z = Ent key val" if "z \<in> set ?mid" for z
    using that by auto
  have "\<forall>x \<in> set pre. \<forall>z \<in> set ?mid. item_lt x z"
    using cases pre sorted unfolding sorted_wrt_append by (metis Un_iff set_append)
  moreover have "\<forall>z \<in> set ?mid. \<forall>y \<in> set post. item_lt z y"
    using cases post sorted unfolding sorted_wrt_append by metis
  ultimately have "sorted_wrt item_lt (pre @ ?mid @ post)"
    using si(1) sorted unfolding sorted_wrt_append by (metis Un_iff set_append)
  then show "sorted_wrt item_lt (pre @ ?E l @ Sep (DBKey sp) # ?E r @ post)" by simp
qed

text \<open>The run of the insertion: what becomes of the parent, the old leaf and the new leaf.\<close>

lemma split_below_run:
  fixes t :: btree
  assumes leaf: "btree_heap t la = Some p" "leaf_inv p ts" "node_is_full p ks vs = Some True"
    and parent: "btree_heap t f = Some fp" "internal_inv fp us" "internal_entries fp = zip kk cs"
      "length cs = Suc (length kk)" "node_rightmost_pid fp = last cs" "last cs \<noteq> 0"
    and arg: "key_arg key ks" "length val = unat vs" "cell_space (unat ks + unat vs) \<le> 1988"
    and run: "btree_descend t key ks 15 (btree_root t) [btree_root t] = Inr (Some (la # f # up))"
    and k: "k = node_partition_idx p" "unat k < node_count p"
    and sep: "sp = fst (leaf_entries p ! unat k)" "key \<notin> fst ` set (leaf_entries p)"
    and half: "DBKey sp < DBKey key \<or> 60 + 4 * unat k + cell_space (unat ks + unat vs) \<le> unat (node_cell_offset p)"
      "split_halves key val (leaf_entries p) (unat k) = (xl, xr)"
    and room: "fresh_room fp (length sp)" "sp \<notin> set kk"
    and i: "lower_bound (map DBKey kk) (DBKey sp) = i" "i < length cs"
    and alloc: "alloc (btree_heap t) = Some (a1, m)" "a1 \<noteq> 0" "btree_heap t a1 = None"
  shows "\<exists>t'. btree_insert alloc t key ks val vs = Inr (0, t') \<and> btree_root t' = btree_root t \<and>
    btree_count t' = btree_count t + 1 \<and> (\<forall>a. a \<notin> {la, f, a1} \<longrightarrow> btree_heap t' a = btree_heap t a) \<and>
    leaf_node (btree_heap t') la xl \<and> leaf_node (btree_heap t') a1 xr \<and>
    inner_node (btree_heap t') f (insert_at i sp kk) (insert_at i la (cs[i := a1]))"
proof -
  let ?xs = "leaf_entries p" and ?k = "unat k"
  obtain c t1 cr at_root t2 p' q' r where st: "prepare_leaf alloc t la key ks = Inr (c, t1)"
      "bc_f_node c = (if DBKey (fst (?xs ! ?k)) < DBKey key then a1 else la)"
      "propagate alloc t1 (f # up) c [] = Inr (cr, at_root, t1)" "\<not> bc_is_full (hd cr)" "write_down t1 (bc_f_node c) cr = Inr t2"
      "t2 = t\<lparr>btree_heap := (btree_heap t)(f \<mapsto> r, la \<mapsto> p', a1 \<mapsto> q')\<rparr>"
      "leaf_inv p' (rev (map (cell_at p) [?k..<node_count p]) @ ts)" "leaf_inv q' []"
      "leaf_entries p' = take ?k ?xs" "leaf_entries q' = drop ?k ?xs" "internal_inv r us"
      "internal_entries r = zip (insert_at i sp kk) (insert_at i la (cs[i := a1]))"
      "node_rightmost_pid r = last (insert_at i la (cs[i := a1]))"
      "unat (node_cell_offset q') + (bytes_before p (node_count p) - bytes_before p ?k) = 4096" "left_half p ?k p'"
    using split_below [where up = up and alloc = alloc and t = t, OF leaf(1,2) parent(1-5) alloc k arg(1)
        room(2) [unfolded sep(1)] room(1) [unfolded sep(1)], folded sep(1), unfolded i(1)] sep(1)
    by metis
  have a: "a1 \<noteq> la" "a1 \<noteq> f" "f \<noteq> la"
    using alloc(3) leaf(1,2) parent(1,2) by (auto simp: leaf_inv_def internal_inv_def)
  have ln: "leaf_node (btree_heap t2) la (take ?k ?xs)" "leaf_node (btree_heap t2) a1 (drop ?k ?xs)"
    using st(6-10) a by (auto simp: leaf_node_def leaf_ok_def)
  have "fresh_room g (unat ks + unat vs)" if "btree_heap t2 (bc_f_node c) = Some g" for g
    using that half(1) right_half_room [OF leaf(2) k st(10,14) arg(3)] left_half_room [OF st(15)] st(2,6) a sep(1)
    by (auto split: if_splits)
  from insert_into_half [OF ln a(1) [symmetric] st(2) this _ arg(2) sep(2) half(2)] arg(1)
  obtain q where q: "btree_insert_leaf t2 (bc_f_node c) key ks val vs =
      Inr (0, (store_node t2 (bc_f_node c) q)\<lparr>btree_count := btree_count t2 + 1\<rparr>)"
      "leaf_node ((btree_heap t2)(bc_f_node c \<mapsto> q)) la xl" "leaf_node ((btree_heap t2)(bc_f_node c \<mapsto> q)) a1 xr"
    by (auto simp: key_arg_def)
  let ?t = "(store_node t2 (bc_f_node c) q)\<lparr>btree_count := btree_count t2 + 1\<rparr>"
  have ins: "btree_insert alloc t key ks val vs = Inr (0, ?t)"
    using run leaf(1,3) st(1,3-5) q(1) by (simp add: btree_insert_def load_node_def del: propagate.simps write_down.simps)
  have h: "btree_heap ?t = (btree_heap t2)(bc_f_node c \<mapsto> q)" by (simp add: store_node_def)
  have at: "btree_heap ?t f = Some r" "\<forall>x. x \<notin> {la, f, a1} \<longrightarrow> btree_heap ?t x = btree_heap t x"
    using st(2) a by (simp_all add: st(6) store_node_def)
  have "leaf_node (btree_heap ?t) la xl" "leaf_node (btree_heap ?t) a1 xr" using q(2,3) unfolding h by simp_all
  moreover have "inner_node (btree_heap ?t) f (insert_at i sp kk) (insert_at i la (cs[i := a1]))"
  proof -
    have "cs \<noteq> []" using parent(4) by auto
    then have "last (insert_at i la (cs[i := a1])) \<noteq> 0"
      using i(2) parent(6) alloc(2) by (simp add: last_insert_at last_list_update)
    then show ?thesis using st(11-13) i(2) parent(4) at(1) by (auto simp: inner_node_def)
  qed
  moreover have "btree_root ?t = btree_root t" "btree_count ?t = btree_count t + 1" using st(6) by (simp_all add: store_node_def)
  ultimately show ?thesis using ins at(2) by blast
qed

lemma insert_split_below:
  assumes inv: "tree_inv b t" "levels b 15" and arg: "key_arg key ks" "length val = unat vs"
      "cell_space (unat ks + unat vs) \<le> 1988" and new: "key \<notin> fst ` set (entries b)"
    and run: "btree_descend t key ks 15 (btree_root t) [btree_root t] = Inr (Some (la # path))" "la \<noteq> btree_root t"
    and leaf: "btree_heap t la = Some p" "node_is_full p ks vs = Some True"
    and k: "k = node_partition_idx p" "unat k < node_count p"
    and sep: "sp = fst (leaf_entries p ! unat k)"
      "DBKey sp < DBKey key \<or> 60 + 4 * unat k + cell_space (unat ks + unat vs) \<le> unat (node_cell_offset p)"
    and room: "\<forall>fp. btree_heap t (hd path) = Some fp \<longrightarrow> fresh_room fp (length sp)"
    and alloc: "alloc (btree_heap t) = Some (a1, m)" "a1 \<noteq> 0" "btree_heap t a1 = None"
  shows "\<exists>t' b'. btree_insert alloc t key ks val vs = Inr (0, t') \<and> tree_inv b' t' \<and> levels b' = levels b \<and>
    set (addrs b') = insert a1 (set (addrs b)) \<and> btree_root t' = btree_root t \<and> btree_count t' = btree_count t + 1 \<and>
    set (entries b') = insert (key, val) (set (entries b))"
proof -
  let ?E = "map (\<lambda>(k, v). Ent k v)" and ?k = "unat k"
  have rep: "represents b (btree_heap t)" "addr_of b = btree_root t" "sorted_wrt item_lt (inorder b)" "distinct (addrs b)"
    using inv(1) by (simp_all add: tree_inv_def)
  obtain f up kk cs i xs pre post where br: "path = f # up" "branch b (btree_heap t) la f kk cs i xs pre post"
      "\<forall>x \<in> set pre. item_lt x (Ent key val)" "\<forall>y \<in> set post. item_lt (Ent key val) y"
    using descend_branch [OF rep(1) inv(2) rep(3,4) arg(1), unfolded rep(2), OF run, of val] by blast
  have nodes: "leaf_node (btree_heap t) la xs" "inner_node (btree_heap t) f kk cs" "i < length cs"
    and io: "inorder b = pre @ ?E xs @ post"
    using br(2) by (simp_all add: branch_def)
  obtain ts where p: "leaf_inv p ts" "leaf_entries p = xs" using nodes(1) leaf(1) by (auto simp: leaf_node_def leaf_ok_def)
  obtain fp us where fp: "btree_heap t f = Some fp" "internal_inv fp us" "internal_entries fp = zip kk cs"
      "length cs = Suc (length kk)" "node_rightmost_pid fp = last cs" "last cs \<noteq> 0"
    using nodes(2) by (auto simp: inner_node_def)
  have k0: "0 < ?k"
    using node_partition_idx_eq(3) [of p ts] p(1) k by (cases "?k") (simp_all add: leaf_inv_def bytes_before_def)
  have sp: "sp = fst (xs ! ?k)" "?k < length xs" using sep(1) p(2) k(2) by auto
  note bs = branch_sep [OF rep(3) br(2) fp(4) k0 sp(2,1)]
  have nk: "key \<notin> fst ` set xs" using new by (auto simp: entries_def io ent_of_map)
  obtain xl xr where lr: "split_halves key val xs ?k = (xl, xr)" by (cases "split_halves key val xs ?k")
  have rm: "fresh_room fp (length sp)" using room br(1) fp(1) by simp
  obtain t' where t': "btree_insert alloc t key ks val vs = Inr (0, t')" "btree_root t' = btree_root t"
    "btree_count t' = btree_count t + 1" "\<forall>a. a \<notin> {la, f, a1} \<longrightarrow> btree_heap t' a = btree_heap t a"
    "leaf_node (btree_heap t') la xl" "leaf_node (btree_heap t') a1 xr"
    "inner_node (btree_heap t') f (insert_at i sp kk) (insert_at i la (cs[i := a1]))"
    using split_below_run [where t = t and alloc = alloc, OF leaf(1) p(1) leaf(2) fp arg run(1) [unfolded br(1)] k
        sep(1) nk [folded p(2)] sep(2) lr [folded p(2)] rm bs(2,1) nodes(3) alloc] by blast
  have fresh: "a1 \<notin> set (addrs b)" using represents_allocated [OF rep(1)] alloc(3) by blast
  with t' obtain b' P Q where b': "represents b' (btree_heap t')" "addr_of b' = addr_of b" "levels b' = levels b"
      "addrs b = P @ la # Q" "addrs b' = P @ la # a1 # Q" "inorder b' = pre @ ?E xl @ Sep (DBKey sp) # ?E xr @ post"
    using br(2) unfolding branch_def by blast
  note o = grow_order [OF rep(3) [unfolded io] sp(2,1) nk lr br(3) _ br(4)]
  have "sorted_wrt item_lt (inorder b')" using o(1) bs(3,4) unfolding b'(6) by blast
  moreover have "distinct (addrs b')" using rep(4) fresh by (auto simp: b'(4,5))
  ultimately have "tree_inv b' t'" using b'(1,2) rep(2) t'(2) by (simp add: tree_inv_def)
  moreover have "set (xl @ xr) = insert (key, val) (set xs)" using o(2) bs(3,4) by blast
  then have "set (entries b') = insert (key, val) (set (entries b))" by (auto simp: entries_def b'(6) io ent_of_map)
  moreover have "set (addrs b') = insert a1 (set (addrs b))" by (auto simp: b'(4,5))
  ultimately show ?thesis using t'(1-3) b'(3) by blast
qed

end
