(* ===== verification/Btree_Left.thy ===== *)
theory Btree_Left
  imports Btree_Grow_Tree
begin

text \<open>
  Insertion into the left half of a split leaf when the gap is too small.  The split moves no cell
  of that half, so the space of the moved cells is there as tombstones only, and the insertion
  considers one of them: the last cell of the old leaf.
\<close>

definition small_gap :: "page \<Rightarrow> nat \<Rightarrow> nat \<Rightarrow> bool" where
  "small_gap p k content \<longleftrightarrow> unat (node_cell_offset p) < 56 + 4 * k + cell_space content"

lemma left_half_space:
  assumes half: "left_half p k p'" and inv: "leaf_inv p' ts" and gap: "small_gap p k (unat ks + unat vs)"
    and small: "unat ks + unat vs < 2 ^ 31"
  shows "node_free_space p' < new_cell_size ks vs"
proof -
  have "node_layout p' [0..<node_count p'] ts" using inv by (simp add: leaf_inv_def node_wf_def)
  from unat_node_free_space [OF this] show ?thesis
    using half gap cell_space_bounds(1) [of "unat ks + unat vs"]
    by (simp add: word_less_nat_alt unat_new_cell_size [OF small] left_half_def small_gap_def)
qed

lemma left_insert_none:
  assumes h: "btree_heap t la = Some p'" and half: "left_half p k p'" and inv: "leaf_inv p' ts"
    and gap: "small_gap p k (unat ks + unat vs)" "unat ks + unat vs < 2 ^ 31"
    and last: "cell_len p (cell_at p (node_count p - 1)) < cell_space (unat ks + unat vs)"
  shows "btree_insert_leaf t la key ks val vs = Inl AssertFail"
proof -
  have "cell_tombstone_size p' (unat (node_tombstone_offset p')) < new_cell_size ks vs"
    using half last by (simp add: left_half_def word_less_nat_alt unat_new_cell_size [OF gap(2)])
  then have "node_get_free_offset p' ks vs = (0, p')"
    using left_half_space [OF half inv gap] by (intro free_offset_none) simp_all
  then show ?thesis using h by (simp add: btree_insert_leaf_def load_node_def)
qed

lemma search_returns: "node_count p < 2 ^ 31 \<Longrightarrow> \<exists>found idx. node_bin_search p key ks = Some (found, idx) \<and> unat idx \<le> node_count p"
  using bin_search_loop_returns [of 0 "node_size p"] unfolding node_bin_search_def node_count_def by fastforce

lemma left_insert_reuse:
  assumes h: "btree_heap t la = Some p'" and half: "left_half p k p'" and inv: "leaf_inv p' ts"
    and gap: "small_gap p k (unat ks + unat vs)" "unat ks + unat vs < 2 ^ 31"
    and room: "60 + 4 * k \<le> unat (node_cell_offset p)"
    and last: "cell_space (unat ks + unat vs) \<le> cell_len p (cell_at p (node_count p - 1))"
    and arg: "length key = unat ks" "length val = unat vs"
  shows "\<exists>q. btree_insert_leaf t la key ks val vs = Inr (0, (store_node t la q)\<lparr>btree_count := btree_count t + 1\<rparr>) \<and>
    unat (node_cell_offset q) = cell_at p (node_count p - 1) \<and>
    ((\<exists>i < k. cell_at p i < cell_at p (node_count p - 1)) \<longrightarrow> (\<forall>us. \<not> node_wf q us))"
proof -
  let ?c = "cell_at p (node_count p - 1)"
  have wf: "node_wf p' ts" using inv by (simp add: leaf_inv_def)
  note lay = wf [unfolded node_wf_def]
  have head: "node_tombstone_offset p' \<noteq> 0" "unat (node_tombstone_offset p') = ?c"
    "unat (cell_tombstone_size p' ?c) = cell_len p ?c" "node_count p' = k" "node_cell_offset p' = node_cell_offset p"
    "\<forall>i < k. cell_at p' i = cell_at p i"
    using half by (simp_all add: left_half_def)
  obtain us where ts: "ts = ?c # us"
    using node_layoutD(3) [OF lay] head(1,2) by (cases ts) simp_all
  have full: "node_free_space p' < new_cell_size ks vs" by (rule left_half_space [OF half inv gap])
  have fits: "new_cell_size ks vs \<le> cell_tombstone_size p' ?c"
    using last head(3) by (simp add: word_le_nat_alt unat_new_cell_size [OF gap(2)])
  obtain off p1 ws where p1: "node_get_free_offset p' ks vs = (off, p1)" "unat off = ?c" "node_count p1 = k"
    using tombstone_offset_reuse [OF lay [unfolded ts] gap(2) full fits] head(4) by blast
  have k31: "k < 2 ^ 31" using node_count_bound [OF lay] head(4) by simp
  then obtain found idx where s: "node_bin_search p1 key ks = Some (found, idx)" "unat idx \<le> k"
    using search_returns [of p1 key ks] p1(3) by auto
  have slot: "60 + 4 * node_count p' \<le> unat (node_cell_offset p')" "unat idx \<le> node_count p'"
    using room s(2) head(4,5) by simp_all
  let ?q = "node_insert_nonfull p' idx key ks val vs"
  note r = insert_nonfull_reuse [OF wf [unfolded ts] arg gap(2) full fits slot]
  have "unat off > 0" using node_layout_tomb(1) [OF lay, of ?c] node_layoutD(1) [OF lay] p1(2) by (simp add: ts)
  then have "off > 0" by (simp add: word_less_nat_alt)
  then have "btree_insert_leaf t la key ks val vs = Inr (0, (store_node t la ?q)\<lparr>btree_count := btree_count t + 1\<rparr>)"
    using h p1(1) s(1) by (simp add: btree_insert_leaf_def load_node_def node_insert_nonfull_def Let_def store_node_def)
  moreover have "\<not> node_wf ?q us" if i: "i < k" "cell_at p i < ?c" for i us
  proof
    assume wq: "node_wf ?q us"
    obtain j where j: "j < node_count ?q" "cell_at ?q j = cell_at p' i" using r(3) [of i] i(1) head(4) by auto
    from wq have "unat (node_cell_offset ?q) \<le> cell_at ?q j"
      unfolding node_wf_def by (rule node_layout_live(1)) (simp add: j(1))
    then show False using r(2) j(2) i head(6) by simp
  qed
  ultimately show ?thesis using r(2) by blast
qed

text \<open>The length of the last cell, from the entries.\<close>

lemma last_cell_len:
  assumes "leaf_inv p ts" "0 < node_count p" "last (leaf_entries p) = (k, v)"
  shows "cell_len p (cell_at p (node_count p - 1)) = 16 + length k + length v"
proof -
  let ?c = "cell_at p (node_count p - 1)"
  have "leaf_cell_ok p ?c" using assms(1,2) by (simp add: leaf_inv_def cells_okD)
  moreover have "leaf_entry p ?c = (k, v)"
    using assms(2,3) unfolding leaf_entries_def node_view_def by (simp add: last_map)
  ultimately show ?thesis by (auto simp: leaf_cell_ok_def cell_len_def leaf_entry_def)
qed

section \<open>The outcome in a root leaf\<close>

lemma insert_left_root:
  assumes root: "btree_heap t (btree_root t) = Some p" and inv: "leaf_inv p ts"
    and alloc: "allocates alloc (btree_heap t) a1 a2" and full: "node_is_full p ks vs = Some True"
    and k: "k = node_partition_idx p" "unat k < node_count p" and arg: "key_arg key ks"
    and side: "\<not> DBKey (fst (leaf_entries p ! unat k)) < DBKey key"
  shows "\<exists>t3 p' ts'. btree_insert alloc t key ks val vs = btree_insert_leaf t3 (btree_root t) key ks val vs \<and>
    btree_heap t3 (btree_root t) = Some p' \<and> left_half p (unat k) p' \<and> leaf_inv p' ts'"
proof -
  let ?root = "btree_root t" and ?k = "unat k" and ?xs = "leaf_entries p"
  obtain c t1 t2 t3 p' q' pg ts' where sp: "prepare_leaf alloc t ?root key ks = Inr (c, t1)"
    "propagate alloc t1 [] c [] = Inr ([c], True, t1)" "bc_is_full c" "bc_f_node c = ?root"
    "split_root alloc t1 c = Inr t2" "write_down t2 (bc_f_node c) [c] = Inr t3"
    "t3 = t\<lparr>btree_root := a2, btree_heap := (btree_heap t)(a1 \<mapsto> q', a2 \<mapsto> pg, ?root \<mapsto> p')\<rparr>"
    "leaf_inv p' (rev (map (cell_at p) [?k..<node_count p]) @ ts')" "left_half p ?k p'"
    using split_root_leaf [OF root inv alloc k arg, unfolded if_not_P [OF side]] by blast
  have "node_is_leaf p" using inv by (simp add: leaf_inv_def)
  then have "btree_insert alloc t key ks val vs = btree_insert_leaf t3 ?root key ks val vs"
    using root full sp(1-6)
    by (simp add: btree_insert_def btree_descend.simps [of t key ks 15 ?root] load_node_def del: write_down.simps propagate.simps)
  moreover have "btree_heap t3 ?root = Some p'" by (simp add: sp(7))
  ultimately show ?thesis using sp(8,9) by blast
qed

section \<open>The outcome below a parent\<close>

lemma insert_left_below:
  fixes t :: btree
  assumes leaf: "btree_heap t la = Some p" "leaf_inv p ts" "node_is_full p ks vs = Some True"
    and run: "btree_descend t key ks 15 (btree_root t) [btree_root t] = Inr (Some (la # f # up))"
    and parent: "btree_heap t f = Some fp" "internal_inv fp us" "internal_entries fp = zip kk cs" "length cs = Suc (length kk)"
      "node_rightmost_pid fp = last cs"
    and alloc: "alloc (btree_heap t) = Some (a1, m)" "a1 \<noteq> 0" "btree_heap t a1 = None"
    and k: "k = node_partition_idx p" "unat k < node_count p" and arg: "key_arg key ks"
    and sep: "fst (leaf_entries p ! unat k) \<notin> set kk" "fresh_room fp (length (fst (leaf_entries p ! unat k)))"
    and side: "\<not> DBKey (fst (leaf_entries p ! unat k)) < DBKey key"
  shows "\<exists>t2 p' ts'. btree_insert alloc t key ks val vs = btree_insert_leaf t2 la key ks val vs \<and>
    btree_heap t2 la = Some p' \<and> left_half p (unat k) p' \<and> leaf_inv p' ts'"
proof -
  obtain c t1 cr at_root t2 p' q' r where st: "prepare_leaf alloc t la key ks = Inr (c, t1)" "bc_f_node c = la"
      "propagate alloc t1 (f # up) c [] = Inr (cr, at_root, t1)" "\<not> bc_is_full (hd cr)" "write_down t1 (bc_f_node c) cr = Inr t2"
      "t2 = t\<lparr>btree_heap := (btree_heap t)(f \<mapsto> r, la \<mapsto> p', a1 \<mapsto> q')\<rparr>"
      "leaf_inv p' (rev (map (cell_at p) [unat k..<node_count p]) @ ts)" "left_half p (unat k) p'"
    using split_below [where up = up and alloc = alloc and t = t, OF leaf(1,2) parent alloc k arg sep, unfolded if_not_P [OF side]]
    by blast
  have "a1 \<noteq> la" using alloc(3) leaf(1) by auto
  then have "btree_heap t2 la = Some p'" by (simp add: st(6))
  moreover have "btree_insert alloc t key ks val vs = btree_insert_leaf t2 la key ks val vs"
    using run leaf(1,3) st(1-5) by (simp add: btree_insert_def load_node_def del: propagate.simps write_down.simps)
  ultimately show ?thesis using st(7,8) by blast
qed

section \<open>The outcome in a tree\<close>

text \<open>What a split of the leaf at the head of a path needs: memory, and room in the parent.\<close>

definition split_supported :: "malloc \<Rightarrow> btree \<Rightarrow> u64 list \<Rightarrow> u8 list \<Rightarrow> bool" where
  "split_supported alloc t up sep \<longleftrightarrow> (case up of [] \<Rightarrow> \<exists>a1 a2. allocates alloc (btree_heap t) a1 a2
     | f # _ \<Rightarrow> \<exists>fp a1 m. btree_heap t f = Some fp \<and> fresh_room fp (length sep) \<and>
         alloc (btree_heap t) = Some (a1, m) \<and> a1 \<noteq> 0 \<and> btree_heap t a1 = None)"

lemma insert_left_tree:
  assumes inv: "tree_inv b t" "levels b 15" and arg: "key_arg key ks"
    and run: "btree_descend t key ks 15 (btree_root t) [btree_root t] = Inr (Some (la # up))"
    and leaf: "btree_heap t la = Some p" "node_is_full p ks vs = Some True"
    and k: "k = node_partition_idx p" "unat k < node_count p"
    and side: "\<not> DBKey (fst (leaf_entries p ! unat k)) < DBKey key"
    and mem: "split_supported alloc t up (fst (leaf_entries p ! unat k))"
  shows "\<exists>t2 p' ts ts'. btree_insert alloc t key ks val vs = btree_insert_leaf t2 la key ks val vs \<and>
    btree_heap t2 la = Some p' \<and> left_half p (unat k) p' \<and> leaf_inv p' ts' \<and> leaf_inv p ts"
proof -
  have rep: "represents b (btree_heap t)" "addr_of b = btree_root t" "sorted_wrt item_lt (inorder b)" "distinct (addrs b)"
    using inv(1) by (simp_all add: tree_inv_def)
  obtain xs where ln: "leaf_node (btree_heap t) la xs"
    using descend_tree [OF rep(1) inv(2) rep(3,4) arg, of "[]" "[]"] run rep(2) by (auto simp: hole_def)
  then obtain ts where p: "leaf_inv p ts" "leaf_entries p = xs" using leaf(1) by (auto simp: leaf_node_def leaf_ok_def)
  show ?thesis
  proof (cases "la = btree_root t")
    case True
    then have "up = []" using descend_leaf [of t la xs key ks 15 "[la]"] ln run by simp
    then obtain a1 a2 where "allocates alloc (btree_heap t) a1 a2" using mem by (auto simp: split_supported_def)
    from insert_left_root [OF leaf(1) [unfolded True] p(1) this leaf(2) k arg side] p(1) True show ?thesis by metis
  next
    case False
    obtain f up' kk cs i xs' pre post where br: "up = f # up'" "branch b (btree_heap t) la f kk cs i xs' pre post"
      using descend_branch [OF rep(1) inv(2) rep(3,4) arg, unfolded rep(2), OF run False] by blast
    have nodes: "leaf_node (btree_heap t) la xs'" "inner_node (btree_heap t) f kk cs" using br(2) by (simp_all add: branch_def)
    then have xs: "xs' = leaf_entries p" using leaf(1) by (auto simp: leaf_node_def)
    obtain fp us where fp: "btree_heap t f = Some fp" "internal_inv fp us" "internal_entries fp = zip kk cs"
        "length cs = Suc (length kk)" "node_rightmost_pid fp = last cs"
      using nodes(2) by (auto simp: inner_node_def)
    have k0: "0 < unat k"
      using node_partition_idx_eq(3) [of p ts] p(1) k by (cases "unat k") (simp_all add: leaf_inv_def bytes_before_def)
    have "unat k < length xs'" using k(2) by (simp add: xs)
    from branch_sep(2) [OF rep(3) br(2) fp(4) k0 this refl] have new: "fst (leaf_entries p ! unat k) \<notin> set kk"
      by (simp add: xs)
    obtain a1 m where m: "fresh_room fp (length (fst (leaf_entries p ! unat k)))" "alloc (btree_heap t) = Some (a1, m)"
        "a1 \<noteq> 0" "btree_heap t a1 = None"
      using mem fp(1) by (auto simp: split_supported_def br(1))
    from insert_left_below [where alloc = alloc, OF leaf(1) p(1) leaf(2) run [unfolded br(1)] fp m(2-4) k arg new m(1) side] p(1)
    show ?thesis by metis
  qed
qed

end
