(* ===== verification/Btree_Routes.thy ===== *)
theory Btree_Routes
  imports Btree_Tree
begin

text \<open>
  Steps of the descent through one inner page, stated on its entries: a key between two separators
  goes to the child between them, and a page without a rightmost child ends the descent.
\<close>

lemma zip_children: "zip (map fst es) (map snd es @ [c]) = es"
  by (induction es) simp_all

text \<open>An inner page as a node of the tree: its children are those of the entries and the rightmost one.\<close>

lemma inner_page:
  assumes "h a = Some p" "internal_inv p ts" "node_rightmost_pid p \<noteq> 0"
  shows "inner_node h a (map fst (internal_entries p)) (map snd (internal_entries p) @ [node_rightmost_pid p])"
  using assms unfolding inner_node_def by (intro exI [of _ p] exI [of _ ts]) (simp add: zip_children)

lemma internal_entries_ascending:
  assumes "internal_inv p ts" "j < j'" "j' < length (internal_entries p)"
  shows "DBKey (fst (internal_entries p ! j)) < DBKey (fst (internal_entries p ! j'))"
proof -
  have "sorted_wrt (<) (map (DBKey \<circ> fst) (internal_entries p))" using assms(1) by (simp add: internal_inv_def node_keys_internal)
  from sorted_wrt_nth_less [OF this assms(2)] show ?thesis using assms(2,3) by simp
qed

lemma descend_page:
  assumes "btree_heap t a = Some p" "internal_inv p ts" "node_rightmost_pid p \<noteq> 0" "key_arg key n"
    and "i \<le> length (internal_entries p)" "i < length (internal_entries p) \<Longrightarrow> DBKey key < DBKey (fst (internal_entries p ! i))"
    and "0 < i \<Longrightarrow> DBKey (fst (internal_entries p ! (i - 1))) < DBKey key"
  defines "c \<equiv> (map snd (internal_entries p) @ [node_rightmost_pid p]) ! i"
  shows "btree_descend t key n (Suc s) a crumbs = btree_descend t key n s c (c # crumbs)"
proof -
  let ?es = "internal_entries p" and ?ks = "map fst (internal_entries p)"
  note asc = internal_entries_ascending [OF assms(2)]
  have below: "DBKey (fst (?es ! j)) < DBKey key" if j: "j < i" for j
  proof (cases "j = i - 1")
    case False
    then have "DBKey (fst (?es ! j)) < DBKey (fst (?es ! (i - 1)))" using j assms(5) by (intro asc) simp_all
    also have "\<dots> < DBKey key" using assms(7) j by simp
    finally show ?thesis .
  qed (use assms(7) j in simp)
  have above: "DBKey key < DBKey (fst (?es ! j))" if j: "i \<le> j" "j < length ?es" for j
  proof (cases "j = i")
    case False
    then have "DBKey (fst (?es ! i)) < DBKey (fst (?es ! j))" using j by (intro asc) simp_all
    then show ?thesis using assms(6) j by (simp add: order.strict_trans)
  qed (use assms(6) j in simp)
  have "lower_bound (map DBKey ?ks) (DBKey key) = i"
    using assms(5) below above by (intro lower_bound_eqI) (simp_all add: less_imp_le)
  moreover have "key \<notin> set ?ks"
  proof
    assume "key \<in> set ?ks"
    then obtain j where "j < length ?es" "fst (?es ! j) = key" by (auto simp: in_set_conv_nth)
    then show False using below [of j] above [of j] by (cases "j < i") auto
  qed
  ultimately show ?thesis
    using descend_inner [OF inner_page [of "btree_heap t", OF assms(1-3)] assms(4), of "Suc s" crumbs] by (simp add: c_def Let_def)
qed

lemma descend_dead_end:
  assumes "btree_heap t a = Some p" "internal_inv p ts" "node_rightmost_pid p = 0" "key_arg key n"
    and "\<forall>e \<in> set (internal_entries p). DBKey (fst e) < DBKey key"
  shows "btree_descend t key n slots a crumbs = Inl AssertFail"
proof -
  let ?es = "internal_entries p"
  let ?i = "lower_bound (map DBKey (map fst ?es)) (DBKey key)"
  have "length (map snd ?es @ [0 :: u64]) = Suc (length (map fst ?es))" by simp
  note s = inner_search [OF assms(2) zip_children [of ?es 0, symmetric] this assms(4)]
  have "?i = length ?es" using assms(5) by (intro lower_bound_eqI) simp_all
  then have i: "?i = node_count p" using s(1) by (simp only: length_map)
  have "key \<notin> set (map fst ?es)" using assms(5) by auto
  then have "node_bin_search p key n = Some (False, of_nat (node_count p))" "unat (of_nat (node_count p) :: u32) = node_count p"
    using s(3,4) unfolding i by (simp_all only: simp_thms)
  moreover have "\<not> node_is_leaf p" using assms(2) by (simp add: internal_inv_def)
  ultimately show ?thesis
    using assms(1,3) by (subst btree_descend.simps) (simp add: load_node_def word_less_nat_alt node_count_def)
qed

end
