(* ===== verification/Btree_Properties.thy ===== *)
theory Btree_Properties
  imports Btree_Left Btree_Routes Samples
begin

text \<open>The properties of the tree operations of src/tree/btree.c, with their applications.\<close>

section \<open>Sample trees\<close>

definition sample_malloc :: malloc where
  "sample_malloc h =
     (if h 8192 = None then Some (8192, \<lambda>_. 0) else if h 12288 = None then Some (12288, \<lambda>_. 0) else None)"

definition one_leaf :: "page \<Rightarrow> btree" where
  "one_leaf p = \<lparr>btree_root = 4096, btree_count = 0, btree_heap = [4096 \<mapsto> p]\<rparr>"

lemma sample_allocates: "allocates sample_malloc (btree_heap (one_leaf p)) 8192 12288"
  by (simp add: allocates_def sample_malloc_def one_leaf_def)

lemma one_leaf_inv:
  assumes "leaf_inv p ts"
  shows "tree_inv (Tip 4096 (leaf_entries p)) (one_leaf p)"
proof -
  have "sorted_wrt (<) (map (DBKey \<circ> fst) (leaf_entries p))" using assms by (simp add: leaf_inv_def node_keys_leaf)
  then show ?thesis
    using assms by (auto simp: tree_inv_def one_leaf_def leaf_node_def leaf_ok_def sorted_wrt_map case_prod_beta)
qed

lemma sample_bytes: "bytes_before sample_leaf3 2 = 2634" "unat (node_partition_idx sample_leaf3) = 2"
proof -
  show "bytes_before sample_leaf3 2 = 2634" by (rule sample_bytes_before)
  have "node_wf sample_leaf3 []" using sample_leaf3(1) by (simp add: leaf_inv_def)
  note p = node_partition_idx_eq [OF this]
  let ?u = "unat (node_partition_idx sample_leaf3)"
  have u2: "?u \<le> 2" using p(2) [of 2] sample_bytes_before by (cases "2 < ?u") auto
  then have big: "1992 \<le> bytes_before sample_leaf3 ?u" using p(3) by (simp add: sample_leaf3(7))
  have "?u \<noteq> i" if "bytes_before sample_leaf3 i < 1992" for i using that big by auto
  from this [of 0] this [of 1] u2 have "?u = 2" using sample_bytes_before by linarith
  then show "unat (node_partition_idx sample_leaf3) = 2" by simp
qed

section \<open>Properties\<close>

text \<open>\<open>btree_init\<close> makes an empty tree: a root that is a leaf, no entries, count 0; when
  the allocation fails it returns -1 and changes nothing.\<close>
lemma btree_init_correct:
  assumes "\<And>a m. alloc (btree_heap t) = Some (a, m) \<Longrightarrow> a \<noteq> 0"
  shows "case alloc (btree_heap t) of
      None \<Rightarrow> btree_init alloc t = Inr (-1, t)
    | Some (a, m) \<Rightarrow> \<exists>t'. btree_init alloc t = Inr (0, t') \<and> tree_inv (Tip a []) t' \<and> btree_root t' = a \<and>
        btree_count t' = 0 \<and> (\<exists>p. btree_heap t' = (btree_heap t)(a \<mapsto> p) \<and> node_is_root p)"
proof (cases "alloc (btree_heap t)")
  case None
  then show ?thesis by (simp add: btree_init_def btree_node_alloc_def)
next
  case (Some am)
  obtain a m where am: "am = (a, m)" by (cases am)
  let ?p = "node_init m (BTREE_NODE_FLAGS_ROOT OR BTREE_NODE_FLAGS_LEAF)"
  have fl: "node_flags ?p = 3" by (simp add: BTREE_NODE_FLAGS_ROOT_def BTREE_NODE_FLAGS_LEAF_def)
  have "leaf_inv ?p []"
    unfolding leaf_inv_def node_is_leaf_bit fl
    by (simp add: node_init_wf cells_ok_def node_keys_def node_view_def)
  then have "leaf_node ((btree_heap t)(a \<mapsto> ?p)) a []"
    by (auto simp: leaf_node_def leaf_ok_def leaf_entries_def node_view_def)
  moreover have "node_is_root ?p" unfolding node_is_root_def fl by (simp add: BTREE_NODE_FLAGS_ROOT_def)
  moreover have "a \<noteq> 0" using assms Some am by blast
  ultimately show ?thesis
    using Some am
    by (auto simp: btree_init_def btree_node_alloc_def load_node_def store_node_def tree_inv_def Let_def)
qed

lemma btree_init_correct_witness:
  "\<exists>t'. btree_init sample_malloc \<lparr>btree_root = 0, btree_count = 9, btree_heap = Map.empty\<rparr> = Inr (0, t') \<and>
     tree_inv (Tip 8192 []) t'"
  using btree_init_correct [of sample_malloc "\<lparr>btree_root = 0, btree_count = 9, btree_heap = Map.empty\<rparr>"]
  by (auto simp: sample_malloc_def)

text \<open>C12. Insertion of a key that no leaf stores into a tree with at most 15 inner nodes on a path,
  when the leaf that the descent reaches has room: either the key is a separator of the tree and nothing changes
  (return 1), or the tree keeps its shape, order and nodes, the count grows by one and the
  entries are the old ones and the new one (return 0).\<close>
theorem btree_insert_no_split:
  assumes "tree_inv b t" "levels b 15" "key_arg key ks" "length val = unat vs"
    and "\<forall>la path p. btree_descend t key ks 15 (btree_root t) [btree_root t] = Inr (Some (la # path)) \<and>
      btree_heap t la = Some p \<longrightarrow> fresh_room p (unat ks + unat vs)"
    and "key \<notin> fst ` set (entries b)"
  shows "(btree_insert alloc t key ks val vs = Inr (1, t) \<and> Sep (DBKey key) \<in> set (inorder b)) \<or>
    (\<exists>t' b'. btree_insert alloc t key ks val vs = Inr (0, t') \<and> tree_inv b' t' \<and> levels b' = levels b \<and>
       addrs b' = addrs b \<and> btree_root t' = btree_root t \<and> btree_count t' = btree_count t + 1 \<and>
       set (entries b') = insert (key, val) (set (entries b)) \<and>
       sorted_wrt (<) (map (DBKey \<circ> fst) (entries b')))"
  using insert_no_split [OF assms, of alloc] entries_sorted by (auto simp: tree_inv_def)

lemma btree_insert_no_split_witness:
  "\<exists>t'. btree_insert sample_malloc (one_leaf sample_leaf2) [3] 1 sample_val 1300 = Inr (0, t') \<and> btree_count t' = 1"
proof -
  let ?b = "Tip 4096 (leaf_entries sample_leaf2)" and ?t = "one_leaf sample_leaf2"
  have d: "btree_descend ?t [3] 1 15 4096 [4096] = Inr (Some [4096])"
    using one_leaf_inv [OF sample_leaf2(1)]
    by (intro descend_leaf [of _ _ "leaf_entries sample_leaf2"]) (simp add: tree_inv_def one_leaf_def)
  have r: "fresh_room sample_leaf2 (unat (1::u32) + unat (1300::u32))"
    by (simp add: fresh_room_def sample_leaf2 cell_space_def)
  have "btree_root ?t = 4096" "btree_heap ?t 4096 = Some sample_leaf2" "btree_count ?t = 0" by (simp_all add: one_leaf_def)
  then show ?thesis
    using btree_insert_no_split [OF one_leaf_inv [OF sample_leaf2(1)], of "[3]" 1 sample_val 1300 sample_malloc] d r
    by (auto simp: key_arg_def sample_leaf2)
qed

text \<open>C36. The first split: with a root that is a full leaf, two successful allocations, a partition
  index inside the leaf and an entry of at most 1988 aligned bytes, the insertion of a new key
  succeeds and leaves a tree with a new root over two leaves that holds the old entries and the
  new one, in order.  A key below the partition entry needs room in the gap of the old leaf.\<close>
theorem btree_insert_splits_root:
  assumes "btree_heap t (btree_root t) = Some p" "btree_root t \<noteq> 0" "leaf_inv p ts"
    and "allocates alloc (btree_heap t) a1 a2" "node_is_full p ks vs = Some True"
    and "unat (node_partition_idx p) < node_count p"
    and "key_arg key ks" "length val = unat vs" "cell_space (unat ks + unat vs) \<le> 1988"
    and "DBKey key \<notin> set (node_keys p)"
    and "DBKey (fst (leaf_entries p ! unat (node_partition_idx p))) < DBKey key \<or>
      60 + 4 * unat (node_partition_idx p) + cell_space (unat ks + unat vs) \<le> unat (node_cell_offset p)"
  shows "\<exists>t' l r sep. btree_insert alloc t key ks val vs = Inr (0, t') \<and> btree_count t' = btree_count t + 1 \<and>
    tree_inv (Fork a2 [sep] [Tip (btree_root t) l, Tip a1 r]) t' \<and>
    set (l @ r) = insert (key, val) (set (leaf_entries p)) \<and> sorted_wrt (<) (map (DBKey \<circ> fst) (l @ r))"
proof -
  let ?k = "unat (node_partition_idx p)" and ?xs = "leaf_entries p"
  obtain l r where lr: "split_halves key val ?xs ?k = (l, r)" by (cases "split_halves key val ?xs ?k")
  let ?b = "Fork a2 [fst (?xs ! ?k)] [Tip (btree_root t) l, Tip a1 r]"
  obtain t' where t': "btree_insert alloc t key ks val vs = Inr (0, t')" "btree_count t' = btree_count t + 1" "tree_inv ?b t'"
    using insert_split_root [OF assms(1-5) refl assms(6-11) lr] by blast
  have asc: "sorted_wrt (<) (map (DBKey \<circ> fst) ?xs)" using assms(3) by (simp add: leaf_inv_def node_keys_leaf)
  have "key \<notin> fst ` set ?xs" using assms(10) by (auto simp: node_keys_leaf)
  then have "set (l @ r) = insert (key, val) (set ?xs)" using split_inorder(2) [OF asc _ _ lr] assms(6) by simp
  moreover have "sorted_wrt (<) (map (DBKey \<circ> fst) (entries ?b))"
    using t'(3) by (intro entries_sorted) (simp add: tree_inv_def)
  then have "sorted_wrt (<) (map (DBKey \<circ> fst) (l @ r))" by (simp only: entries_two_leaves)
  ultimately show ?thesis using t' by blast
qed

lemma sample_full: "node_is_full sample_leaf3 1 1300 = Some True"
proof -
  have "node_layout sample_leaf3 [0..<3] []" using sample_leaf3(1,7) by (simp add: leaf_inv_def node_wf_def)
  moreover have "new_cell_size 1 1300 = 1320" by code_simp
  ultimately show ?thesis by (simp add: node_is_full_eq sample_free_space)
qed

lemma btree_insert_splits_root_witness:
  "\<exists>t' l r sep. btree_insert sample_malloc (one_leaf sample_leaf3) [4] 1 sample_val 1300 = Inr (0, t') \<and>
     tree_inv (Fork 12288 [sep] [Tip 4096 l, Tip 8192 r]) t' \<and> ([4], sample_val) \<in> set (l @ r)"
proof -
  let ?t = "one_leaf sample_leaf3"
  have t: "btree_heap ?t (btree_root ?t) = Some sample_leaf3" "btree_root ?t \<noteq> 0" "btree_root ?t = 4096"
    by (simp_all add: one_leaf_def)
  have lt: "DBKey [3] < DBKey [4]" by (simp add: less_dbkey_def less_eq_dbkey_def)
  show ?thesis
    using btree_insert_splits_root [OF t(1,2) sample_leaf3(1) sample_allocates sample_full, of "[4]" sample_val]
      lt t(3) by (auto simp: sample_bytes(2) sample_leaf3 key_arg_def cell_space_def)
qed

text \<open>C13. Insertion that splits a leaf below the root, in a tree of any height up to 15 inner nodes on
  a path: the descent reaches the full leaf \<open>la\<close> below \<open>f\<close>, \<open>f\<close> has room for the separator, and
  the new key belongs behind the partition or into the gap of the old leaf.  Then one node is allocated, the tree keeps its
  root, height and order, and its entries are the old ones and the new one.\<close>
theorem btree_insert_splits_leaf:
  assumes "tree_inv b t" "levels b 15" "key_arg key ks" "length val = unat vs" "cell_space (unat ks + unat vs) \<le> 1988"
    and "key \<notin> fst ` set (entries b)"
    and "btree_descend t key ks 15 (btree_root t) [btree_root t] = Inr (Some (la # f # up))"
    and "btree_heap t la = Some p" "node_is_full p ks vs = Some True" "unat (node_partition_idx p) < node_count p"
    and "sep = fst (leaf_entries p ! unat (node_partition_idx p))"
    and "DBKey sep < DBKey key \<or>
      60 + 4 * unat (node_partition_idx p) + cell_space (unat ks + unat vs) \<le> unat (node_cell_offset p)"
    and "btree_heap t f = Some fp" "fresh_room fp (length sep)"
    and "alloc (btree_heap t) = Some (a1, m)" "a1 \<noteq> 0" "btree_heap t a1 = None"
  shows "\<exists>t' b'. btree_insert alloc t key ks val vs = Inr (0, t') \<and> tree_inv b' t' \<and> levels b' = levels b \<and>
    set (addrs b') = insert a1 (set (addrs b)) \<and> btree_root t' = btree_root t \<and> btree_count t' = btree_count t + 1 \<and>
    set (entries b') = insert (key, val) (set (entries b)) \<and> sorted_wrt (<) (map (DBKey \<circ> fst) (entries b'))"
proof -
  have rep: "represents b (btree_heap t)" "addr_of b = btree_root t" "sorted_wrt item_lt (inorder b)" "distinct (addrs b)"
    using assms(1) by (simp_all add: tree_inv_def)
  obtain xs where "leaf_node (btree_heap t) la xs"
    using descend_tree [OF rep(1) assms(2) rep(3,4) assms(3), of "[]" val] assms(7) rep(2) by (auto simp: hole_def)
  then have "la \<noteq> btree_root t" using descend_leaf [of t la xs key ks 15 "[la]"] assms(7) by auto
  from insert_split_below [where alloc = alloc, OF assms(1-7) this assms(8,9) refl assms(10-12) _ assms(15-17)]
  show ?thesis using assms(13,14) entries_sorted by (fastforce simp: tree_inv_def)
qed

definition sample_parent :: page where
  "sample_parent = node_set_rightmost_child
     (node_insert_internal_cell (node_init (\<lambda>_. 0) BTREE_NODE_FLAGS_ROOT) 4076 0 [1] 1 8192) 16384"

definition two_leaves :: btree where
  "two_leaves = \<lparr>btree_root = 4096, btree_count = 3,
     btree_heap = [4096 \<mapsto> sample_parent, 8192 \<mapsto> sample_leaf, 16384 \<mapsto> sample_leaf3]\<rparr>"

lemma sample_parent:
  "internal_inv sample_parent []" "internal_entries sample_parent = [([1], 8192)]"
  "node_rightmost_pid sample_parent = 16384" "fresh_room sample_parent 1"
proof -
  let ?p0 = "node_init (\<lambda>_. 0) BTREE_NODE_FLAGS_ROOT"
  let ?p1 = "node_insert_internal_cell ?p0 4076 0 [1] 1 8192"
  have e0: "cells_ok internal_cell_ok ?p0" "internal_entries ?p0 = []"
    by (simp_all add: cells_ok_def internal_entries_def node_view_def)
  have i1: "node_wf ?p1 []" "cells_ok internal_cell_ok ?p1" "internal_entries ?p1 = [([1], 8192)]"
      "node_flags ?p1 = 2" "node_cell_offset ?p1 = 4076" "node_count ?p1 = 1"
    using insert_internal_cell [OF node_init_wf e0(1), of 0 "[1]" 1 4076 8192] e0(2)
    by (simp_all add: insert_at_def BTREE_NODE_FLAGS_ROOT_def)
  note s = set_rightmost_view [OF i1(1,2), of 16384, folded sample_parent_def]
  show en: "internal_entries sample_parent = [([1], 8192)]" "node_rightmost_pid sample_parent = 16384"
    using s(3,5) i1(3) by simp_all
  show "internal_inv sample_parent []"
    using s(1,2,4) i1(4) by (simp add: internal_inv_def node_is_leaf_bit node_keys_internal en)
  show "fresh_room sample_parent 1" using s(6,7) i1(5,6) by (simp add: fresh_room_def cell_space_def)
qed

lemma two_leaves_inv: "tree_inv (Fork 4096 [[1]] [Tip 8192 [], Tip 16384 (leaf_entries sample_leaf3)]) two_leaves"
proof -
  have "inner_node (btree_heap two_leaves) 4096 [[1]] [8192, 16384]"
    using sample_parent by (auto simp: inner_node_def two_leaves_def)
  moreover have "leaf_node (btree_heap two_leaves) 8192 []" "leaf_node (btree_heap two_leaves) 16384 (leaf_entries sample_leaf3)"
    using sample_leaf_inv sample_leaf_empty sample_leaf3(1) by (auto simp: leaf_node_def leaf_ok_def two_leaves_def)
  ultimately show ?thesis
    by (simp add: tree_inv_def two_leaves_def weave_def sample_leaf3 less_dbkey_def less_eq_dbkey_def)
qed

lemma btree_insert_splits_leaf_witness:
  "\<exists>t' b'. btree_insert sample_malloc two_leaves [4] 1 sample_val 1300 = Inr (0, t') \<and> tree_inv b' t' \<and>
     set (addrs b') = {4096, 8192, 12288, 16384} \<and> ([4], sample_val) \<in> set (entries b')"
proof -
  let ?b = "Fork 4096 [[1]] [Tip 8192 [], Tip 16384 (leaf_entries sample_leaf3)]"
  have lt: "DBKey [3] < DBKey [4]" "DBKey [1] < DBKey [4]" by (simp_all add: less_dbkey_def less_eq_dbkey_def)
  have arg: "key_arg [4] 1" by (simp add: key_arg_def)
  have h: "inner_node (btree_heap two_leaves) 4096 [[1]] [8192, 16384]"
      "leaf_node (btree_heap two_leaves) 16384 (leaf_entries sample_leaf3)"
    using two_leaves_inv by (simp_all add: tree_inv_def)
  have lb: "lower_bound [DBKey [1]] (DBKey [4]) = 1" using lt(2) by (simp add: lower_bound_def)
  have "btree_descend two_leaves [4] 1 (Suc n) 4096 [4096] = Inr (Some [16384, 4096])" for n
    using descend_inner [OF h(1) arg, of "Suc n" "[4096]"] descend_leaf [OF h(2), of "[4]" 1 n "[16384, 4096]"]
    by (simp add: lb)
  from this [of 14] have d: "btree_descend two_leaves [4] 1 15 (btree_root two_leaves) [btree_root two_leaves] = Inr (Some (16384 # 4096 # []))"
    by (simp add: two_leaves_def)
  have e: "entries ?b = leaf_entries sample_leaf3" using entries_two_leaves [of 4096 "[1]" 8192 "[]" 16384] by simp
  have t: "btree_root two_leaves = 4096" "btree_heap two_leaves 16384 = Some sample_leaf3"
      "btree_heap two_leaves 4096 = Some sample_parent" "btree_heap two_leaves 12288 = None"
      "sample_malloc (btree_heap two_leaves) = Some (12288, \<lambda>_. 0)"
    by (simp_all add: two_leaves_def sample_malloc_def)
  have hyps: "levels ?b 15" "length sample_val = unat (1300 :: u32)" "cell_space (unat (1 :: u32) + unat (1300 :: u32)) \<le> 1988"
      "[4] \<notin> fst ` set (entries ?b)" "unat (node_partition_idx sample_leaf3) < node_count sample_leaf3"
      "[3] = fst (leaf_entries sample_leaf3 ! unat (node_partition_idx sample_leaf3))" "fresh_room sample_parent (length [3 :: u8])"
      "(12288 :: u64) \<noteq> 0"
    using sample_parent(4) unfolding e by (simp_all add: sample_bytes(2) sample_leaf3 cell_space_def)
  obtain t' b' where r: "btree_insert sample_malloc two_leaves [4] 1 sample_val 1300 = Inr (0, t')" "tree_inv b' t'"
      "set (addrs b') = insert 12288 (set (addrs ?b))" "set (entries b') = insert ([4], sample_val) (set (entries ?b))"
    using btree_insert_splits_leaf [where alloc = sample_malloc and m = "\<lambda>_. 0" and up = "[]",
        OF two_leaves_inv hyps(1) arg hyps(2-4) d t(2) sample_full hyps(5,6) disjI1 [OF lt(1)] t(3) hyps(7) t(5) hyps(8) t(4)]
    by blast
  have "set (addrs b') = {4096, 8192, 12288, 16384}" using r(3) by auto
  then show ?thesis using r by blast
qed

text \<open>C14. Insertion into the left half of a split leaf, when the gap of the leaf stays too small for
  the entry.  In a tree with at most 15 inner nodes on a path, with memory and room in the parent: if the entry needs more
  than the last cell of the leaf takes, the insertion stops in an assertion, although the split
  has just freed half of the leaf; otherwise it succeeds, but \<open>cell_offset\<close> is set to the place
  of that last cell, and if a cell of the left half lies below it the page is broken.\<close>
theorem btree_insert_left_half:
  assumes "tree_inv b t" "levels b 15" "key_arg key ks" "length val = unat vs" "unat ks + unat vs < 2 ^ 31"
    and "btree_descend t key ks 15 (btree_root t) [btree_root t] = Inr (Some (la # up))"
    and "btree_heap t la = Some p" "node_is_full p ks vs = Some True" "k = unat (node_partition_idx p)" "k < node_count p"
    and "DBKey key < DBKey (fst (leaf_entries p ! k))" "split_supported alloc t up (fst (leaf_entries p ! k))"
    and "unat (node_cell_offset p) < 56 + 4 * k + cell_space (unat ks + unat vs)"
    and "last (leaf_entries p) = (key', val')" "c = cell_at p (node_count p - 1)"
  shows "if 16 + length key' + length val' < cell_space (unat ks + unat vs)
    then btree_insert alloc t key ks val vs = Inl AssertFail
    else \<exists>t' q. btree_insert alloc t key ks val vs = Inr (0, t') \<and> btree_heap t' la = Some q \<and>
      unat (node_cell_offset q) = c \<and> ((\<exists>i < k. cell_at p i < c) \<longrightarrow> (\<forall>us. \<not> node_wf q us))"
proof -
  have side: "\<not> DBKey (fst (leaf_entries p ! unat (node_partition_idx p))) < DBKey key" using assms(9,11) by auto
  obtain t2 p' ts ts' where r: "btree_insert alloc t key ks val vs = btree_insert_leaf t2 la key ks val vs"
      "btree_heap t2 la = Some p'" "left_half p k p'" "leaf_inv p' ts'" "leaf_inv p ts"
    using insert_left_tree [OF assms(1-3,6-8) refl _ side] assms(9,10,12) by blast
  have gap: "small_gap p k (unat ks + unat vs)" using assms(13) by (simp add: small_gap_def)
  have len: "cell_len p c = 16 + length key' + length val'"
    using last_cell_len [OF r(5) _ assms(14)] assms(10,15) by simp
  show ?thesis
  proof (cases "16 + length key' + length val' < cell_space (unat ks + unat vs)")
    case True
    then show ?thesis using left_insert_none [OF r(2-4) gap assms(5)] len r(1) assms(15) by simp
  next
    case False
    have "node_layout p [0..<node_count p] ts" using r(5) by (simp add: leaf_inv_def node_wf_def)
    from node_layoutD(1) [OF this] have room: "60 + 4 * k \<le> unat (node_cell_offset p)" using assms(10) by simp
    have last: "cell_space (unat ks + unat vs) \<le> cell_len p (cell_at p (node_count p - 1))"
      using False len assms(15) by simp
    have arg: "length key = unat ks" using assms(3) by (simp add: key_arg_def)
    from left_insert_reuse [OF r(2-4) gap assms(5) room last arg assms(4)]
    obtain q where q: "btree_insert_leaf t2 la key ks val vs = Inr (0, (store_node t2 la q)\<lparr>btree_count := btree_count t2 + 1\<rparr>)"
        "unat (node_cell_offset q) = c" "(\<exists>i < k. cell_at p i < c) \<longrightarrow> (\<forall>us. \<not> node_wf q us)"
      unfolding assms(15) by blast
    have "btree_heap ((store_node t2 la q)\<lparr>btree_count := btree_count t2 + 1\<rparr>) la = Some q" by (simp add: store_node_def)
    with q r(1) False show ?thesis by auto
  qed
qed

text \<open>A leaf with three values of 1300 bytes: inserting a smaller key with such a value stops the program.\<close>

lemma btree_insert_left_half_witness:
  "btree_insert sample_malloc (one_leaf sample_leaf3) [0] 1 sample_val 1300 = Inl AssertFail"
proof -
  let ?t = "one_leaf sample_leaf3"
  have inv: "tree_inv (Tip 4096 (leaf_entries sample_leaf3)) ?t" by (rule one_leaf_inv [OF sample_leaf3(1)])
  have d: "btree_descend ?t [0] 1 15 (btree_root ?t) [btree_root ?t] = Inr (Some (4096 # []))"
    using inv by (simp add: one_leaf_def, intro descend_leaf [of _ _ "leaf_entries sample_leaf3"])
      (simp add: tree_inv_def one_leaf_def)
  have t: "btree_heap ?t 4096 = Some sample_leaf3" by (simp add: one_leaf_def)
  have lt: "DBKey [0] < DBKey [3]" by (simp add: less_dbkey_def less_eq_dbkey_def)
  have mem: "split_supported sample_malloc ?t [] [3]" using sample_allocates by (auto simp: split_supported_def)
  show ?thesis
    using btree_insert_left_half [OF inv _ _ _ _ d t sample_full refl, where val = sample_val and alloc = sample_malloc]
      lt mem by (simp add: key_arg_def sample_bytes(2) sample_leaf3 cell_space_def)
qed

text \<open>C15. What the split of an internal node does to the paths through it.  The old page keeps the
  entries before the index and the old rightmost child, the fresh page gets those behind it and no
  rightmost child.  So a key between the separators around the index, which the old node led to
  the child under the index, is led to the old rightmost child, and for a key above all
  separators the descent from the fresh page stops in an assertion.\<close>
theorem internal_split_misroutes:
  assumes "btree_heap t a = Some p" "internal_inv p ts" "node_rightmost_pid p \<noteq> 0" "a \<noteq> b"
    and "fresh_node q" "\<not> node_is_leaf q" "node_rightmost_pid q = 0"
    and "0 < unat k" "Suc (unat k) < node_count p" "es = internal_entries p" "key_arg key n"
  shows "\<exists>p' q' u. internal_node_split p q k = Inr (p', q') \<and> u = t\<lparr>btree_heap := (btree_heap t)(a \<mapsto> p', b \<mapsto> q')\<rparr> \<and>
    internal_entries p' = take (unat k) es \<and> internal_entries q' = drop (Suc (unat k)) es \<and>
    (DBKey (fst (es ! (unat k - 1))) < DBKey key \<and> DBKey key < DBKey (fst (es ! unat k)) \<longrightarrow>
      btree_descend t key n (Suc s) a crumbs = btree_descend t key n s (snd (es ! unat k)) (snd (es ! unat k) # crumbs) \<and>
      btree_descend u key n (Suc s) a crumbs = btree_descend u key n s (node_rightmost_pid p) (node_rightmost_pid p # crumbs)) \<and>
    (DBKey (fst (last es)) < DBKey key \<longrightarrow> btree_descend u key n slots b crumbs = Inl AssertFail)"
proof -
  obtain p' q' ts' where sp: "internal_node_split p q k = Inr (p', q')" "internal_inv p' ts'" "internal_inv q' []"
      "internal_entries p' = take (unat k) es" "internal_entries q' = drop (Suc (unat k)) es"
      "node_rightmost_pid p' = node_rightmost_pid p" "node_rightmost_pid q' = 0"
    using internal_node_split_eq [OF assms(2,5,6,8,9)] assms(7,10) by metis
  have len: "length es = node_count p" by (simp add: assms(10) internal_entries_def)
  define u where "u = t\<lparr>btree_heap := (btree_heap t)(a \<mapsto> p', b \<mapsto> q')\<rparr>"
  have h: "btree_heap u a = Some p'" "btree_heap u b = Some q'" using assms(4) by (simp_all add: u_def)
  have route: "btree_descend t key n (Suc s) a crumbs = btree_descend t key n s (snd (es ! unat k)) (snd (es ! unat k) # crumbs)"
    "btree_descend u key n (Suc s) a crumbs = btree_descend u key n s (node_rightmost_pid p) (node_rightmost_pid p # crumbs)"
    if key: "DBKey (fst (es ! (unat k - 1))) < DBKey key" "DBKey key < DBKey (fst (es ! unat k))"
  proof -
    show "btree_descend t key n (Suc s) a crumbs = btree_descend t key n s (snd (es ! unat k)) (snd (es ! unat k) # crumbs)"
      using descend_page [OF assms(1-3,11), of "unat k" s crumbs] key len assms(9) unfolding assms(10) by (simp add: nth_append)
    have "node_rightmost_pid p' \<noteq> 0" using sp(6) assms(3) by simp
    from descend_page [OF h(1) sp(2) this assms(11), of "unat k" s crumbs]
    show "btree_descend u key n (Suc s) a crumbs = btree_descend u key n s (node_rightmost_pid p) (node_rightmost_pid p # crumbs)"
      using key len assms(8,9) by (simp add: sp(4,6) nth_append)
  qed
  have "btree_descend u key n slots b crumbs = Inl AssertFail" if key: "DBKey (fst (last es)) < DBKey key"
  proof (rule descend_dead_end [OF h(2) sp(3,7) assms(11)], rule ballI)
    fix e assume "e \<in> set (internal_entries q')"
    then have "e \<in> set es" unfolding sp(5) by (rule in_set_dropD)
    then obtain j where j: "j < length es" "e = es ! j" by (auto simp: in_set_conv_nth)
    then have last: "last es = es ! (length es - 1)" by (intro last_conv_nth) auto
    have "DBKey (fst (es ! j)) < DBKey (fst (es ! (length es - 1)))" if "j < length es - 1"
      using internal_entries_ascending [OF assms(2), folded assms(10), OF that] j(1) by simp
    moreover have "j < length es - 1 \<or> j = length es - 1" using j(1) by linarith
    ultimately have "DBKey (fst e) \<le> DBKey (fst (last es))" unfolding last j(2) by (auto simp: less_imp_le)
    with key show "DBKey (fst e) < DBKey key" by order
  qed
  with sp(1,4,5) route show ?thesis unfolding u_def by blast
qed


lemma internal_split_misroutes_witness:
  "\<exists>p' q'. internal_node_split sample_internal (node_init (\<lambda>_. 0) 0) 1 = Inr (p', q') \<and>
     btree_descend \<lparr>btree_root = 1, btree_count = 0, btree_heap = [1 \<mapsto> p', 2 \<mapsto> q']\<rparr> [4] 1 15 2 [2] = Inl AssertFail"
proof -
  have "\<not> node_is_leaf (node_init (\<lambda>_. 0) 0)" "node_rightmost_pid (node_init (\<lambda>_. 0) 0) = 0" by (simp_all add: node_is_leaf_def)
  moreover have "DBKey [3] < DBKey [4]" by (simp add: less_dbkey_def less_eq_dbkey_def)
  ultimately show ?thesis
    using internal_split_misroutes [where t = "\<lparr>btree_root = 1, btree_count = 0, btree_heap = [1 \<mapsto> sample_internal]\<rparr>"
        and a = 1 and b = 2 and k = 1 and key = "[4]" and n = 1 and slots = 15 and s = 0 and crumbs = "[2]",
        OF _ sample_internal(1) _ _ fresh_node_init [of "\<lambda>_. 0" 0] _ _ _ _ refl]
    by (auto simp: sample_internal key_arg_def)
qed

text \<open>\<open>btree_search\<close> never finds anything: on a tree whose root satisfies the search
  invariant it returns NULL for every key, stored or not.\<close>
lemma btree_search_null:
  assumes "btree_heap t (btree_root t) = Some p" "search_inv p" "key_arg key ks"
  shows "btree_search t key ks = Inr None"
  using assms by (simp add: btree_search_def load_node_def node_get_cell_eq)

lemma btree_search_null_witness:
  "btree_search (one_leaf sample_leaf3) [2] 1 = Inr None \<and> DBKey [2] \<in> set (node_keys sample_leaf3)"
  using btree_search_null [of "one_leaf sample_leaf3" sample_leaf3 "[2]" 1] search_inv_leaf [OF sample_leaf3(1)]
  by (simp add: one_leaf_def key_arg_def sample_leaf3)

text \<open>C38. Duplicate keys: \<open>btree_insert\<close> does not use the result of the search in the leaf.
  When the descent, which stops at a separator equal to the key, reaches a leaf that has room and
  stores the key, the insertion returns 0, raises the count, and leaves the key twice in that
  leaf, whose keys are then no longer strictly ascending.\<close>
theorem btree_insert_duplicates:
  assumes "btree_descend t key ks 15 (btree_root t) [btree_root t] = Inr (Some (la # up))"
    and "btree_heap t la = Some p" "leaf_inv p ts" "length key = unat ks" "length val = unat vs"
    and "fresh_room p (unat ks + unat vs)" "DBKey key \<in> set (node_keys p)"
  shows "\<exists>q. btree_insert alloc t key ks val vs =
      Inr (0, (store_node t la q)\<lparr>btree_count := btree_count t + 1\<rparr>) \<and>
    (\<exists>i. leaf_entries q = insert_at i (key, val) (leaf_entries p)) \<and>
    \<not> sorted_wrt (<) (node_keys q) \<and> (\<forall>us. \<not> leaf_inv q us)"
proof -
  have wf: "node_wf p ts" "cells_ok leaf_cell_ok p" using assms(3) by (simp_all add: leaf_inv_def)
  note r = fresh_room_offset [OF wf(1) [unfolded node_wf_def] assms(6)]
  have karg: "key_arg key ks" using r(4) assms(4) by (simp add: key_arg_def)
  note s = search_inv_leaf [OF assms(3)]
  let ?k = "lower_bound (node_keys p) (DBKey key)" and ?off = "node_cell_offset p - new_cell_size ks vs"
  let ?q = "node_insert_leaf_cell p ?off (of_nat ?k) key ks val vs"
  have k: "unat (of_nat ?k :: u32) = ?k" by (rule unat_lower_bound [OF s])
  have b: "60 + 4 * node_count p \<le> unat ?off" "unat ?off + (16 + unat ks + unat vs) \<le> unat (node_cell_offset p)"
    using assms(6) cell_space_bounds(1) [of "unat ks + unat vs"] unfolding r(3) fresh_room_def by linarith+
  have kl: "unat (of_nat ?k :: u32) \<le> node_count p" using k lower_bound_le [of "node_keys p" "DBKey key"] by simp
  note i = insert_leaf_cell(3) [OF wf kl assms(4,5) r(4) b]
  have off: "?off > 0" using b(1) by (simp add: word_less_nat_alt)
  have run: "btree_insert alloc t key ks val vs = Inr (0, (store_node t la ?q)\<lparr>btree_count := btree_count t + 1\<rparr>)"
    using assms(1,2,7) r(1,2) off
    by (simp add: btree_insert_def load_node_def node_is_full_def btree_insert_leaf_def node_bin_search_eq [OF s karg] store_node_def)
  have "node_keys ?q = insert_at ?k (DBKey key) (node_keys p)"
    unfolding node_keys_leaf [of ?q] i k by (simp add: node_keys_leaf)
  moreover have "\<not> distinct (insert_at ?k (DBKey key) (node_keys p))"
    using assms(7) set_append [of "take ?k (node_keys p)" "drop ?k (node_keys p)"]
    by (auto simp: insert_at_def simp del: set_append)
  ultimately have "\<not> sorted_wrt (<) (node_keys ?q)" by (simp add: strict_sorted_iff)
  then show ?thesis using run i unfolding leaf_inv_def by blast
qed

text \<open>The second leaf of a tree with a root above two leaves: the key 2 is stored there already.\<close>

definition two_small_leaves :: btree where
  "two_small_leaves = two_leaves\<lparr>btree_heap := (btree_heap two_leaves)(16384 \<mapsto> sample_leaf2)\<rparr>"

lemma btree_insert_duplicates_witness:
  "\<exists>q. btree_insert sample_malloc two_small_leaves [2] 1 [8] 1 =
      Inr (0, (store_node two_small_leaves 16384 q)\<lparr>btree_count := 4\<rparr>) \<and> \<not> sorted_wrt (<) (node_keys q)"
proof -
  let ?t = two_small_leaves
  have h: "inner_node (btree_heap ?t) 4096 [[1]] [8192, 16384]" "leaf_node (btree_heap ?t) 16384 (leaf_entries sample_leaf2)"
    using sample_parent sample_leaf2(1) by (auto simp: inner_node_def leaf_node_def leaf_ok_def two_small_leaves_def two_leaves_def)
  have arg: "key_arg [2] 1" by (simp add: key_arg_def)
  have "lower_bound [DBKey [1]] (DBKey [2]) = 1" by (simp add: lower_bound_def less_dbkey_def less_eq_dbkey_def)
  then have "btree_descend ?t [2] 1 (Suc n) 4096 [4096] = Inr (Some [16384, 4096])" for n
    using descend_inner [OF h(1) arg, of "Suc n" "[4096]"] descend_leaf [OF h(2), of "[2]" 1 n "[16384, 4096]"] by simp
  from this [of 14] have d: "btree_descend ?t [2] 1 15 (btree_root ?t) [btree_root ?t] = Inr (Some (16384 # [4096]))"
    by (simp add: two_small_leaves_def two_leaves_def)
  have "btree_heap ?t 16384 = Some sample_leaf2" "btree_count ?t = 3" by (simp_all add: two_small_leaves_def two_leaves_def)
  with btree_insert_duplicates [OF d _ sample_leaf2(1), of "[8]" 1 sample_malloc] show ?thesis
    by (auto simp: sample_leaf2 node_keys_leaf fresh_room_def cell_space_def)
qed

text \<open>C40. The array of 16 breadcrumbs is not checked: in a tree whose paths all have at least 16
  inner nodes, an insertion writes past the array, unless its key is a separator of the tree, in
  which case it may meet the key on the way and return 1.\<close>
theorem btree_insert_overflows:
  assumes "represents b (btree_heap t)" "addr_of b = btree_root t" "deep b 16" "key_arg key ks"
  shows "btree_insert alloc t key ks val vs = Inl OutOfBounds \<or>
    btree_insert alloc t key ks val vs = Inr (1, t) \<and> Sep (DBKey key) \<in> set (inorder b)"
  using descend_deep [of b t 15 key ks "[btree_root t]"] assms by (auto simp: btree_insert_def)

fun chain :: "nat \<Rightarrow> u64 \<Rightarrow> bt" where
  "chain 0 a = Tip a []"
| "chain (Suc n) a = Fork a [] [chain n (a + 1)]"

definition chain_tree :: btree where
  "chain_tree = \<lparr>btree_root = 1, btree_count = 0, btree_heap =
     (\<lambda>a. if a < 17 then Some (node_set_rightmost_child (node_init (\<lambda>_. 0) 0) (a + 1)) else Some sample_leaf)\<rparr>"

lemma addr_of_chain [simp]: "addr_of (chain n a) = a"
  by (cases n) simp_all

lemma chain_deep: "deep (chain n a) n"
  by (induction n arbitrary: a) simp_all

lemma chain_represents: "unat a + n = 17 \<Longrightarrow> represents (chain n a) (btree_heap chain_tree)"
proof (induction n arbitrary: a)
  case 0
  then have "\<not> a < 17" by (simp add: word_less_nat_alt)
  then show ?case
    using sample_leaf_inv by (auto simp: chain_tree_def leaf_node_def leaf_ok_def sample_leaf_empty)
next
  case (Suc n)
  then have a: "a < 17" by (simp add: word_less_nat_alt)
  have a1: "unat (a + 1) = unat a + 1" using Suc.prems by (simp add: unat_simps)
  then have nz: "a + 1 \<noteq> 0" by (metis unsigned_0 add_is_0 zero_neq_one)
  let ?p = "node_set_rightmost_child (node_init (\<lambda>_. 0) 0) (a + 1)"
  note v = set_rightmost_view [OF node_init_wf, of "\<lambda>_. 0" 0 "a + 1"]
  have e: "cells_ok internal_cell_ok (node_init (\<lambda>_. 0) 0)" "internal_entries (node_init (\<lambda>_. 0) 0) = []"
    by (simp_all add: cells_ok_def internal_entries_def node_view_def)
  have "internal_inv ?p []" using v [OF e(1)] e(2) by (simp add: internal_inv_def node_is_leaf_def node_keys_internal)
  then show ?case
    using Suc.IH [of "a + 1"] Suc.prems a a1 nz v [OF e(1)] e(2)
    by (auto simp: chain_tree_def inner_node_def)
qed

lemma chain_inorder: "inorder (chain n a) = []"
  by (induction n arbitrary: a) (simp_all add: weave_def)

lemma btree_insert_overflows_witness:
  "btree_insert sample_malloc chain_tree [1] 1 [2] 1 = Inl OutOfBounds"
  using btree_insert_overflows [OF chain_represents [of 1 16], of "[1]" 1] chain_deep [of 16 1]
  by (simp add: chain_tree_def key_arg_def chain_inorder)

end
