(* ===== verification/Refine.thy ===== *)
theory Refine
  imports Prelude
begin

text \<open>
  Runs of fallible operations and their refinement of an abstract machine: the interface that
  the statistics buckets and the list of written pages implement.
\<close>

fun run_res :: "('s \<Rightarrow> 'o \<Rightarrow> 's res) \<Rightarrow> 's \<Rightarrow> 'o list \<Rightarrow> 's res" where
  "run_res step s [] = Inr s"
| "run_res step s (x # xs) = bind_res (step s x) (\<lambda>s. run_res step s xs)"

fun spec_run :: "('a \<Rightarrow> 'o \<Rightarrow> bool) \<Rightarrow> ('a \<Rightarrow> 'o \<Rightarrow> 'a) \<Rightarrow> 'a \<Rightarrow> 'o list \<Rightarrow> 'a option" where
  "spec_run allowed spec a [] = Some a"
| "spec_run allowed spec a (x # xs) = (if allowed a x then spec_run allowed spec (spec a x) xs else None)"

text \<open>
  \<open>ok\<close> is the invariant of the detailed state, \<open>abs\<close> its abstraction; where the abstract
  machine allows an operation, the detailed one succeeds and agrees with it.
\<close>

locale refines =
  fixes ok :: "'s \<Rightarrow> bool" and abs :: "'s \<Rightarrow> 'a" and step :: "'s \<Rightarrow> 'o \<Rightarrow> 's res"
    and allowed :: "'a \<Rightarrow> 'o \<Rightarrow> bool" and spec :: "'a \<Rightarrow> 'o \<Rightarrow> 'a"
  assumes simulate: "ok s \<Longrightarrow> allowed (abs s) x \<Longrightarrow> \<exists>s'. step s x = Inr s' \<and> ok s' \<and> abs s' = spec (abs s) x"
begin

lemma run_simulates:
  "ok s \<Longrightarrow> spec_run allowed spec (abs s) xs = Some a \<Longrightarrow> \<exists>s'. run_res step s xs = Inr s' \<and> ok s' \<and> abs s' = a"
proof (induction xs arbitrary: s)
  case (Cons x xs)
  then have "allowed (abs s) x" "spec_run allowed spec (spec (abs s) x) xs = Some a" by (simp_all split: if_splits)
  moreover from this(1) Cons.prems(1) obtain s1 where "step s x = Inr s1" "ok s1" "abs s1 = spec (abs s) x"
    using simulate by blast
  ultimately show ?case using Cons.IH [of s1] by simp
qed simp

end

section \<open>Results that are right unless an assertion stops the program\<close>

definition safe :: "'a res \<Rightarrow> ('a \<Rightarrow> bool) \<Rightarrow> bool" where
  "safe m Q \<longleftrightarrow> (case m of Inl e \<Rightarrow> e = AssertFail | Inr x \<Rightarrow> Q x)"

lemma safe_simps [simp]:
  "safe (Inr x) Q \<longleftrightarrow> Q x"
  "safe (Inl e) Q \<longleftrightarrow> e = AssertFail"
  by (simp_all add: safe_def)

lemma safe_assert [simp]: "safe (assert_res b m) Q \<longleftrightarrow> (b \<longrightarrow> safe m Q)"
  by (cases b) simp_all

lemma bind_res_assoc: "bind_res (bind_res m f) g = bind_res m (\<lambda>x. bind_res (f x) g)"
  by (cases m) simp_all

lemma bind_assert_res: "bind_res (assert_res b m) f = assert_res b (bind_res m f)"
  by (cases b) simp_all

lemma safe_bind: "safe m P \<Longrightarrow> (\<And>x. P x \<Longrightarrow> safe (f x) Q) \<Longrightarrow> safe (bind_res m f) Q"
  by (cases m) simp_all

lemma safe_weaken: "safe m P \<Longrightarrow> (\<And>x. P x \<Longrightarrow> Q x) \<Longrightarrow> safe m Q"
  by (cases m) simp_all

lemma safe_if: "(b \<Longrightarrow> safe m Q) \<Longrightarrow> (\<not> b \<Longrightarrow> safe n Q) \<Longrightarrow> safe (if b then m else n) Q"
  by simp

lemma safe_cases: "safe m Q \<Longrightarrow> m = Inl AssertFail \<or> (\<exists>x. m = Inr x \<and> Q x)"
  by (cases m) simp_all

section \<open>Invariants of a transition system\<close>

locale transition_invariant =
  fixes start :: "'s \<Rightarrow> bool" and next_state :: "'s \<Rightarrow> 's \<Rightarrow> bool" and inv :: "'s \<Rightarrow> bool"
  assumes start_inv: "start s \<Longrightarrow> inv s"
    and next_inv: "inv s \<Longrightarrow> next_state s t \<Longrightarrow> inv t"
begin

lemma steps_inv: "next_state\<^sup>*\<^sup>* s t \<Longrightarrow> inv s \<Longrightarrow> inv t"
  by (induction rule: rtranclp_induct) (auto intro: next_inv)

lemma reachable_inv: "start s \<Longrightarrow> next_state\<^sup>*\<^sup>* s t \<Longrightarrow> inv t"
  by (blast intro: steps_inv start_inv)

end

end
