(* ===== verification/Stats.thy ===== *)
theory Stats
  imports Refine Utils
begin

text \<open>
  The statistics buckets of src/scheduler.c: sums of values over a sliding window of time
  intervals, kept in a circular buffer.
\<close>

section \<open>The code\<close>

record stats_bucket_item =
  item_val :: u64
  item_elapsed :: u64

record stats_bucket =
  sb_buf :: "stats_bucket_item list"
  sb_acc_time :: u64
  sb_acc_val :: u64
  sb_len :: u32
  sb_idx :: u32

text \<open>\<open>mem\<close> tells whether \<open>calloc\<close> returned memory.\<close>

definition stats_bucket_init :: "bool \<Rightarrow> u32 \<Rightarrow> stats_bucket res" where
  "stats_bucket_init mem len =
     assert_res mem (Inr \<lparr>sb_buf = replicate (unat len) \<lparr>item_val = 0, item_elapsed = 0\<rparr>,
       sb_acc_time = 0, sb_acc_val = 0, sb_len = len, sb_idx = 0\<rparr>)"

definition bucket_slot :: "stats_bucket \<Rightarrow> u32 \<Rightarrow> nat res" where
  "bucket_slot b idx =
     (if sb_len b = 0 then Inl DivByZero
      else let i = unat (idx mod sb_len b) in if i < length (sb_buf b) then Inr i else Inl OutOfBounds)"

definition stats_bucket_add :: "stats_bucket \<Rightarrow> u64 \<Rightarrow> stats_bucket res" where
  "stats_bucket_add b v =
     (let b = b\<lparr>sb_acc_val := sb_acc_val b + v\<rparr>
      in bind_res (bucket_slot b (sb_idx b)) (\<lambda>i.
           let it = sb_buf b ! i
           in Inr (b\<lparr>sb_buf := (sb_buf b)[i := it\<lparr>item_val := item_val it + v\<rparr>]\<rparr>)))"

definition stats_bucket_add_one :: "stats_bucket \<Rightarrow> stats_bucket res" where
  "stats_bucket_add_one b = stats_bucket_add b 1"

definition stats_bucket_move :: "stats_bucket \<Rightarrow> u64 \<Rightarrow> stats_bucket res" where
  "stats_bucket_move b elapsed =
     (let b = b\<lparr>sb_idx := sb_idx b + 1\<rparr>
      in bind_res (bucket_slot b (sb_idx b)) (\<lambda>next_idx.
           let it = sb_buf b ! next_idx;
               b = b\<lparr>sb_acc_val := sb_acc_val b - item_val it\<rparr>;
               b = b\<lparr>sb_acc_time := sb_acc_time b - item_elapsed it\<rparr>;
               b = b\<lparr>sb_acc_time := sb_acc_time b + elapsed\<rparr>
           in Inr (b\<lparr>sb_buf := (sb_buf b)[next_idx := \<lparr>item_val = 0, item_elapsed = elapsed\<rparr>]\<rparr>)))"

section \<open>The window it stands for\<close>

text \<open>
  The abstract state: the number of intervals begun, and the value and duration of the last
  \<open>len\<close> intervals, newest first.
\<close>

datatype stats_op = Stats_add u64 | Stats_move u64

fun stats_step :: "stats_bucket \<Rightarrow> stats_op \<Rightarrow> stats_bucket res" where
  "stats_step b (Stats_add v) = stats_bucket_add b v"
| "stats_step b (Stats_move e) = stats_bucket_move b e"

type_synonym window = "nat \<times> (u64 \<times> u64) list"

fun window_step :: "window \<Rightarrow> stats_op \<Rightarrow> window" where
  "window_step (m, w) (Stats_add v) = (m, case w of [] \<Rightarrow> [] | (x, e) # w \<Rightarrow> (x + v, e) # w)"
| "window_step (m, w) (Stats_move e) = (m + 1, (0, e) # butlast w)"

text \<open>The interval counter \<open>idx\<close> has 32 bits; the window is that of the last intervals while it
  has not wrapped around.\<close>

fun window_allowed :: "window \<Rightarrow> stats_op \<Rightarrow> bool" where
  "window_allowed (m, w) (Stats_add v) = True"
| "window_allowed (m, w) (Stats_move e) = (m + 1 < 2 ^ 32)"

definition item_pair :: "stats_bucket_item \<Rightarrow> u64 \<times> u64" where
  "item_pair it = (item_val it, item_elapsed it)"

definition age_slot :: "stats_bucket \<Rightarrow> nat \<Rightarrow> nat" where
  "age_slot b k = (unat (sb_idx b) + (unat (sb_len b) - k)) mod unat (sb_len b)"

definition stats_window :: "stats_bucket \<Rightarrow> window" where
  "stats_window b = (unat (sb_idx b), map (\<lambda>k. item_pair (sb_buf b ! age_slot b k)) [0..<unat (sb_len b)])"

definition stats_ok :: "stats_bucket \<Rightarrow> bool" where
  "stats_ok b \<longleftrightarrow> sb_len b \<noteq> 0 \<and> length (sb_buf b) = unat (sb_len b) \<and>
     sb_acc_val b = sum_list (map item_val (sb_buf b)) \<and> sb_acc_time b = sum_list (map item_elapsed (sb_buf b))"

lemma sum_list_map_upd:
  fixes f :: "'a \<Rightarrow> 'b::ab_group_add"
  assumes "i < length xs"
  shows "sum_list (map f (xs[i := y])) = sum_list (map f xs) - f (xs ! i) + f y"
  using assms by (induction xs arbitrary: i) (auto simp: algebra_simps split: nat.splits)

lemma bucket_slot_ok:
  "sb_len b \<noteq> 0 \<Longrightarrow> length (sb_buf b) = unat (sb_len b) \<Longrightarrow>
     bucket_slot b i = Inr (unat i mod unat (sb_len b)) \<and> unat i mod unat (sb_len b) < length (sb_buf b)"
  by (simp add: bucket_slot_def unat_mod unat_gt_0)

text \<open>Different ages live in different slots.\<close>

lemma age_slot_inj:
  assumes "age_slot b j = age_slot b k" "j < unat (sb_len b)" "k < unat (sb_len b)"
  shows "j = k"
proof -
  let ?n = "unat (sb_len b)" and ?i = "unat (sb_idx b)"
  have "(int ?i + (int ?n - int j)) mod int ?n = (int ?i + (int ?n - int k)) mod int ?n"
    using arg_cong [OF assms(1), of int] assms(2,3) by (simp add: age_slot_def zmod_int of_nat_diff add_diff_eq)
  then have "int ?n dvd (int ?i + (int ?n - int j)) - (int ?i + (int ?n - int k))" by (rule mod_eq_dvd_iff [THEN iffD1])
  then have d: "int ?n dvd int k - int j" by (simp only: add_diff_cancel_left diff_diff_eq2) (simp add: algebra_simps)
  have "\<bar>int ?n\<bar> \<le> \<bar>int k - int j\<bar>" if "j \<noteq> k" using that dvd_imp_le_int [OF _ d] by linarith
  then show ?thesis using assms(2,3) by linarith
qed

lemma age_slot_0: "sb_len b \<noteq> 0 \<Longrightarrow> age_slot b 0 = unat (sb_idx b) mod unat (sb_len b)"
  by (simp add: age_slot_def)

lemma age_slot_less: "sb_len b \<noteq> 0 \<Longrightarrow> age_slot b k < unat (sb_len b)"
  by (simp add: age_slot_def unat_gt_0)

lemma age_slot_step:
  assumes "unat (sb_idx c) = unat (sb_idx b) + 1" "sb_len c = sb_len b" "Suc k < unat (sb_len b)"
  shows "age_slot c (Suc k) = age_slot b k"
proof -
  have "unat (sb_idx b) + 1 + (unat (sb_len b) - Suc k) = unat (sb_idx b) + (unat (sb_len b) - k)"
    using assms(3) by simp
  then show ?thesis by (simp only: age_slot_def assms(1,2))
qed

lemma add_simulates:
  assumes "stats_ok b"
  shows "\<exists>c. stats_bucket_add b v = Inr c \<and> stats_ok c \<and> stats_window c = window_step (stats_window b) (Stats_add v)"
proof -
  let ?i = "unat (sb_idx b) mod unat (sb_len b)"
  let ?it = "sb_buf b ! ?i"
  define c where "c = b\<lparr>sb_acc_val := sb_acc_val b + v, sb_buf := (sb_buf b)[?i := ?it\<lparr>item_val := item_val ?it + v\<rparr>]\<rparr>"
  note ok = assms [unfolded stats_ok_def]
  have i: "?i < length (sb_buf b)" using bucket_slot_ok [of b "sb_idx b"] ok by blast
  have sel: "bucket_slot (b\<lparr>sb_acc_val := x\<rparr>) (sb_idx b) = Inr ?i" for x using bucket_slot_ok [of "b\<lparr>sb_acc_val := x\<rparr>"] ok by simp
  have run: "stats_bucket_add b v = Inr c" by (simp add: stats_bucket_add_def sel c_def Let_def)
  have okc: "stats_ok c" using ok i by (simp add: stats_ok_def c_def sum_list_map_upd)
  obtain n where n: "unat (sb_len b) = Suc n" using ok by (cases "unat (sb_len b)") (auto simp: unat_eq_0)
  have age: "age_slot c k = age_slot b k" for k by (simp add: age_slot_def c_def)
  have other: "sb_buf c ! age_slot b k = sb_buf b ! age_slot b k" if "0 < k" "k < unat (sb_len b)" for k
  proof -
    have "age_slot b k \<noteq> ?i" using age_slot_inj [of b k 0] that age_slot_0 [of b] ok by auto
    then show ?thesis by (simp add: c_def)
  qed
  have new: "item_pair (sb_buf c ! age_slot b 0) = (item_val ?it + v, item_elapsed ?it)"
    using i age_slot_0 [of b] ok by (simp add: item_pair_def c_def)
  have fields: "sb_idx c = sb_idx b" "sb_len c = sb_len b" by (simp_all add: c_def)
  have "map (\<lambda>k. item_pair (sb_buf c ! age_slot c k)) [0..<Suc n] =
      (item_val ?it + v, item_elapsed ?it) # map (\<lambda>k. item_pair (sb_buf c ! age_slot b k)) [Suc 0..<Suc n]"
    by (simp add: upt_conv_Cons age new del: upt_Suc)
  also have "map (\<lambda>k. item_pair (sb_buf c ! age_slot b k)) [Suc 0..<Suc n] =
      map (\<lambda>k. item_pair (sb_buf b ! age_slot b k)) [Suc 0..<Suc n]"
    using other n by (intro map_cong) auto
  finally have "stats_window c = window_step (stats_window b) (Stats_add v)"
    using n age_slot_0 [of b] ok
    by (simp add: stats_window_def upt_conv_Cons item_pair_def fields del: upt_Suc)
  with run okc show ?thesis by blast
qed

definition moved :: "stats_bucket \<Rightarrow> u64 \<Rightarrow> nat \<Rightarrow> stats_bucket" where
  "moved b e i = b\<lparr>sb_idx := sb_idx b + 1, sb_acc_val := sb_acc_val b - item_val (sb_buf b ! i),
     sb_acc_time := sb_acc_time b - item_elapsed (sb_buf b ! i) + e,
     sb_buf := (sb_buf b)[i := \<lparr>item_val = 0, item_elapsed = e\<rparr>]\<rparr>"

lemma stats_move_run:
  assumes "stats_ok b"
  defines "i \<equiv> unat (sb_idx b + 1) mod unat (sb_len b)"
  shows "stats_bucket_move b e = Inr (moved b e i)" "stats_ok (moved b e i)" "i < length (sb_buf b)"
proof -
  note ok = assms(1) [unfolded stats_ok_def]
  show i: "i < length (sb_buf b)" unfolding i_def using bucket_slot_ok [of b "sb_idx b + 1"] ok by blast
  have sel: "bucket_slot (b\<lparr>sb_idx := x\<rparr>) (sb_idx b + 1) = Inr i" for x
    unfolding i_def using bucket_slot_ok [of "b\<lparr>sb_idx := x\<rparr>"] ok by simp
  show "stats_bucket_move b e = Inr (moved b e i)" by (simp add: stats_bucket_move_def sel moved_def Let_def)
  show "stats_ok (moved b e i)" using ok i by (simp add: stats_ok_def moved_def sum_list_map_upd)
qed

lemma move_simulates:
  assumes "stats_ok b" "unat (sb_idx b) + 1 < 2 ^ 32"
  shows "\<exists>c. stats_bucket_move b e = Inr c \<and> stats_ok c \<and> stats_window c = window_step (stats_window b) (Stats_move e)"
proof -
  define i where "i = unat (sb_idx b + 1) mod unat (sb_len b)"
  define c where "c = moved b e i"
  note c_def = c_def [unfolded moved_def]
  note ok = assms(1) [unfolded stats_ok_def]
  note run = stats_move_run(1) [OF assms(1), of e, folded i_def, unfolded moved_def, folded c_def]
  note okc = stats_move_run(2) [OF assms(1), of e, folded i_def, unfolded moved_def, folded c_def]
  note i = stats_move_run(3) [OF assms(1), folded i_def]
  obtain n where n: "unat (sb_len b) = Suc n" using ok by (cases "unat (sb_len b)") (auto simp: unat_eq_0)
  have idx: "unat (sb_idx c) = unat (sb_idx b) + 1" using assms(2) by (simp add: c_def unat_simps)
  have len: "sb_len c = sb_len b" by (simp add: c_def)
  have s0: "age_slot c 0 = i" using age_slot_0 [of c] ok len by (simp add: i_def c_def)
  have old: "sb_buf c ! age_slot c (Suc k) = sb_buf b ! age_slot b k" if "Suc k < unat (sb_len b)" for k
  proof -
    have "age_slot c (Suc k) \<noteq> i" using age_slot_inj [of c "Suc k" 0] that len s0 by auto
    then show ?thesis using age_slot_step [OF idx len that] by (simp add: c_def)
  qed
  have "stats_window c = window_step (stats_window b) (Stats_move e)"
  proof -
    have "map (\<lambda>k. item_pair (sb_buf c ! age_slot c k)) [0..<Suc n] =
        (0, e) # map (\<lambda>k. item_pair (sb_buf c ! age_slot c (Suc k))) [0..<n]"
      using s0 i by (simp add: upt_conv_Cons map_Suc_upt [symmetric] item_pair_def c_def comp_def del: upt_Suc)
    also have "\<dots> = (0, e) # map (\<lambda>k. item_pair (sb_buf b ! age_slot b k)) [0..<n]"
      using old n by simp
    finally show ?thesis using idx len n by (simp add: stats_window_def)
  qed
  with run okc show ?thesis by blast
qed

interpretation stats: refines stats_ok stats_window stats_step window_allowed window_step
proof
  fix b x
  assume a: "stats_ok b" "window_allowed (stats_window b) x"
  show "\<exists>c. stats_step b x = Inr c \<and> stats_ok c \<and> stats_window c = window_step (stats_window b) x"
  proof (cases x)
    case (Stats_add v)
    then show ?thesis using add_simulates [OF a(1)] by simp
  next
    case (Stats_move e)
    then have "unat (sb_idx b) + 1 < 2 ^ 32" using a(2) by (simp add: stats_window_def)
    from move_simulates [OF a(1) this] Stats_move show ?thesis by simp
  qed
qed

text \<open>The sums over the buffer are those over the window.\<close>

lemma window_sum:
  fixes f :: "u64 \<times> u64 \<Rightarrow> u64"
  assumes "stats_ok b"
  shows "sum_list (map f (map item_pair (sb_buf b))) = sum_list (map f (snd (stats_window b)))"
proof -
  let ?n = "unat (sb_len b)" and ?g = "\<lambda>i. f (item_pair (sb_buf b ! i))"
  note ok = assms [unfolded stats_ok_def]
  have inj: "inj_on (age_slot b) {0..<?n}" by (rule inj_onI) (use age_slot_inj in auto)
  have "age_slot b ` {0..<?n} \<subseteq> {0..<?n}" using age_slot_less ok by auto
  then have img: "age_slot b ` {0..<?n} = {0..<?n}" using inj by (simp add: endo_inj_surj)
  have "sum_list (map f (snd (stats_window b))) = (\<Sum>k\<in>{0..<?n}. ?g (age_slot b k))"
    by (simp add: stats_window_def comp_def flip: sum_set_upt_conv_sum_list_nat)
  also have "\<dots> = (\<Sum>i\<in>{0..<?n}. ?g i)" using sum.reindex [OF inj, of ?g] img by simp
  also have "\<dots> = sum_list (map ?g [0..<?n])" by (simp flip: sum_set_upt_conv_sum_list_nat)
  also have "\<dots> = sum_list (map f (map item_pair (sb_buf b)))"
    using ok by (intro arg_cong [where f = sum_list] nth_equalityI) auto
  finally show ?thesis by simp
qed

lemma stats_sums:
  assumes "stats_ok b"
  shows "sb_acc_val b = sum_list (map fst (snd (stats_window b)))"
    "sb_acc_time b = sum_list (map snd (snd (stats_window b)))"
  using window_sum [OF assms, of fst] window_sum [OF assms, of snd] assms
  by (simp_all add: stats_ok_def item_pair_def comp_def)

lemma stats_init_ok:
  assumes "len \<noteq> 0"
  shows "\<exists>b. stats_bucket_init True len = Inr b \<and> stats_ok b \<and> stats_window b = (0, replicate (unat len) (0, 0))"
proof -
  let ?b = "\<lparr>sb_buf = replicate (unat len) \<lparr>item_val = 0, item_elapsed = 0\<rparr>,
       sb_acc_time = 0, sb_acc_val = 0, sb_len = len, sb_idx = 0\<rparr>"
  have "stats_window ?b = (0, replicate (unat len) (0, 0))"
    using assms age_slot_less [of ?b]
    by (simp add: stats_window_def item_pair_def list_eq_iff_nth_eq)
  then show ?thesis using assms by (simp add: stats_bucket_init_def stats_ok_def sum_list_replicate)
qed

lemma window_length:
  "spec_run window_allowed window_step w ops = Some v \<Longrightarrow> snd w \<noteq> [] \<Longrightarrow> length (snd v) = length (snd w)"
proof (induction ops arbitrary: w)
  case (Cons x ops)
  have "length (snd (window_step w x)) = length (snd w)"
    using Cons.prems(2) by (cases w; cases x) (auto split: list.splits)
  moreover from this have "snd (window_step w x) \<noteq> []" using Cons.prems(2) by (metis length_0_conv)
  ultimately show ?case using Cons.IH [of "window_step w x"] Cons.prems(1) by (simp split: if_splits)
qed simp

section \<open>Properties\<close>

text \<open>C24. A bucket of \<open>len\<close> slots, driven by any sequence of additions and moves from its
  initialisation, never fails and keeps exactly the last \<open>len\<close> intervals; \<open>acc_val\<close> and
  \<open>acc_time\<close> are the sums of their values and durations (modulo \<open>2 ^ 64\<close>), as long as the
  interval counter has not wrapped around.\<close>
theorem stats_window_refines:
  assumes "len \<noteq> 0" "stats_bucket_init True len = Inr b"
    and "spec_run window_allowed window_step (0, replicate (unat len) (0, 0)) ops = Some (m, w)"
  shows "\<exists>c. run_res stats_step b ops = Inr c \<and> stats_window c = (m, w) \<and> length w = unat len \<and>
    sb_acc_val c = sum_list (map fst w) \<and> sb_acc_time c = sum_list (map snd w)"
proof -
  have b: "stats_ok b" "stats_window b = (0, replicate (unat len) (0, 0))"
    using stats_init_ok [OF assms(1)] assms(2) by auto
  obtain c where c: "run_res stats_step b ops = Inr c" "stats_ok c" "stats_window c = (m, w)"
    using stats.run_simulates [OF b(1), unfolded b(2), OF assms(3)] by auto
  have "length w = unat len" using window_length [OF assms(3)] assms(1) by (simp add: unat_eq_0)
  with c stats_sums [OF c(2)] show ?thesis by auto
qed

lemma stats_window_refines_witness:
  "\<exists>b c. stats_bucket_init True 3 = Inr b \<and> run_res stats_step b [Stats_add 5, Stats_move 7, Stats_add 2] = Inr c \<and>
     sb_acc_val c = 7 \<and> sb_acc_time c = 7"
proof -
  obtain b where "stats_bucket_init True 3 = Inr b" using stats_init_ok [of 3] by auto
  moreover have "replicate (unat (3 :: u32)) (0, 0) = [(0, 0), (0, 0), (0 :: u64, 0 :: u64)]"
  proof -
    have "unat (3 :: u32) = 3" by simp
    then show ?thesis by (simp only: numeral_3_eq_3 replicate_Suc replicate_0)
  qed
  ultimately show ?thesis
    using stats_window_refines [of 3 b "[Stats_add 5, Stats_move 7, Stats_add 2]" 1 "[(2, 7), (5, 0), (0, 0)]"]
    by (auto simp del: run_res.simps)
qed

end
