(* ===== verification/Cbuf.thy ===== *)
theory Cbuf
  imports Memory Utils
begin

text \<open>
  src/cbuf.c: the ring buffer of the tracing job.  Its storage is \<open>sz\<close> bytes mapped twice in a
  row, so the addresses \<open>a\<close> and \<open>a + sz\<close> are the same byte; \<open>head\<close> and \<open>tail\<close> count items
  for ever and wrap at 32 bits.  A pointer into the buffer is its byte offset from \<open>buf\<close>.
\<close>

section \<open>The code\<close>

record cbuf =
  cbuf_len :: u32
  cbuf_item_size :: u32
  cbuf_head :: u32
  cbuf_tail :: u32
  cbuf_sz :: u64
  cbuf_mem :: "nat \<Rightarrow> u8"

text \<open>
  \<open>cbuf_init\<close> first sets the fields; \<open>len * item_size\<close> and its rounding are computed in 32
  bits.  Then it maps the storage twice.  The results of \<open>memfd_create\<close> and of the three calls of
  \<open>mmap\<close> are arguments: the file, the reserved address, the first and the second mapping.  The
  mapped memory is zero.
\<close>

definition cbuf_reset :: "u32 \<Rightarrow> u32 \<Rightarrow> cbuf" where
  "cbuf_reset item_size len =
     (let sz = ucast (PAGE_ALIGN (len * item_size))
      in \<lparr>cbuf_len = len, cbuf_item_size = item_size, cbuf_head = 0, cbuf_tail = 0,
          cbuf_sz = sz, cbuf_mem = (\<lambda>_. 0)\<rparr>)"

record mapping =
  map_fd :: int
  map_buf :: u64
  map_first :: u64
  map_second :: u64

definition cbuf_init :: "mapping \<Rightarrow> u32 \<Rightarrow> u32 \<Rightarrow> cbuf res" where
  "cbuf_init m item_size len =
     (let c = cbuf_reset item_size len
      in assert_res (map_fd m \<ge> 0) (assert_res (map_buf m \<noteq> 0) (assert_res (map_buf m = map_first m)
           (assert_res (map_buf m + cbuf_sz c = map_second m) (Inr c)))))"

definition cbuf_free_count :: "cbuf \<Rightarrow> u32" where
  "cbuf_free_count c = cbuf_len c - (cbuf_tail c - cbuf_head c)"

definition cbuf_used_count :: "cbuf \<Rightarrow> u32" where
  "cbuf_used_count c = cbuf_tail c - cbuf_head c"

definition cbuf_is_full :: "cbuf \<Rightarrow> bool" where
  "cbuf_is_full c \<longleftrightarrow> cbuf_free_count c = 0"

definition cbuf_is_empty :: "cbuf \<Rightarrow> bool" where
  "cbuf_is_empty c \<longleftrightarrow> cbuf_tail c = cbuf_head c"

text \<open>\<open>&cbuf->buf[i]\<close> with \<open>void *buf\<close> is \<open>i\<close> bytes, not items, behind \<open>buf\<close>.\<close>

definition cbuf_idx :: "cbuf \<Rightarrow> u32 \<Rightarrow> nat" where
  "cbuf_idx c index = unat (index mod (cbuf_len c - 1))"

definition cbuf_put :: "cbuf \<Rightarrow> u32 \<times> nat" where
  "cbuf_put c = (let start = cbuf_idx c (cbuf_tail c); free = cbuf_free_count c in (free, start))"

definition cbuf_get :: "cbuf \<Rightarrow> u32 \<times> nat" where
  "cbuf_get c = (let used = cbuf_used_count c; start = cbuf_idx c (cbuf_head c) in (used, start))"

definition cbuf_advance_tail :: "cbuf \<Rightarrow> u32 \<Rightarrow> cbuf" where
  "cbuf_advance_tail c n = c\<lparr>cbuf_tail := cbuf_tail c + n\<rparr>"

definition cbuf_advance_head :: "cbuf \<Rightarrow> u32 \<Rightarrow> cbuf" where
  "cbuf_advance_head c n = c\<lparr>cbuf_head := cbuf_head c + n\<rparr>"

text \<open>The client's accesses through the returned pointers, through the double mapping.\<close>

definition ring_wr :: "nat \<Rightarrow> (nat \<Rightarrow> u8) \<Rightarrow> nat \<Rightarrow> u8 list \<Rightarrow> nat \<Rightarrow> u8" where
  "ring_wr sz m a bs = fold (\<lambda>i m. m((a + i) mod sz := bs ! i)) [0..<length bs] m"

definition ring_rd :: "nat \<Rightarrow> (nat \<Rightarrow> u8) \<Rightarrow> nat \<Rightarrow> nat \<Rightarrow> u8 list" where
  "ring_rd sz m a n = map (\<lambda>i. m ((a + i) mod sz)) [0..<n]"

definition cbuf_write :: "cbuf \<Rightarrow> nat \<Rightarrow> u8 list \<Rightarrow> cbuf" where
  "cbuf_write c a bs = c\<lparr>cbuf_mem := ring_wr (unat (cbuf_sz c)) (cbuf_mem c) a bs\<rparr>"

definition cbuf_read :: "cbuf \<Rightarrow> nat \<Rightarrow> nat \<Rightarrow> u8 list" where
  "cbuf_read c a n = ring_rd (unat (cbuf_sz c)) (cbuf_mem c) a n"

section \<open>Counters\<close>

text \<open>
  The interface that the tracing job uses: a number of used places between 0 and a capacity,
  raised and lowered in blocks.
\<close>

locale bounded_count =
  fixes inv :: "'s \<Rightarrow> bool" and capacity used free :: "'s \<Rightarrow> nat"
    and push pop :: "'s \<Rightarrow> nat \<Rightarrow> 's"
  assumes bound: "inv s \<Longrightarrow> used s + free s = capacity s"
    and push_law: "inv s \<Longrightarrow> n \<le> free s \<Longrightarrow>
          inv (push s n) \<and> capacity (push s n) = capacity s \<and> used (push s n) = used s + n"
    and pop_law: "inv s \<Longrightarrow> n \<le> used s \<Longrightarrow>
          inv (pop s n) \<and> capacity (pop s n) = capacity s \<and> used (pop s n) = used s - n"
begin

lemma push_free: "inv s \<Longrightarrow> n \<le> free s \<Longrightarrow> free (push s n) = free s - n"
  using bound [of s] bound [of "push s n"] push_law [of s n] by simp

lemma pop_free: "inv s \<Longrightarrow> n \<le> used s \<Longrightarrow> free (pop s n) = free s + n"
  using bound [of s] bound [of "pop s n"] pop_law [of s n] by simp

end

datatype ring_op = Push nat | Pop nat

fun ring_step :: "('s \<Rightarrow> nat) \<Rightarrow> ('s \<Rightarrow> nat) \<Rightarrow> ('s \<Rightarrow> nat \<Rightarrow> 's) \<Rightarrow> ('s \<Rightarrow> nat \<Rightarrow> 's) \<Rightarrow> 's \<Rightarrow> ring_op \<Rightarrow> 's option" where
  "ring_step used free push pop s (Push n) = (if n \<le> free s then Some (push s n) else None)"
| "ring_step used free push pop s (Pop n) = (if n \<le> used s then Some (pop s n) else None)"

fun ring_run :: "('s \<Rightarrow> nat) \<Rightarrow> ('s \<Rightarrow> nat) \<Rightarrow> ('s \<Rightarrow> nat \<Rightarrow> 's) \<Rightarrow> ('s \<Rightarrow> nat \<Rightarrow> 's) \<Rightarrow> 's \<Rightarrow> ring_op list \<Rightarrow> 's option" where
  "ring_run used free push pop s [] = Some s"
| "ring_run used free push pop s (c # cs) =
     (case ring_step used free push pop s c of None \<Rightarrow> None | Some s' \<Rightarrow> ring_run used free push pop s' cs)"

fun op_sum :: "ring_op \<Rightarrow> int" where
  "op_sum (Push n) = int n"
| "op_sum (Pop n) = - int n"

context bounded_count
begin

lemma run_counts:
  "inv s \<Longrightarrow> ring_run used free push pop s cs = Some s' \<Longrightarrow>
     inv s' \<and> capacity s' = capacity s \<and> int (used s') = int (used s) + sum_list (map op_sum cs)"
proof (induction cs arbitrary: s)
  case Nil
  then show ?case by simp
next
  case (Cons c cs)
  obtain s1 where s1: "ring_step used free push pop s c = Some s1" "ring_run used free push pop s1 cs = Some s'"
    using Cons.prems(2) by (auto split: option.splits)
  have "inv s1 \<and> capacity s1 = capacity s \<and> int (used s1) = int (used s) + op_sum c"
    using s1(1) push_law pop_law Cons.prems(1) by (cases c) (auto split: if_splits)
  then show ?case using Cons.IH [of s1] s1(2) by auto
qed

end

definition cbuf_inv :: "cbuf \<Rightarrow> bool" where
  "cbuf_inv c \<longleftrightarrow> cbuf_used_count c \<le> cbuf_len c"

definition cbuf_push :: "cbuf \<Rightarrow> nat \<Rightarrow> cbuf" where "cbuf_push c n = cbuf_advance_tail c (of_nat n)"
definition cbuf_pop :: "cbuf \<Rightarrow> nat \<Rightarrow> cbuf" where "cbuf_pop c n = cbuf_advance_head c (of_nat n)"

lemma used_after_push:
  assumes "cbuf_inv c" "n \<le> unat (cbuf_free_count c)"
  shows "unat (cbuf_used_count (cbuf_push c n)) = unat (cbuf_used_count c) + n"
proof -
  let ?u = "cbuf_tail c - cbuf_head c"
  have u: "unat ?u \<le> unat (cbuf_len c)" using assms(1) by (simp add: cbuf_inv_def cbuf_used_count_def word_le_nat_alt)
  then have "n \<le> unat (cbuf_len c) - unat ?u" using assms(2) by (simp add: cbuf_free_count_def unat_simps)
  then have le: "unat ?u + n \<le> unat (cbuf_len c)" using u by simp
  then have n: "unat (of_nat n :: u32) = n" "unat ?u + n < 2 ^ 32"
    using unat_lt_u32 [of "cbuf_len c"] by (simp_all add: unat_simps)
  have "cbuf_used_count (cbuf_push c n) = ?u + of_nat n"
    by (simp add: cbuf_used_count_def cbuf_push_def cbuf_advance_tail_def)
  then show ?thesis using n by (simp add: unat_simps cbuf_used_count_def)
qed

lemma used_after_pop:
  assumes "n \<le> unat (cbuf_used_count c)"
  shows "unat (cbuf_used_count (cbuf_pop c n)) = unat (cbuf_used_count c) - n"
proof -
  have n: "unat (of_nat n :: u32) = n"
    using assms unat_lt_u32 [of "cbuf_used_count c"] by (simp add: unat_simps)
  have "cbuf_used_count (cbuf_pop c n) = cbuf_used_count c - of_nat n"
    by (simp add: cbuf_used_count_def cbuf_pop_def cbuf_advance_head_def)
  then show ?thesis using n assms by (simp add: unat_simps)
qed

interpretation cbuf_count: bounded_count cbuf_inv "\<lambda>c. unat (cbuf_len c)" "\<lambda>c. unat (cbuf_used_count c)"
  "\<lambda>c. unat (cbuf_free_count c)" cbuf_push cbuf_pop
proof
  fix c n
  show "unat (cbuf_used_count c) + unat (cbuf_free_count c) = unat (cbuf_len c)" if "cbuf_inv c"
    using that by (simp add: cbuf_inv_def cbuf_free_count_def cbuf_used_count_def word_le_nat_alt unat_simps)
  show "cbuf_inv (cbuf_push c n) \<and> unat (cbuf_len (cbuf_push c n)) = unat (cbuf_len c) \<and>
      unat (cbuf_used_count (cbuf_push c n)) = unat (cbuf_used_count c) + n"
    if "cbuf_inv c" "n \<le> unat (cbuf_free_count c)"
  proof -
    have len: "cbuf_len (cbuf_push c n) = cbuf_len c" by (simp add: cbuf_push_def cbuf_advance_tail_def)
    have "unat (cbuf_used_count c) + n \<le> unat (cbuf_len c)"
      using that by (simp add: cbuf_inv_def cbuf_free_count_def cbuf_used_count_def word_le_nat_alt unat_simps)
    then show ?thesis using used_after_push [OF that] len by (simp add: cbuf_inv_def word_le_nat_alt)
  qed
  show "cbuf_inv (cbuf_pop c n) \<and> unat (cbuf_len (cbuf_pop c n)) = unat (cbuf_len c) \<and>
      unat (cbuf_used_count (cbuf_pop c n)) = unat (cbuf_used_count c) - n"
    if "cbuf_inv c" "n \<le> unat (cbuf_used_count c)"
  proof -
    have len: "cbuf_len (cbuf_pop c n) = cbuf_len c" by (simp add: cbuf_pop_def cbuf_advance_head_def)
    then show ?thesis using used_after_pop [OF that(2)] that(1) by (simp add: cbuf_inv_def word_le_nat_alt)
  qed
qed

section \<open>Bytes through the double mapping\<close>

lemma ring_rd_nth [simp]: "i < n \<Longrightarrow> ring_rd sz m a n ! i = m ((a + i) mod sz)"
  by (simp add: ring_rd_def)

lemma length_ring_rd [simp]: "length (ring_rd sz m a n) = n"
  by (simp add: ring_rd_def)

lemma ring_wr_app: "ring_wr sz m a (bs @ [b]) = (ring_wr sz m a bs)((a + length bs) mod sz := b)"
proof -
  have "fold (\<lambda>i m. m((a + i) mod sz := (bs @ [b]) ! i)) [0..<length bs] m =
      fold (\<lambda>i m. m((a + i) mod sz := bs ! i)) [0..<length bs] m"
    by (rule fold_cong) (auto simp: nth_append)
  then show ?thesis by (simp add: ring_wr_def)
qed

lemma mod_add_inj:
  fixes sz :: nat
  assumes "(a + i) mod sz = (a + j) mod sz" "i < sz" "j < sz"
  shows "i = j"
proof -
  have "(int a + int i) mod int sz = (int a + int j) mod int sz"
    using assms(1) by (metis of_nat_add of_nat_mod)
  then have "int i mod int sz = int j mod int sz"
    by (metis add_diff_cancel_left' mod_diff_cong)
  then show ?thesis using assms(2,3) by simp
qed

lemma ring_wr_at:
  "i < length bs \<Longrightarrow> length bs \<le> sz \<Longrightarrow> ring_wr sz m a bs ((a + i) mod sz) = bs ! i"
proof (induction bs rule: rev_induct)
  case (snoc b bs)
  show ?case
  proof (cases "i = length bs")
    case False
    then have "(a + i) mod sz \<noteq> (a + length bs) mod sz"
      using snoc.prems mod_add_inj [of a i sz "length bs"] by auto
    with False show ?thesis using snoc by (simp add: ring_wr_app nth_append)
  qed (simp add: ring_wr_app)
qed simp

lemma ring_wr_other:
  "\<forall>i < length bs. x \<noteq> (a + i) mod sz \<Longrightarrow> ring_wr sz m a bs x = m x"
  by (induction bs rule: rev_induct) (simp_all add: ring_wr_app, simp add: ring_wr_def)

lemma ring_rd_wr:
  assumes "length bs \<le> sz"
  shows "ring_rd sz (ring_wr sz m a bs) a (length bs) = bs"
  by (rule nth_equalityI) (simp_all add: ring_rd_def ring_wr_at assms)

text \<open>Two items written one byte apart: of the first one only the first byte survives.\<close>

lemma ring_overlap:
  assumes "length x = Suc n" "length y = Suc n" "Suc n < sz"
  shows "ring_rd sz (ring_wr sz (ring_wr sz m a x) (a + 1) y) a (Suc n) = hd x # take n y"
proof (rule nth_equalityI)
  fix i assume "i < length (ring_rd sz (ring_wr sz (ring_wr sz m a x) (a + 1) y) a (Suc n))"
  then have i: "i < Suc n" by simp
  show "ring_rd sz (ring_wr sz (ring_wr sz m a x) (a + 1) y) a (Suc n) ! i = (hd x # take n y) ! i"
  proof (cases i)
    case 0
    have "a mod sz \<noteq> (a + 1 + j) mod sz" if "j < length y" for j
      using mod_add_inj [of a 0 sz "1 + j"] that assms by (auto simp: add.assoc)
    then have "ring_wr sz (ring_wr sz m a x) (a + 1) y (a mod sz) = ring_wr sz m a x (a mod sz)"
      by (intro ring_wr_other) blast
    also have "\<dots> = x ! 0" using ring_wr_at [of 0 x sz m a] assms by simp
    finally show ?thesis using 0 assms by (simp add: hd_conv_nth flip: length_greater_0_conv)
  next
    case (Suc j)
    then have "ring_wr sz (ring_wr sz m a x) (a + 1) y ((a + 1 + j) mod sz) = y ! j"
      using i assms by (intro ring_wr_at) simp_all
    then show ?thesis using Suc i by simp
  qed
qed (use assms in simp)

section \<open>Size of the storage\<close>

lemma unat_PAGE_ALIGN:
  fixes x :: u32
  assumes "unat x + 4095 < 2 ^ 32"
  shows "unat (PAGE_ALIGN x) = (unat x + 4095) div 4096 * 4096"
proof -
  have "(PAGE_SZ :: u32) - 1 = mask 12" by (simp add: PAGE_SZ_def mask_eq_exp_minus_1 push_bit_eq_mult)
  then show ?thesis
    using assms unat_ALIGN_MASK [of x 12] by (simp add: PAGE_ALIGN_def ALIGN_def)
qed

lemma round_up_ge: "(x :: nat) \<le> (x + 4095) div 4096 * 4096" "(x + 4095) div 4096 * 4096 < x + 4096"
  using div_mult_mod_eq [of "x + 4095" 4096] mod_less_divisor [of 4096 "x + 4095"] by linarith+

lemma cbuf_reset_size:
  assumes "unat len * unat item_size + 4095 < 2 ^ 32"
  shows "unat (cbuf_sz (cbuf_reset item_size len)) = (unat len * unat item_size + 4095) div 4096 * 4096"
    "unat len * unat item_size \<le> unat (cbuf_sz (cbuf_reset item_size len))"
proof -
  have m: "unat (len * item_size) = unat len * unat item_size"
    using assms by (simp add: unat_mult_lem [THEN iffD1])
  show e: "unat (cbuf_sz (cbuf_reset item_size len)) = (unat len * unat item_size + 4095) div 4096 * 4096"
    using assms by (simp add: cbuf_reset_def unat_ucast_up unat_PAGE_ALIGN m)
  show "unat len * unat item_size \<le> unat (cbuf_sz (cbuf_reset item_size len))"
    unfolding e by (rule round_up_ge)
qed

lemma cbuf_idx_less:
  assumes "2 \<le> unat (cbuf_len c)"
  shows "cbuf_idx c i = unat i mod (unat (cbuf_len c) - 1)" "cbuf_idx c i < unat (cbuf_len c) - 1"
proof -
  have "unat (cbuf_len c - 1) = unat (cbuf_len c) - 1" using assms by (simp add: unat_simps)
  then show e: "cbuf_idx c i = unat i mod (unat (cbuf_len c) - 1)" by (simp add: cbuf_idx_def unat_mod)
  show "cbuf_idx c i < unat (cbuf_len c) - 1" unfolding e using assms by simp
qed

section \<open>Properties\<close>

text \<open>C37. The counters of the ring over any sequence of admissible block insertions and
  removals, across the wrap-around of \<open>head\<close> and \<open>tail\<close>: used and free always add up to the
  capacity, the used count is the sum of what went in and out, and the two tests decide the
  extremes.\<close>
theorem cbuf_counts:
  assumes "cbuf_inv c"
    and "ring_run (\<lambda>c. unat (cbuf_used_count c)) (\<lambda>c. unat (cbuf_free_count c)) cbuf_push cbuf_pop c ops = Some d"
  shows "uint (cbuf_used_count d) = uint (cbuf_used_count c) + sum_list (map op_sum ops) \<and>
    unat (cbuf_used_count d) + unat (cbuf_free_count d) = unat (cbuf_len c) \<and>
    (cbuf_is_full d \<longleftrightarrow> unat (cbuf_used_count d) = unat (cbuf_len c)) \<and>
    (cbuf_is_empty d \<longleftrightarrow> unat (cbuf_used_count d) = 0)"
proof -
  note r = cbuf_count.run_counts [OF assms]
  then have b: "unat (cbuf_used_count d) + unat (cbuf_free_count d) = unat (cbuf_len c)"
    using cbuf_count.bound [of d] by simp
  moreover have "cbuf_is_full d \<longleftrightarrow> unat (cbuf_free_count d) = 0" by (simp add: cbuf_is_full_def unat_eq_0)
  moreover have "cbuf_is_empty d \<longleftrightarrow> unat (cbuf_used_count d) = 0"
    by (simp add: cbuf_is_empty_def cbuf_used_count_def unat_eq_0)
  ultimately show ?thesis using r by auto
qed

definition sample_ring :: cbuf where
  "sample_ring = (cbuf_reset 40 64)\<lparr>cbuf_head := 4294967290, cbuf_tail := 4294967290\<rparr>"

lemma cbuf_counts_witness:
  "\<exists>d. ring_run (\<lambda>c. unat (cbuf_used_count c)) (\<lambda>c. unat (cbuf_free_count c)) cbuf_push cbuf_pop sample_ring
      [Push 64, Pop 10] = Some d \<and> uint (cbuf_used_count d) = 54"
proof -
  have f: "cbuf_inv sample_ring" "unat (cbuf_free_count sample_ring) = 64" "unat (cbuf_used_count sample_ring) = 0"
    by (simp_all add: sample_ring_def cbuf_reset_def cbuf_inv_def cbuf_free_count_def cbuf_used_count_def)
  have "unat (cbuf_used_count (cbuf_push sample_ring 64)) = 64"
    using cbuf_count.push_law [OF f(1), of 64] f by simp
  then have "ring_run (\<lambda>c. unat (cbuf_used_count c)) (\<lambda>c. unat (cbuf_free_count c)) cbuf_push cbuf_pop sample_ring
      [Push 64, Pop 10] = Some (cbuf_pop (cbuf_push sample_ring 64) 10)"
    using f by simp
  from this cbuf_counts [OF f(1) this] show ?thesis
    using f(3) by (intro exI conjI) (assumption, simp add: unat_eq_0)
qed

text \<open>One batch is handed over intact: on an empty ring, a block of items written in one go at
  the pointer of \<open>cbuf_put\<close> and published by \<open>cbuf_advance_tail\<close> is what \<open>cbuf_get\<close>
  then shows: the same pointer, the number of items, and the same bytes, also where the block
  crosses the end of the storage.\<close>
lemma cbuf_batch_roundtrip:
  assumes "cbuf_is_empty c" "n \<le> unat (cbuf_len c)" "length bs = n * unat (cbuf_item_size c)"
    and "n * unat (cbuf_item_size c) \<le> unat (cbuf_sz c)"
    and "cbuf_put c = (room, start)" "cbuf_get (cbuf_push (cbuf_write c start bs) n) = (items, start')"
  shows "n \<le> unat room \<and> unat items = n \<and> start' = start \<and>
    cbuf_read (cbuf_push (cbuf_write c start bs) n) start' (length bs) = bs"
proof -
  let ?d = "cbuf_push (cbuf_write c start bs) n"
  have n: "unat (of_nat n :: u32) = n"
    using assms(2) unat_lt_u32 [of "cbuf_len c"] by (simp add: unat_simps)
  have e: "cbuf_tail c = cbuf_head c" using assms(1) by (simp add: cbuf_is_empty_def)
  have d: "cbuf_tail ?d = cbuf_tail c + of_nat n" "cbuf_head ?d = cbuf_head c" "cbuf_len ?d = cbuf_len c"
      "cbuf_sz ?d = cbuf_sz c" "cbuf_mem ?d = ring_wr (unat (cbuf_sz c)) (cbuf_mem c) start bs"
    by (simp_all add: cbuf_push_def cbuf_advance_tail_def cbuf_write_def)
  have "room = cbuf_len c" using assms(5) e by (simp add: cbuf_put_def cbuf_free_count_def)
  moreover have "items = of_nat n" "start' = start"
    using assms(5,6) e by (auto simp: cbuf_put_def cbuf_get_def cbuf_used_count_def cbuf_idx_def d)
  moreover have "cbuf_read ?d start (length bs) = bs"
    unfolding cbuf_read_def d using assms(3,4) by (intro ring_rd_wr) simp
  ultimately show ?thesis using n assms(2) by simp
qed

lemma cbuf_batch_roundtrip_witness:
  "cbuf_read (cbuf_push (cbuf_write (cbuf_reset 2 4) 0 [1, 2, 3, 4]) 2) 0 (length [1, 2, 3, 4 :: u8]) = [1, 2, 3, 4]"
proof -
  let ?c = "cbuf_reset 2 4"
  have sz: "unat (cbuf_sz ?c) = 4096" using cbuf_reset_size(1) [of 4 2] by simp
  have "cbuf_put ?c = (4, 0)" "cbuf_get (cbuf_push (cbuf_write ?c 0 [1, 2, 3, 4]) 2) = (2, 0)"
    by (simp_all add: cbuf_put_def cbuf_get_def cbuf_reset_def cbuf_idx_def cbuf_free_count_def cbuf_used_count_def
        cbuf_push_def cbuf_advance_tail_def cbuf_write_def)
  from cbuf_batch_roundtrip [OF _ _ _ _ this] sz show ?thesis
    by (simp add: cbuf_is_empty_def cbuf_reset_def)
qed

text \<open>C39. Items put one at a time overlap: \<open>cbuf_idx\<close> takes the item counter, reduced modulo
  \<open>len - 1\<close>, as a byte offset.  After two items of the same size of at least two bytes, written
  at the pointers of two successive \<open>cbuf_put\<close> calls, the pointer of \<open>cbuf_get\<close> shows the
  first byte of the first item followed by the second item.\<close>
theorem cbuf_items_overlap:
  assumes "cbuf_is_empty c" "length x = unat (cbuf_item_size c)" "length y = unat (cbuf_item_size c)"
    and "2 \<le> unat (cbuf_item_size c)" "unat (cbuf_item_size c) < unat (cbuf_sz c)"
    and "cbuf_idx c (cbuf_tail c) + 2 < unat (cbuf_len c)" "unat (cbuf_tail c) + 1 < 2 ^ 32"
    and "c1 = cbuf_push (cbuf_write c (snd (cbuf_put c)) x) 1"
    and "c2 = cbuf_push (cbuf_write c1 (snd (cbuf_put c1)) y) 1"
  shows "snd (cbuf_put c1) = snd (cbuf_put c) + 1 \<and>
    cbuf_read c2 (snd (cbuf_get c2)) (unat (cbuf_item_size c)) = hd x # take (unat (cbuf_item_size c) - 1) y"
proof -
  let ?a = "cbuf_idx c (cbuf_tail c)" and ?n = "unat (cbuf_item_size c)"
  have len: "2 \<le> unat (cbuf_len c)" using assms(6) by simp
  have "unat (cbuf_tail c + 1) = unat (cbuf_tail c) + 1" using assms(7) by (simp add: unat_simps)
  then have next_idx: "cbuf_idx c (cbuf_tail c + 1) = ?a + 1"
    using assms(6) cbuf_idx_less(1) [OF len] by (simp add: mod_Suc)
  have idx: "cbuf_idx d i = cbuf_idx c i" if "cbuf_len d = cbuf_len c" for d i using that by (simp add: cbuf_idx_def)
  have c1: "cbuf_len c1 = cbuf_len c" "cbuf_tail c1 = cbuf_tail c + 1" "cbuf_head c1 = cbuf_head c"
      "cbuf_sz c1 = cbuf_sz c" "cbuf_mem c1 = ring_wr (unat (cbuf_sz c)) (cbuf_mem c) ?a x"
    by (simp_all add: assms(8) cbuf_push_def cbuf_advance_tail_def cbuf_write_def cbuf_put_def)
  have p1: "snd (cbuf_put c1) = ?a + 1" using next_idx by (simp add: cbuf_put_def c1(2) idx [OF c1(1)])
  have c2: "cbuf_len c2 = cbuf_len c" "cbuf_head c2 = cbuf_head c" "cbuf_sz c2 = cbuf_sz c"
      "cbuf_mem c2 = ring_wr (unat (cbuf_sz c)) (ring_wr (unat (cbuf_sz c)) (cbuf_mem c) ?a x) (?a + 1) y"
    using p1 by (simp_all add: assms(9) cbuf_push_def cbuf_advance_tail_def cbuf_write_def c1)
  have g: "snd (cbuf_get c2) = ?a" using assms(1) by (simp add: cbuf_get_def c2(2) idx [OF c2(1)] cbuf_is_empty_def)
  obtain n where n: "?n = Suc n" using assms(4) by (cases ?n) auto
  show ?thesis
    using p1 ring_overlap [of x n y "unat (cbuf_sz c)" "cbuf_mem c" ?a] assms(2,3,5)
    by (simp add: g cbuf_read_def c2 n cbuf_put_def [of c])
qed

lemma cbuf_items_overlap_witness:
  "let c1 = cbuf_push (cbuf_write (cbuf_reset 2 4) 0 [1, 2]) 1; c2 = cbuf_push (cbuf_write c1 1 [3, 4]) 1
   in cbuf_read c2 0 2 = [1, 3]"
proof -
  let ?c = "cbuf_reset 2 4"
  have sz: "unat (cbuf_sz ?c) = 4096" using cbuf_reset_size(1) [of 4 2] by simp
  have i: "cbuf_item_size ?c = 2" "cbuf_len ?c = 4" "cbuf_tail ?c = 0" "cbuf_head ?c = 0" "snd (cbuf_put ?c) = 0"
    by (simp_all add: cbuf_reset_def cbuf_put_def cbuf_idx_def)
  note o = cbuf_items_overlap [of ?c "[1, 2]" "[3, 4]", OF _ _ _ _ _ _ _ refl refl, unfolded i]
  have g: "snd (cbuf_get (cbuf_push (cbuf_write (cbuf_push (cbuf_write ?c 0 [1, 2]) 1) 1 [3, 4]) 1)) = 0"
    by (simp add: cbuf_get_def cbuf_idx_def cbuf_reset_def cbuf_push_def cbuf_advance_tail_def cbuf_write_def)
  have p: "snd (cbuf_put (cbuf_push (cbuf_write ?c 0 [1, 2]) 1)) = 1"
    by (simp add: cbuf_put_def cbuf_idx_def cbuf_reset_def cbuf_push_def cbuf_advance_tail_def cbuf_write_def)
  show ?thesis
    using o [unfolded p g] sz by (simp add: cbuf_is_empty_def i cbuf_idx_def Let_def)
qed

text \<open>The storage is large enough when \<open>len * item_size\<close> leaves room for the rounding below
  \<open>2 ^ 32\<close>: it is the next multiple of the page size.\<close>
lemma cbuf_init_large_enough:
  assumes "unat len * unat item_size + 4095 < 2 ^ 32"
  shows "unat len * unat item_size \<le> unat (cbuf_sz (cbuf_reset item_size len)) \<and>
    unat (cbuf_sz (cbuf_reset item_size len)) < unat len * unat item_size + 4096 \<and>
    4096 dvd unat (cbuf_sz (cbuf_reset item_size len)) \<and> cbuf_inv (cbuf_reset item_size len) \<and>
    cbuf_is_empty (cbuf_reset item_size len)"
proof -
  have "cbuf_inv (cbuf_reset item_size len)" "cbuf_is_empty (cbuf_reset item_size len)"
    by (simp_all add: cbuf_reset_def cbuf_inv_def cbuf_used_count_def cbuf_is_empty_def)
  then show ?thesis
    using cbuf_reset_size [OF assms] round_up_ge(2) [of "unat len * unat item_size"] by simp
qed

text \<open>\<open>mmap\<close> reports a failure by the address -1, which passes the test against NULL.  When all
  three calls fail, only the comparison of the second mapping notices, and only if the size is not 0.\<close>
lemma cbuf_init_map_failed:
  assumes "map_fd m \<ge> 0" "map_buf m = -1" "map_first m = -1" "map_second m = -1"
  shows "cbuf_init m item_size len =
    (if PAGE_ALIGN (len * item_size) = 0 then Inr (cbuf_reset item_size len) else Inl AssertFail)"
proof -
  have "(ucast (PAGE_ALIGN (len * item_size)) :: u64) = 0 \<longleftrightarrow> PAGE_ALIGN (len * item_size) = 0"
    by (simp add: word_unat_eq_iff unat_ucast_up)
  then show ?thesis using assms by (simp add: cbuf_init_def cbuf_reset_def Let_def)
qed

text \<open>Beyond that the 32-bit product loses the size: a ring of \<open>2 ^ 16\<close> items of
  \<open>2 ^ 16\<close> bytes gets no storage at all.\<close>
lemma cbuf_init_wraps: "cbuf_sz (cbuf_reset 65536 65536) = 0"
  by (simp add: cbuf_reset_def PAGE_ALIGN_def ALIGN_def ALIGN_MASK_def PAGE_SZ_def)

end
