(* ===== verification/Sched.thy ===== *)
theory Sched
  imports Stats Cbuf
begin

text \<open>
  src/scheduler.c and src/main.c: the jobs, the operations they issue on the submission queue and
  the handlers of their completions.  One record holds the globals of the program; a handler
  takes it and returns the new one.  Handlers return 0 in the code, which nothing reads, so the
  model drops it.

  liburing, the kernel and libc are parameters: the record \<open>os\<close> answers the \<open>n\<close>-th call of
  \<open>malloc\<close>, \<open>clock_gettime\<close> and \<open>io_uring_get_sqe\<close>, and completions are arguments.
\<close>

section \<open>Constants\<close>

definition ENTRIES :: u32 where "ENTRIES = push_bit 14 1"
definition BUF_SIZE :: u64 where "BUF_SIZE = BYTE_KB (push_bit 6 1)"
definition WRITE_TIMEOUT_MS :: u64 where "WRITE_TIMEOUT_MS = TIME_MS 5"
definition READ_TIMEOUT_MS :: u64 where "READ_TIMEOUT_MS = TIME_MS 100"
definition BACKGROUND_STATUS_MS :: u64 where "BACKGROUND_STATUS_MS = TIME_MS 200"
definition BACKGROUND_TRACING_MS :: u64 where "BACKGROUND_TRACING_MS = TIME_MS 10"
definition BACKGROUND_FLUSH_MS :: u64 where "BACKGROUND_FLUSH_MS = TIME_MS 100"
definition SPEEDTEST_RANGE_MS :: u64 where "SPEEDTEST_RANGE_MS = TIME_MS 1500"
definition BATCH_INCREMENT_PERCENT :: u32 where "BATCH_INCREMENT_PERCENT = 1"
definition INFLIGHT_LOW_RANGE :: u8 where "INFLIGHT_LOW_RANGE = 8"
definition INFLIGHT_HIGH_RANGE :: u8 where "INFLIGHT_HIGH_RANGE = 32"
definition TRACING_BUF_LEN :: u32 where "TRACING_BUF_LEN = 64"
definition BYTES_TO_WRITE :: u64 where "BYTES_TO_WRITE = BYTE_GB 2"
definition STATS_BUF_LEN :: u64 where "STATS_BUF_LEN = SPEEDTEST_RANGE_MS div BACKGROUND_STATUS_MS"

section \<open>State\<close>

text \<open>The functions that an \<open>op_callback_t\<close> points to; \<open>None\<close> is NULL or not initialised.\<close>

datatype op_callback_t = Page_written | Page_read | File_synced | Tracing_synced | Tracing_writed
  | Background_reader | Background_writer | Background_flusher | Background_status | Background_tracing

text \<open>\<open>long\<close> fields; their differences are taken modulo \<open>2 ^ 64\<close>.\<close>

record timespec =
  tv_sec :: u64
  tv_nsec :: u64

datatype buffer = Write_buf | Read_buf | Heap_buf u64

record op_file_synced =
  fs_callback :: "op_callback_t option"
  fs_issued :: timespec

record op_page_write =
  pw_callback :: "op_callback_t option"
  pw_page_id :: u32
  pw_user_fsync_callback :: u64
  pw_next :: u64
  pw_issued :: timespec

record page_write_node =
  wl_tail :: u64
  wl_head :: u64

record op_page_read =
  pr_callback :: "op_callback_t option"
  pr_buf :: buffer
  pr_issued :: timespec
  pr_page_id :: u32

record op_job =
  job_callback :: "op_callback_t option"
  job_ts :: timespec
  job_running :: bool

record writer_job =
  wj_inner :: op_job
  wj_buf :: buffer
  wj_fd :: u32
  wj_page_id :: u32
  wj_batch_size :: u32
  wj_written_no_flush :: u32
  wj_write_done :: u32
  wj_inflight :: u8

record reader_job =
  rj_inner :: op_job
  rj_fd :: u32
  rj_page_id :: u32
  rj_batch_size :: u32
  rj_read_done :: u32
  rj_inflight :: u8

record flusher_job =
  fj_inner :: op_job
  fj_op_fsync :: op_file_synced
  fj_write_list :: page_write_node
  fj_fd :: u32
  fj_page_id :: u32
  fj_inflight :: u8

record status_job =
  sj_inner :: op_job
  sj_last_time :: timespec

record tracing_dump_op =
  td_callback :: "op_callback_t option"
  td_fd :: u32
  td_to_write :: u32
  td_items :: u32
  td_inflight :: u8

record tracing_job =
  tj_inner :: op_job
  tj_start_time :: timespec
  tj_cbuf :: cbuf
  tj_trace_done :: u64
  tj_trace_synced :: u64
  tj_dump_op :: tracing_dump_op

text \<open>Requests on the submission queue: what the \<open>io_uring_prep\<close> functions are given.\<close>

datatype request = Unprepared
  | Prep_write u32 buffer u64 u64
  | Prep_write_ring u32 nat u64 u64
  | Prep_read u32 buffer u64 u64
  | Prep_fsync u32
  | Prep_timeout timespec

record io_uring_sqe =
  sqe_user_data :: u64
  sqe_req :: request

datatype op_object = Write_op op_page_write | Read_op op_page_read

type_synonym op_heap = "u64 \<Rightarrow> op_object option"

text \<open>The statistics, the output of the program (user callbacks called, status lines printed), and
  the numbers of calls made to \<open>malloc\<close>, \<open>clock_gettime\<close> and \<open>io_uring_get_sqe\<close>.\<close>

record background_stats =
  write_count_stats :: stats_bucket
  read_count_stats :: stats_bucket
  write_latency_stats :: stats_bucket
  read_latency_stats :: stats_bucket
  fsync_latency_stats :: stats_bucket
  fsync_count_stats :: stats_bucket

record outputs =
  fsync_calls :: "u64 list"
  status_lines :: "u64 list list"

record calls =
  mallocs :: nat
  clocks :: nat
  sqes :: nat

text \<open>
  The globals: \<open>thread_ctx\<close> (at the address \<open>ctx_base\<close>), \<open>page_id_check_order\<close>, the
  statistics and \<open>read_buf\<close>; the operations on the heap; the submission queue; output and calls.
\<close>

record sched =
  writer :: writer_job
  reader :: reader_job
  flusher :: flusher_job
  status :: status_job
  tracing :: tracing_job
  page_id_check_order :: u32
  bg :: background_stats
  read_mem :: "nat \<Rightarrow> u8"
  op_heap :: op_heap
  sq :: "io_uring_sqe list"
  ctx_base :: u64
  printed :: outputs
  calls :: calls

record os =
  os_malloc :: "nat \<Rightarrow> op_heap \<Rightarrow> u64"
  os_clock :: "nat \<Rightarrow> timespec option"
  os_get_sqe :: "nat \<Rightarrow> bool"

section \<open>Operations in \<open>thread_ctx\<close>\<close>

text \<open>
  The operations that are members of \<open>struct thread_context\<close>, with the offset of their
  \<open>struct op\<close> on a 64-bit target.
\<close>

datatype static_op = Op_writer | Op_reader | Op_status | Op_tracing | Op_dump | Op_flusher | Op_fsync

definition static_ops :: "static_op list" where
  "static_ops = [Op_writer, Op_reader, Op_status, Op_tracing, Op_dump, Op_flusher, Op_fsync]"

fun static_offset :: "static_op \<Rightarrow> u64" where
  "static_offset Op_writer = 0"
| "static_offset Op_reader = 64"
| "static_offset Op_status = 120"
| "static_offset Op_tracing = 168"
| "static_offset Op_dump = 264"
| "static_offset Op_flusher = 288"
| "static_offset Op_fsync = 320"

definition static_at :: "sched \<Rightarrow> static_op \<Rightarrow> u64" where
  "static_at s x = ctx_base s + static_offset x"

definition static_of :: "sched \<Rightarrow> u64 \<Rightarrow> static_op option" where
  "static_of s a = List.find (\<lambda>x. static_at s x = a) static_ops"

fun static_callback :: "sched \<Rightarrow> static_op \<Rightarrow> op_callback_t option" where
  "static_callback s Op_writer = job_callback (wj_inner (writer s))"
| "static_callback s Op_reader = job_callback (rj_inner (reader s))"
| "static_callback s Op_status = job_callback (sj_inner (status s))"
| "static_callback s Op_tracing = job_callback (tj_inner (tracing s))"
| "static_callback s Op_dump = td_callback (tj_dump_op (tracing s))"
| "static_callback s Op_flusher = job_callback (fj_inner (flusher s))"
| "static_callback s Op_fsync = fs_callback (fj_op_fsync (flusher s))"

fun set_static_callback :: "sched \<Rightarrow> static_op \<Rightarrow> op_callback_t option \<Rightarrow> sched" where
  "set_static_callback s Op_writer c = s\<lparr>writer := (writer s)\<lparr>wj_inner := (wj_inner (writer s))\<lparr>job_callback := c\<rparr>\<rparr>\<rparr>"
| "set_static_callback s Op_reader c = s\<lparr>reader := (reader s)\<lparr>rj_inner := (rj_inner (reader s))\<lparr>job_callback := c\<rparr>\<rparr>\<rparr>"
| "set_static_callback s Op_status c = s\<lparr>status := (status s)\<lparr>sj_inner := (sj_inner (status s))\<lparr>job_callback := c\<rparr>\<rparr>\<rparr>"
| "set_static_callback s Op_tracing c = s\<lparr>tracing := (tracing s)\<lparr>tj_inner := (tj_inner (tracing s))\<lparr>job_callback := c\<rparr>\<rparr>\<rparr>"
| "set_static_callback s Op_dump c = s\<lparr>tracing := (tracing s)\<lparr>tj_dump_op := (tj_dump_op (tracing s))\<lparr>td_callback := c\<rparr>\<rparr>\<rparr>"
| "set_static_callback s Op_flusher c = s\<lparr>flusher := (flusher s)\<lparr>fj_inner := (fj_inner (flusher s))\<lparr>job_callback := c\<rparr>\<rparr>\<rparr>"
| "set_static_callback s Op_fsync c = s\<lparr>flusher := (flusher s)\<lparr>fj_op_fsync := (fj_op_fsync (flusher s))\<lparr>fs_callback := c\<rparr>\<rparr>\<rparr>"

text \<open>\<open>op->callback\<close> of the operation at an address, in \<open>thread_ctx\<close> or on the heap.\<close>

definition op_callback :: "sched \<Rightarrow> u64 \<Rightarrow> op_callback_t option" where
  "op_callback s a =
     (case static_of s a of Some x \<Rightarrow> static_callback s x
      | None \<Rightarrow> (case op_heap s a of None \<Rightarrow> None
          | Some (Write_op w) \<Rightarrow> pw_callback w | Some (Read_op r) \<Rightarrow> pr_callback r))"

definition set_op_callback :: "sched \<Rightarrow> u64 \<Rightarrow> op_callback_t \<Rightarrow> sched res" where
  "set_op_callback s a c =
     (case static_of s a of Some x \<Rightarrow> Inr (set_static_callback s x (Some c))
      | None \<Rightarrow> (case op_heap s a of None \<Rightarrow> Inl BadPointer
          | Some (Write_op w) \<Rightarrow> Inr (s\<lparr>op_heap := (op_heap s)(a \<mapsto> Write_op (w\<lparr>pw_callback := Some c\<rparr>))\<rparr>)
          | Some (Read_op r) \<Rightarrow> Inr (s\<lparr>op_heap := (op_heap s)(a \<mapsto> Read_op (r\<lparr>pr_callback := Some c\<rparr>))\<rparr>)))"

section \<open>Library calls\<close>

definition clock_gettime :: "os \<Rightarrow> sched \<Rightarrow> (timespec \<times> sched) res" where
  "clock_gettime os s =
     (let s' = s\<lparr>calls := (calls s)\<lparr>clocks := clocks (calls s) + 1\<rparr>\<rparr>
      in case os_clock os (clocks (calls s)) of None \<Rightarrow> Inl AssertFail | Some t \<Rightarrow> Inr (t, s'))"

definition malloc_op :: "os \<Rightarrow> sched \<Rightarrow> op_object \<Rightarrow> (u64 \<times> sched) res" where
  "malloc_op os s x =
     (let a = os_malloc os (mallocs (calls s)) (op_heap s); s = s\<lparr>calls := (calls s)\<lparr>mallocs := mallocs (calls s) + 1\<rparr>\<rparr>
      in assert_res (a \<noteq> 0) (Inr (a, s\<lparr>op_heap := (op_heap s)(a \<mapsto> x)\<rparr>)))"

definition free_op :: "sched \<Rightarrow> u64 \<Rightarrow> sched res" where
  "free_op s a =
     (if op_heap s a = None then Inl BadPointer else Inr (s\<lparr>op_heap := (op_heap s)(a := None)\<rparr>))"

section \<open>Submission\<close>

text \<open>The result is the index of the entry in \<open>sq\<close>, \<open>None\<close> for NULL.\<close>

definition io_prepare_sqe :: "os \<Rightarrow> sched \<Rightarrow> u64 \<Rightarrow> op_callback_t \<Rightarrow> (nat option \<times> sched) res" where
  "io_prepare_sqe os s op callback =
     (let s' = s\<lparr>calls := (calls s)\<lparr>sqes := sqes (calls s) + 1\<rparr>\<rparr>
      in if \<not> os_get_sqe os (sqes (calls s)) then Inr (None, s')
         else bind_res (set_op_callback s' op callback) (\<lambda>s.
           let op_flags = (0 :: u16);
               user_data = (op AND (push_bit (64 - 16) 1 - 1)) OR push_bit (64 - 16) (ucast op_flags)
           in Inr (Some (length (sq s)),
                s\<lparr>sq := sq s @ [\<lparr>sqe_user_data = user_data, sqe_req = Unprepared\<rparr>]\<rparr>)))"

text \<open>\<open>io_uring_prep_write\<close> and the others, on the entry \<open>i\<close>.\<close>

definition io_uring_prep :: "sched \<Rightarrow> nat \<Rightarrow> request \<Rightarrow> sched" where
  "io_uring_prep s i r = s\<lparr>sq := (sq s)[i := (sq s ! i)\<lparr>sqe_req := r\<rparr>]\<rparr>"

text \<open>\<open>sqe = io_prepare_sqe(...); ASSERT(sqe); io_uring_prep(...)\<close>.\<close>

definition prepare_request :: "os \<Rightarrow> sched \<Rightarrow> u64 \<Rightarrow> op_callback_t \<Rightarrow> request \<Rightarrow> sched res" where
  "prepare_request os s op callback r =
     bind_res (io_prepare_sqe os s op callback) (\<lambda>(sqe, s).
       case sqe of None \<Rightarrow> Inl AssertFail | Some i \<Rightarrow> Inr (io_uring_prep s i r))"

definition static_job :: "sched \<Rightarrow> static_op \<Rightarrow> op_job" where
  "static_job s x = (case x of Op_writer \<Rightarrow> wj_inner (writer s) | Op_reader \<Rightarrow> rj_inner (reader s)
     | Op_status \<Rightarrow> sj_inner (status s) | Op_tracing \<Rightarrow> tj_inner (tracing s) | _ \<Rightarrow> fj_inner (flusher s))"

fun set_job :: "sched \<Rightarrow> static_op \<Rightarrow> op_job \<Rightarrow> sched" where
  "set_job s Op_writer j = s\<lparr>writer := (writer s)\<lparr>wj_inner := j\<rparr>\<rparr>"
| "set_job s Op_reader j = s\<lparr>reader := (reader s)\<lparr>rj_inner := j\<rparr>\<rparr>"
| "set_job s Op_status j = s\<lparr>status := (status s)\<lparr>sj_inner := j\<rparr>\<rparr>"
| "set_job s Op_tracing j = s\<lparr>tracing := (tracing s)\<lparr>tj_inner := j\<rparr>\<rparr>"
| "set_job s _ j = s\<lparr>flusher := (flusher s)\<lparr>fj_inner := j\<rparr>\<rparr>"

section \<open>Jobs\<close>

definition job_set_stopped :: "op_job \<Rightarrow> op_job" where
  "job_set_stopped op = op\<lparr>job_running := False\<rparr>"

definition init_job :: "op_job \<Rightarrow> u64 \<Rightarrow> u64 \<Rightarrow> op_callback_t \<Rightarrow> op_job" where
  "init_job op nsec sec callback =
     job_set_stopped (op\<lparr>job_callback := Some callback, job_ts := \<lparr>tv_sec = sec, tv_nsec = nsec\<rparr>\<rparr>)"

text \<open>The boolean is the returned error.  A job without a callback is never sent.\<close>

definition resend_job :: "os \<Rightarrow> sched \<Rightarrow> static_op \<Rightarrow> (bool \<times> sched) res" where
  "resend_job os s x =
     (case job_callback (static_job s x) of None \<Rightarrow> Inl BadPointer
      | Some callback \<Rightarrow>
          bind_res (io_prepare_sqe os s (static_at s x) callback) (\<lambda>(sqe, s).
            case sqe of None \<Rightarrow> Inr (True, s)
            | Some i \<Rightarrow> Inr (False, io_uring_prep s i (Prep_timeout (job_ts (static_job s x))))))"

definition run_job :: "os \<Rightarrow> sched \<Rightarrow> static_op \<Rightarrow> (bool \<times> sched) res" where
  "run_job os s x =
     bind_res (resend_job os s x) (\<lambda>(err, s).
       Inr (err, if err then s else set_job s x ((static_job s x)\<lparr>job_running := True\<rparr>)))"

text \<open>\<open>ret = resend_job(...); ASSERT(!ret)\<close>, or stopping the job, at the end of a tick.\<close>

definition resend :: "os \<Rightarrow> sched \<Rightarrow> static_op \<Rightarrow> sched res" where
  "resend os s x = bind_res (resend_job os s x) (\<lambda>(ret, s). assert_res (\<not> ret) (Inr s))"

definition stop_job :: "sched \<Rightarrow> static_op \<Rightarrow> sched" where
  "stop_job s x = set_job s x (job_set_stopped (static_job s x))"

end
