(* ===== verification/Handlers.thy ===== *)
theory Handlers
  imports Sched
begin

text \<open>
  The completion handlers of src/scheduler.c, the loop that calls them (\<open>io_tick\<close>), and the
  initialisation and main loop of src/main.c.
\<close>

section \<open>Time\<close>

definition elapsed_ns :: "timespec \<Rightarrow> timespec \<Rightarrow> u64" where
  "elapsed_ns now issued = TIME_S (tv_sec now - tv_sec issued) + (tv_nsec now - tv_nsec issued)"

definition elapsed_us :: "timespec \<Rightarrow> timespec \<Rightarrow> u64" where
  "elapsed_us now issued = elapsed_ns now issued div TIME_US 1"

text \<open>The trace computes its time stamp differently: only the seconds of \<open>now\<close> are scaled.\<close>

definition trace_elapsed :: "timespec \<Rightarrow> timespec \<Rightarrow> u64" where
  "trace_elapsed now start = (TIME_S (tv_sec now) - tv_sec start) + (tv_nsec now - tv_nsec start)"

section \<open>Completed requests\<close>

text \<open>Appending to the list of written pages.\<close>

definition write_list_append :: "sched \<Rightarrow> u64 \<Rightarrow> sched res" where
  "write_list_append s op =
     (let list = fj_write_list (flusher s)
      in if wl_tail list = 0
         then Inr (s\<lparr>flusher := (flusher s)\<lparr>fj_write_list := \<lparr>wl_tail = op, wl_head = op\<rparr>\<rparr>\<rparr>)
         else case op_heap s (wl_head list) of
             Some (Write_op w) \<Rightarrow>
               Inr (s\<lparr>op_heap := (op_heap s)(wl_head list \<mapsto> Write_op (w\<lparr>pw_next := op\<rparr>)),
                      flusher := (flusher s)\<lparr>fj_write_list := list\<lparr>wl_head := op\<rparr>\<rparr>\<rparr>)
           | _ \<Rightarrow> Inl BadPointer)"

definition count_write :: "background_stats \<Rightarrow> u64 \<Rightarrow> background_stats res" where
  "count_write b us =
     bind_res (stats_bucket_add_one (write_count_stats b)) (\<lambda>c.
     bind_res (stats_bucket_add (write_latency_stats b) us) (\<lambda>l.
       Inr (b\<lparr>write_count_stats := c, write_latency_stats := l\<rparr>)))"

definition count_read :: "background_stats \<Rightarrow> u64 \<Rightarrow> background_stats res" where
  "count_read b us =
     bind_res (stats_bucket_add_one (read_count_stats b)) (\<lambda>c.
     bind_res (stats_bucket_add (read_latency_stats b) us) (\<lambda>l.
       Inr (b\<lparr>read_count_stats := c, read_latency_stats := l\<rparr>)))"

definition count_fsync :: "background_stats \<Rightarrow> u64 \<Rightarrow> background_stats res" where
  "count_fsync b us =
     bind_res (stats_bucket_add_one (fsync_count_stats b)) (\<lambda>c.
     bind_res (stats_bucket_add (fsync_latency_stats b) us) (\<lambda>l.
       Inr (b\<lparr>fsync_count_stats := c, fsync_latency_stats := l\<rparr>)))"

definition page_written :: "os \<Rightarrow> sched \<Rightarrow> u64 \<Rightarrow> sched res" where
  "page_written os s base_op =
     (case op_heap s base_op of
        Some (Write_op op) \<Rightarrow>
          assert_res (pw_page_id op = page_id_check_order s)
            (let s = s\<lparr>page_id_check_order := page_id_check_order s + 1\<rparr>
             in bind_res (clock_gettime os s) (\<lambda>(now, s).
                bind_res (write_list_append s base_op) (\<lambda>s.
                  let s = s\<lparr>writer := (writer s)\<lparr>wj_written_no_flush := wj_written_no_flush (writer s) + 1,
                                                  wj_inflight := wj_inflight (writer s) - 1\<rparr>\<rparr>
                  in bind_res (count_write (bg s) (elapsed_us now (pw_issued op))) (\<lambda>b.
                       Inr (s\<lparr>bg := b\<rparr>)))))
      | _ \<Rightarrow> Inl BadPointer)"

text \<open>\<open>write_buf\<close> is initialised by \<open>{'a'}\<close>: an \<open>a\<close> and zeros.\<close>

definition write_buf :: "nat \<Rightarrow> u8" where "write_buf i = (if i = 0 then 97 else 0)"

definition buffer_bytes :: "sched \<Rightarrow> buffer \<Rightarrow> u8 list res" where
  "buffer_bytes s b = (case b of Write_buf \<Rightarrow> Inr (map write_buf [0..<8])
     | Read_buf \<Rightarrow> Inr (map (read_mem s) [0..<8]) | Heap_buf a \<Rightarrow> Inl BadPointer)"

definition page_read :: "os \<Rightarrow> sched \<Rightarrow> u64 \<Rightarrow> sched res" where
  "page_read os s base_op =
     (case op_heap s base_op of
        Some (Read_op op) \<Rightarrow>
          bind_res (clock_gettime os s) (\<lambda>(now, s).
          bind_res (buffer_bytes s (pr_buf op)) (\<lambda>bytes.
            assert_res (map write_buf [0..<8] = bytes)
              (let s = s\<lparr>reader := (reader s)\<lparr>rj_inflight := rj_inflight (reader s) - 1\<rparr>\<rparr>
               in bind_res (count_read (bg s) (elapsed_us now (pr_issued op))) (\<lambda>b.
                  let s = s\<lparr>bg := b\<rparr>
                  in bind_res (if pr_buf op \<noteq> Read_buf
                               then (case pr_buf op of Heap_buf a \<Rightarrow> free_op s a | _ \<Rightarrow> Inl BadPointer)
                               else Inr s) (\<lambda>s. free_op s base_op)))))
      | _ \<Rightarrow> Inl BadPointer)"

definition jobs_finished :: "sched \<Rightarrow> bool" where
  "jobs_finished s \<longleftrightarrow> \<not> job_running (wj_inner (writer s)) \<and> \<not> job_running (fj_inner (flusher s)) \<and>
     \<not> job_running (rj_inner (reader s))"

definition tracing_writed :: "os \<Rightarrow> sched \<Rightarrow> u64 \<Rightarrow> int \<Rightarrow> sched res" where
  "tracing_writed os s base_op cqe_res =
     (if base_op \<noteq> static_at s Op_dump then Inl BadPointer
      else let op = tj_dump_op (tracing s)
      in assert_res (cqe_res \<ge> 0) (assert_res (word_of_int cqe_res = td_to_write op)
           (let s = s\<lparr>tracing := (tracing s)\<lparr>tj_cbuf := cbuf_advance_head (tj_cbuf (tracing s)) (td_items op)\<rparr>\<rparr>
            in prepare_request os s base_op Tracing_synced (Prep_fsync (td_fd op)))))"

definition tracing_synced :: "sched \<Rightarrow> u64 \<Rightarrow> sched res" where
  "tracing_synced s base_op =
     (if base_op \<noteq> static_at s Op_dump then Inl BadPointer
      else let op = tj_dump_op (tracing s);
               s = s\<lparr>tracing := (tracing s)\<lparr>tj_trace_synced := tj_trace_synced (tracing s) + ucast (td_to_write op),
                                              tj_dump_op := op\<lparr>td_inflight := 0\<rparr>\<rparr>\<rparr>
           in Inr (if jobs_finished s then stop_job s Op_tracing else s))"

text \<open>
  The walk over the written pages: user callbacks are called, nodes freed.  The walk follows
  \<open>next\<close> until NULL.
\<close>

partial_function (option) free_written :: "sched \<Rightarrow> u64 \<Rightarrow> sched res option" where
  "free_written s node =
     (if node = 0 then Some (Inr s)
      else case op_heap s node of
          Some (Write_op w) \<Rightarrow>
            (let s = (if pw_user_fsync_callback w \<noteq> 0
                      then s\<lparr>printed := (printed s)\<lparr>fsync_calls := fsync_calls (printed s) @ [pw_user_fsync_callback w]\<rparr>\<rparr>
                      else s);
                 next = pw_next w
             in free_written (s\<lparr>op_heap := (op_heap s)(node := None)\<rparr>) next)
        | _ \<Rightarrow> Some (Inl BadPointer))"

definition file_synced :: "os \<Rightarrow> sched \<Rightarrow> u64 \<Rightarrow> sched res" where
  "file_synced os s base_op =
     (if base_op \<noteq> static_at s Op_fsync then Inl BadPointer
      else bind_res (clock_gettime os s) (\<lambda>(now, s).
        let s = s\<lparr>flusher := (flusher s)\<lparr>fj_page_id := fj_page_id (flusher s) + wj_written_no_flush (writer s)\<rparr>\<rparr>;
            s = s\<lparr>writer := (writer s)\<lparr>wj_written_no_flush := 0\<rparr>\<rparr>;
            node = wl_tail (fj_write_list (flusher s));
            s = s\<lparr>flusher := (flusher s)\<lparr>fj_write_list := \<lparr>wl_tail = 0, wl_head = 0\<rparr>\<rparr>\<rparr>
        in bind_res (loop_res (free_written s node)) (\<lambda>freed.
           bind_res freed (\<lambda>s.
             let s = s\<lparr>flusher := (flusher s)\<lparr>fj_inflight := 0\<rparr>\<rparr>
             in bind_res (count_fsync (bg s) (elapsed_us now (fs_issued (fj_op_fsync (flusher s))))) (\<lambda>b.
                  Inr (s\<lparr>bg := b\<rparr>))))))"

section \<open>Ticks of the jobs\<close>

text \<open>The batch size of the writer and of the reader: the same code in both.\<close>

definition next_batch_size :: "u8 \<Rightarrow> u32 \<Rightarrow> u32" where
  "next_batch_size inflight batch_size =
     (if inflight \<le> INFLIGHT_LOW_RANGE \<and> batch_size < drop_bit 1 ENTRIES
      then (if inflight = 0 \<and> batch_size > 0 then batch_size * 2
            else batch_size + max_c 1 (batch_size * BATCH_INCREMENT_PERCENT div 100))
      else if batch_size > 0 \<and> inflight \<ge> INFLIGHT_HIGH_RANGE
      then batch_size - max_c 1 (batch_size * BATCH_INCREMENT_PERCENT div 100)
      else batch_size)"

definition issue_read :: "os \<Rightarrow> sched \<Rightarrow> u32 \<Rightarrow> sched res" where
  "issue_read os s i =
     (let page_id = rj_page_id (reader s) + i
      in bind_res (malloc_op os s (Read_op \<lparr>pr_callback = None, pr_buf = Read_buf,
                     pr_issued = \<lparr>tv_sec = 0, tv_nsec = 0\<rparr>, pr_page_id = page_id\<rparr>)) (\<lambda>(a, s).
         bind_res (clock_gettime os s) (\<lambda>(now, s).
           let s = s\<lparr>op_heap := (op_heap s)(a \<mapsto> Read_op \<lparr>pr_callback = None, pr_buf = Read_buf,
                     pr_issued = now, pr_page_id = page_id\<rparr>)\<rparr>
           in prepare_request os s a Page_read
                (Prep_read (rj_fd (reader s)) Read_buf BUF_SIZE (BUF_SIZE * ucast page_id)))))"

definition issue_write :: "os \<Rightarrow> sched \<Rightarrow> u32 \<Rightarrow> sched res" where
  "issue_write os s i =
     (let page_id = wj_page_id (writer s) + i
      in bind_res (malloc_op os s (Write_op \<lparr>pw_callback = None, pw_page_id = page_id,
                     pw_user_fsync_callback = 0, pw_next = 0, pw_issued = \<lparr>tv_sec = 0, tv_nsec = 0\<rparr>\<rparr>)) (\<lambda>(a, s).
         bind_res (clock_gettime os s) (\<lambda>(now, s).
           let s = s\<lparr>op_heap := (op_heap s)(a \<mapsto> Write_op \<lparr>pw_callback = None, pw_page_id = page_id,
                     pw_user_fsync_callback = 0, pw_next = 0, pw_issued = now\<rparr>)\<rparr>
           in prepare_request os s a Page_written
                (Prep_write (wj_fd (writer s)) (wj_buf (writer s)) BUF_SIZE (BUF_SIZE * ucast page_id)))))"

text \<open>The loop over the batch: \<open>n\<close> rounds are left, the next index is \<open>i\<close>.\<close>

fun issue_batch :: "(sched \<Rightarrow> u32 \<Rightarrow> sched res) \<Rightarrow> sched \<Rightarrow> u32 \<Rightarrow> nat \<Rightarrow> sched res" where
  "issue_batch issue s i 0 = Inr s"
| "issue_batch issue s i (Suc n) = bind_res (issue s i) (\<lambda>s. issue_batch issue s (i + 1) n)"

definition below_limit :: "u32 \<Rightarrow> bool" where
  "below_limit page_id \<longleftrightarrow> ucast page_id * BUF_SIZE < BYTES_TO_WRITE"

definition background_reader :: "os \<Rightarrow> sched \<Rightarrow> u64 \<Rightarrow> sched res" where
  "background_reader os s base_op =
     (if base_op \<noteq> static_at s Op_reader then Inl BadPointer
      else let op = reader s;
        batch = next_batch_size (rj_inflight op) (rj_batch_size op);
        limit_page_id = (ucast (fj_page_id (flusher s)) :: u64);
        batch = ucast (min_c (ucast batch) (limit_page_id - ucast (rj_page_id op)));
        s = s\<lparr>reader := op\<lparr>rj_batch_size := batch\<rparr>\<rparr>
      in bind_res (issue_batch (issue_read os) s 0 (unat batch)) (\<lambda>s.
           let s = s\<lparr>reader := (reader s)\<lparr>rj_inflight := rj_inflight (reader s) + ucast batch,
                                           rj_page_id := rj_page_id (reader s) + batch\<rparr>\<rparr>
           in if below_limit (rj_page_id (reader s)) then resend os s Op_reader
              else Inr (stop_job s Op_reader)))"

definition background_writer :: "os \<Rightarrow> sched \<Rightarrow> u64 \<Rightarrow> sched res" where
  "background_writer os s base_op =
     (if base_op \<noteq> static_at s Op_writer then Inl BadPointer
      else let op = writer s;
        batch = next_batch_size (wj_inflight op) (wj_batch_size op);
        s = s\<lparr>writer := op\<lparr>wj_batch_size := batch\<rparr>\<rparr>
      in bind_res (issue_batch (issue_write os) s 0 (unat batch)) (\<lambda>s.
           let s = s\<lparr>writer := (writer s)\<lparr>wj_inflight := wj_inflight (writer s) + ucast batch,
                                           wj_page_id := wj_page_id (writer s) + batch\<rparr>\<rparr>
           in if below_limit (wj_page_id (writer s)) then resend os s Op_writer
              else Inr (stop_job s Op_writer)))"

definition background_flusher :: "os \<Rightarrow> sched \<Rightarrow> u64 \<Rightarrow> sched res" where
  "background_flusher os s base_op =
     (if base_op \<noteq> static_at s Op_flusher then Inl BadPointer
      else bind_res
        (if wj_written_no_flush (writer s) \<noteq> 0 \<and> fj_inflight (flusher s) = 0
         then bind_res (clock_gettime os s) (\<lambda>(now, s).
              let s = s\<lparr>flusher := (flusher s)\<lparr>fj_op_fsync := (fj_op_fsync (flusher s))\<lparr>fs_issued := now\<rparr>\<rparr>\<rparr>
              in bind_res (prepare_request os s (static_at s Op_fsync) File_synced (Prep_fsync (fj_fd (flusher s)))) (\<lambda>s.
                   Inr (s\<lparr>flusher := (flusher s)\<lparr>fj_inflight := 1\<rparr>\<rparr>)))
         else Inr s) (\<lambda>s.
           if below_limit (fj_page_id (flusher s)) then resend os s Op_flusher
           else Inr (stop_job s Op_flusher)))"

definition sizeof_tracing_item :: u32 where "sizeof_tracing_item = 40"

definition dump_tracing_items :: "os \<Rightarrow> sched \<Rightarrow> sched res" where
  "dump_tracing_items os s =
     (let op = tracing s
      in if td_inflight (tj_dump_op op) \<noteq> 0 then Inr s
         else let (items, buf) = cbuf_get (tj_cbuf op)
         in if items = 0 then Inr s
            else let to_write = items * sizeof_tracing_item;
                     s = s\<lparr>tracing := op\<lparr>tj_dump_op := (tj_dump_op op)\<lparr>td_items := items,
                              td_to_write := to_write, td_inflight := 1\<rparr>\<rparr>\<rparr>
                 in prepare_request os s (static_at s Op_dump) Tracing_writed
                      (Prep_write_ring (td_fd (tj_dump_op op)) buf (ucast to_write) (tj_trace_synced op)))"

text \<open>The members of \<open>struct tracing_item\<close> in their order; the last four bytes are padding.\<close>

definition tracing_item_bytes :: "sched \<Rightarrow> u64 \<Rightarrow> u8 list" where
  "tracing_item_bytes s elapsed =
     to_le 8 elapsed @ to_le 4 (fj_page_id (flusher s)) @ to_le 4 (ucast (wj_inflight (writer s)) :: u32) @
     to_le 4 (wj_page_id (writer s)) @ to_le 4 (wj_batch_size (writer s)) @
     to_le 4 (ucast (rj_inflight (reader s)) :: u32) @ to_le 4 (rj_page_id (reader s)) @
     to_le 4 (rj_batch_size (reader s))"

definition background_tracing :: "os \<Rightarrow> sched \<Rightarrow> u64 \<Rightarrow> sched res" where
  "background_tracing os s base_op =
     (if base_op \<noteq> static_at s Op_tracing then Inl BadPointer
      else let (free_space, item) = cbuf_put (tj_cbuf (tracing s)); finished = jobs_finished s
      in bind_res
        (if free_space \<noteq> 0 \<and> \<not> finished
         then bind_res (clock_gettime os s) (\<lambda>(now, s).
              let c = cbuf_write (tj_cbuf (tracing s)) item
                        (tracing_item_bytes s (trace_elapsed now (tj_start_time (tracing s))))
              in Inr (s\<lparr>tracing := (tracing s)\<lparr>tj_cbuf := cbuf_advance_tail c 1,
                                                tj_trace_done := tj_trace_done (tracing s) + 1\<rparr>\<rparr>))
         else Inr s) (\<lambda>s.
      bind_res
        (if cbuf_free_count (tj_cbuf (tracing s)) \<le> cbuf_len (tj_cbuf (tracing s)) div 2
         then dump_tracing_items os s else Inr s) (\<lambda>s.
        if \<not> finished \<or> td_inflight (tj_dump_op (tracing s)) \<noteq> 0 then resend os s Op_tracing
        else dump_tracing_items os s)))"

text \<open>The figures of the status line.  Without a value for the divisor the code prints 0.\<close>

definition mbs_speed :: "stats_bucket \<Rightarrow> u64" where
  "mbs_speed b = (if sb_acc_time b \<noteq> 0
     then (BUF_SIZE * sb_acc_val b) * TIME_S 1 div sb_acc_time b div BYTE_MB 1 else 0)"

definition latency_ms :: "stats_bucket \<Rightarrow> stats_bucket \<Rightarrow> u64" where
  "latency_ms latency cnt = (if sb_acc_val cnt \<noteq> 0
     then sb_acc_val latency div sb_acc_val cnt * TIME_US 1 div TIME_MS 1 else 0)"

definition status_line :: "sched \<Rightarrow> u64 list" where
  "status_line s =
     [ucast (rj_inflight (reader s)), ucast (wj_inflight (writer s)),
      sb_acc_val (read_count_stats (bg s)), sb_acc_val (write_count_stats (bg s)),
      mbs_speed (read_count_stats (bg s)), mbs_speed (write_count_stats (bg s)),
      ucast (rj_batch_size (reader s)), ucast (wj_batch_size (writer s)),
      ucast (rj_page_id (reader s)), ucast (wj_page_id (writer s)), ucast (fj_page_id (flusher s)),
      latency_ms (read_latency_stats (bg s)) (read_count_stats (bg s)),
      latency_ms (write_latency_stats (bg s)) (write_count_stats (bg s)),
      latency_ms (fsync_latency_stats (bg s)) (fsync_count_stats (bg s)),
      sb_acc_time (read_count_stats (bg s)) div TIME_MS 1, sb_acc_time (write_count_stats (bg s)) div TIME_MS 1]"

definition move_all :: "background_stats \<Rightarrow> u64 \<Rightarrow> background_stats res" where
  "move_all b elapsed =
     bind_res (stats_bucket_move (write_count_stats b) elapsed) (\<lambda>wc.
     bind_res (stats_bucket_move (read_count_stats b) elapsed) (\<lambda>rc.
     bind_res (stats_bucket_move (write_latency_stats b) elapsed) (\<lambda>wl.
     bind_res (stats_bucket_move (read_latency_stats b) elapsed) (\<lambda>rl.
     bind_res (stats_bucket_move (fsync_latency_stats b) elapsed) (\<lambda>fl.
     bind_res (stats_bucket_move (fsync_count_stats b) elapsed) (\<lambda>fc.
       Inr \<lparr>write_count_stats = wc, read_count_stats = rc, write_latency_stats = wl,
            read_latency_stats = rl, fsync_latency_stats = fl, fsync_count_stats = fc\<rparr>))))))"

definition background_status :: "os \<Rightarrow> sched \<Rightarrow> u64 \<Rightarrow> sched res" where
  "background_status os s base_op =
     (if base_op \<noteq> static_at s Op_status then Inl BadPointer
      else bind_res (clock_gettime os s) (\<lambda>(now, s).
        let elapsed = elapsed_ns now (sj_last_time (status s));
            s = s\<lparr>printed := (printed s)\<lparr>status_lines := status_lines (printed s) @ [status_line s]\<rparr>\<rparr>
        in bind_res (move_all (bg s) elapsed) (\<lambda>b.
             let s = s\<lparr>bg := b, status := (status s)\<lparr>sj_last_time := now\<rparr>\<rparr>
             in resend os s Op_status)))"

section \<open>Completion loop\<close>

text \<open>\<open>op->callback(op, cqe)\<close>.\<close>

fun run_callback :: "os \<Rightarrow> sched \<Rightarrow> op_callback_t \<Rightarrow> u64 \<Rightarrow> int \<Rightarrow> sched res" where
  "run_callback os s Page_written op r = page_written os s op"
| "run_callback os s Page_read op r = page_read os s op"
| "run_callback os s File_synced op r = file_synced os s op"
| "run_callback os s Tracing_synced op r = tracing_synced s op"
| "run_callback os s Tracing_writed op r = tracing_writed os s op r"
| "run_callback os s Background_reader op r = background_reader os s op"
| "run_callback os s Background_writer op r = background_writer os s op"
| "run_callback os s Background_flusher op r = background_flusher os s op"
| "run_callback os s Background_status op r = background_status os s op"
| "run_callback os s Background_tracing op r = background_tracing os s op"

definition job_callbacks :: "op_callback_t list" where
  "job_callbacks = [Background_flusher, Background_status, Background_writer, Background_reader, Background_tracing]"

definition ETIME :: int where "ETIME = 62"

text \<open>One completion: its \<open>user_data\<close> and its result.\<close>

definition io_cqe :: "os \<Rightarrow> sched \<Rightarrow> u64 \<Rightarrow> int \<Rightarrow> sched res" where
  "io_cqe os s user_data r =
     (let op_flags = (ucast (drop_bit (64 - 16) user_data) :: u16); op = user_data
      in assert_res (op_flags = 0) (assert_res (op \<noteq> 0)
           (case op_callback s op of
              None \<Rightarrow>
                if r = - ETIME \<and> (static_of s op \<noteq> None \<or> op_heap s op \<noteq> None) then Inl AssertFail
                else if r \<ge> 0 \<or> r = - ETIME then Inl BadPointer else Inr s
            | Some c \<Rightarrow>
                assert_res (r = - ETIME \<longrightarrow> c \<in> set job_callbacks)
                  (if r \<ge> 0 \<or> r = - ETIME then run_callback os s c op r else Inr s))))"

text \<open>
  \<open>ret\<close> is the result of \<open>io_uring_submit_and_wait_timeout\<close>, \<open>cqes\<close> the completions it made
  visible.  The result is the number of completions consumed, or the error.
\<close>

definition io_tick :: "os \<Rightarrow> sched \<Rightarrow> int \<Rightarrow> (u64 \<times> int) list \<Rightarrow> (int \<times> sched) res" where
  "io_tick os s ret cqes =
     (if ret = - ETIME then Inr (0, s)
      else if ret < 0 then Inr (ret, s)
      else bind_res (run_res (\<lambda>s (user_data, r). io_cqe os s user_data r) s cqes) (\<lambda>s.
             Inr (int (length cqes), s)))"

section \<open>Initialisation and main loop\<close>

definition background_writer_init :: "sched \<Rightarrow> u32 \<Rightarrow> sched" where
  "background_writer_init s fd =
     s\<lparr>writer := \<lparr>wj_inner = init_job (wj_inner (writer s)) WRITE_TIMEOUT_MS 0 Background_writer,
        wj_buf = Write_buf, wj_fd = fd, wj_page_id = 0, wj_batch_size = 0, wj_written_no_flush = 0,
        wj_write_done = 0, wj_inflight = 0\<rparr>\<rparr>"

definition background_reader_init :: "sched \<Rightarrow> u32 \<Rightarrow> sched" where
  "background_reader_init s fd =
     s\<lparr>reader := \<lparr>rj_inner = init_job (rj_inner (reader s)) READ_TIMEOUT_MS 0 Background_reader,
        rj_fd = fd, rj_page_id = 0, rj_batch_size = 0, rj_read_done = 0, rj_inflight = 0\<rparr>\<rparr>"

definition background_flusher_init :: "sched \<Rightarrow> u32 \<Rightarrow> sched" where
  "background_flusher_init s fd =
     s\<lparr>flusher := \<lparr>fj_inner = init_job (job_set_stopped (fj_inner (flusher s))) BACKGROUND_FLUSH_MS 0 Background_flusher,
        fj_op_fsync = fj_op_fsync (flusher s), fj_write_list = \<lparr>wl_tail = 0, wl_head = 0\<rparr>,
        fj_fd = fd, fj_page_id = 0, fj_inflight = 0\<rparr>\<rparr>"

text \<open>\<open>fd\<close> is the result of opening the trace file, \<open>m\<close> the mappings of the ring buffer.\<close>

definition background_tracing_init :: "os \<Rightarrow> sched \<Rightarrow> int \<Rightarrow> mapping \<Rightarrow> sched res" where
  "background_tracing_init os s fd m =
     bind_res (clock_gettime os s) (\<lambda>(now, s).
       assert_res (fd > 0) (assert_res (TRACING_BUF_LEN mod 2 = 0)
         (bind_res (cbuf_init m sizeof_tracing_item TRACING_BUF_LEN) (\<lambda>c.
         Inr (s\<lparr>tracing := \<lparr>tj_inner = init_job (tj_inner (tracing s)) BACKGROUND_TRACING_MS 0 Background_tracing,
            tj_start_time = now, tj_cbuf = c,
            tj_trace_done = 0, tj_trace_synced = 0,
            tj_dump_op = (tj_dump_op (tracing s))\<lparr>td_fd := word_of_int fd, td_inflight := 0\<rparr>\<rparr>\<rparr>)))))"

definition background_status_init :: "os \<Rightarrow> sched \<Rightarrow> sched res" where
  "background_status_init os s =
     bind_res (clock_gettime os s) (\<lambda>(now, s).
       Inr (s\<lparr>status := \<lparr>sj_inner = init_job (sj_inner (status s)) BACKGROUND_STATUS_MS 0 Background_status,
            sj_last_time = now\<rparr>\<rparr>))"

definition stats_init_all :: "bool \<Rightarrow> background_stats res" where
  "stats_init_all mem =
     bind_res (stats_bucket_init mem (ucast STATS_BUF_LEN)) (\<lambda>wc.
     bind_res (stats_bucket_init mem (ucast STATS_BUF_LEN)) (\<lambda>rc.
     bind_res (stats_bucket_init mem (ucast STATS_BUF_LEN)) (\<lambda>wl.
     bind_res (stats_bucket_init mem (ucast STATS_BUF_LEN)) (\<lambda>rl.
     bind_res (stats_bucket_init mem (ucast STATS_BUF_LEN)) (\<lambda>fl.
     bind_res (stats_bucket_init mem (ucast STATS_BUF_LEN)) (\<lambda>fc.
       Inr \<lparr>write_count_stats = wc, read_count_stats = rc, write_latency_stats = wl,
            read_latency_stats = rl, fsync_latency_stats = fl, fsync_count_stats = fc\<rparr>))))))"

text \<open>
  \<open>main\<close> up to its loop.  \<open>argc\<close>, the result of \<open>io_uring_queue_init_params\<close> and of the
  two calls of \<open>open\<close>, the success of \<open>calloc\<close> and the mappings of the ring are arguments.  The returned errors of
  \<open>run_job\<close> are ignored.
\<close>

definition main_init :: "os \<Rightarrow> sched \<Rightarrow> int \<Rightarrow> int \<Rightarrow> int \<Rightarrow> bool \<Rightarrow> int \<Rightarrow> mapping \<Rightarrow> sched res" where
  "main_init os s argc ret fd mem trace_fd m =
     assert_res (argc = 2) (assert_res (ret = 0) (assert_res (fd \<noteq> -1)
     (assert_res (INFLIGHT_LOW_RANGE \<le> INFLIGHT_HIGH_RANGE)
     (assert_res (BACKGROUND_STATUS_MS \<le> SPEEDTEST_RANGE_MS)
       (bind_res (stats_init_all mem) (\<lambda>b.
          let s = s\<lparr>bg := b\<rparr>;
              s = background_writer_init s (word_of_int fd);
              s = background_reader_init s (word_of_int fd);
              s = background_flusher_init s (word_of_int fd)
          in bind_res (background_tracing_init os s trace_fd m) (\<lambda>s.
             bind_res (background_status_init os s) (\<lambda>s.
             bind_res (run_job os s Op_writer) (\<lambda>(err, s).
             bind_res (run_job os s Op_reader) (\<lambda>(err, s).
             bind_res (run_job os s Op_flusher) (\<lambda>(err, s).
             bind_res (run_job os s Op_tracing) (\<lambda>(err, s).
             bind_res (run_job os s Op_status) (\<lambda>(err, s). Inr s)))))))))))))"

text \<open>
  One round of the main loop: \<open>submitted\<close> is the result of \<open>io_uring_submit\<close>, which hands the
  submission queue over to the kernel.  The boolean tells whether the loop is left.
\<close>

definition main_round :: "os \<Rightarrow> sched \<Rightarrow> int \<Rightarrow> int \<Rightarrow> (u64 \<times> int) list \<Rightarrow> (bool \<times> sched) res" where
  "main_round os s submitted ret cqes =
     assert_res (submitted \<ge> 0) (bind_res (io_tick os (s\<lparr>sq := []\<rparr>) ret cqes) (\<lambda>(consumed, s).
       assert_res (consumed \<ge> 0)
         (Inr (jobs_finished s \<and> \<not> job_running (tj_inner (tracing s)), s))))"

end
