(* ===== verification/Sched_Addr.thy ===== *)
theory Sched_Addr
  imports Handlers
begin

text \<open>
  Addresses of operations: those in \<open>thread_ctx\<close> are apart from each other and from the heap,
  and the address survives the trip through \<open>user_data\<close>.
\<close>

section \<open>Operations in \<open>thread_ctx\<close>\<close>

text \<open>A process image lies in the lower 47 bits of the address space.\<close>

definition ctx_ok :: "u64 \<Rightarrow> bool" where
  "ctx_ok base \<longleftrightarrow> base \<noteq> 0 \<and> unat base + 376 < 2 ^ 48"

lemma static_ops_all [simp]: "x \<in> set static_ops"
  by (cases x) (simp_all add: static_ops_def)

lemma static_offset_bound: "unat (static_offset x) \<le> 320"
  by (cases x) simp_all

lemma static_offset_inj: "static_offset x = static_offset y \<Longrightarrow> x = y"
  by (cases x; cases y) simp_all

lemma static_at_inj [simp]: "static_at s x = static_at s y \<longleftrightarrow> x = y"
  by (auto simp: static_at_def dest: static_offset_inj)

lemma static_at_bound:
  assumes "ctx_ok (ctx_base s)"
  shows "static_at s x \<noteq> 0" "unat (static_at s x) < 2 ^ 48"
proof -
  have "unat (static_at s x) = unat (ctx_base s) + unat (static_offset x)"
    using assms static_offset_bound [of x] by (simp add: static_at_def ctx_ok_def unat_simps)
  then show "static_at s x \<noteq> 0" "unat (static_at s x) < 2 ^ 48"
    using assms static_offset_bound [of x] unat_gt_0 [of "ctx_base s"] by (auto simp: ctx_ok_def)
qed

lemma static_of_eq: "static_of s a = Some x \<longleftrightarrow> static_at s x = a"
proof
  assume "static_of s a = Some x"
  then show "static_at s x = a" unfolding static_of_def by (auto simp: find_Some_iff)
next
  assume a: "static_at s x = a"
  then have "static_of s a \<noteq> None" by (auto simp: static_of_def find_None_iff)
  then obtain y where y: "static_of s a = Some y" by blast
  then have "static_at s y = a" unfolding static_of_def by (auto simp: find_Some_iff)
  with a have "y = x" by (metis static_at_inj)
  with y show "static_of s a = Some x" by simp
qed

lemma static_of_at [simp]: "static_of s (static_at s x) = Some x"
  by (simp add: static_of_eq)

lemma static_of_None: "static_of s a = None \<longleftrightarrow> (\<forall>x. static_at s x \<noteq> a)"
  by (auto simp: static_of_eq not_Some_eq [symmetric])

text \<open>Both depend on the base address only.\<close>

lemma static_at_cong: "ctx_base s = ctx_base t \<Longrightarrow> static_at s = static_at t"
  by (rule ext) (simp add: static_at_def)

lemma static_of_cong: "ctx_base s = ctx_base t \<Longrightarrow> static_of s = static_of t"
  by (rule ext) (simp add: static_of_def static_at_def)

section \<open>The round trip of \<open>user_data\<close>\<close>

definition user_data :: "u64 \<Rightarrow> u16 \<Rightarrow> u64" where
  "user_data op op_flags = (op AND (push_bit (64 - 16) 1 - 1)) OR push_bit (64 - 16) (ucast op_flags)"

lemma user_data_addr:
  assumes "unat op < 2 ^ 48"
  shows "user_data op 0 = op"
proof -
  have "(push_bit (64 - 16) 1 - 1 :: u64) = mask 48" by (simp add: mask_eq_exp_minus_1 push_bit_eq_mult)
  moreover have "op AND mask 48 = op"
    using assms by (intro word_unat_eq_iff [THEN iffD2])
      (simp add: take_bit_eq_mask [symmetric] unsigned_take_bit_eq take_bit_nat_eq_self)
  ultimately show ?thesis by (simp add: user_data_def)
qed

lemma user_data_flags:
  fixes op :: u64
  assumes "unat op < 2 ^ 48"
  shows "ucast (drop_bit (64 - 16) op) = (0 :: u16)"
proof -
  have "drop_bit 48 op = 0"
    using assms by (intro word_unat_eq_iff [THEN iffD2]) (simp add: drop_bit_eq_div unat_div)
  then show ?thesis by simp
qed

section \<open>\<open>io_prepare_sqe\<close> and the requests\<close>

lemma static_frame [simp]:
  "sq (set_static_callback s x c) = sq s" "calls (set_static_callback s x c) = calls s"
  "ctx_base (set_static_callback s x c) = ctx_base s" "op_heap (set_static_callback s x c) = op_heap s"
  "page_id_check_order (set_static_callback s x c) = page_id_check_order s" "bg (set_static_callback s x c) = bg s"
  by (cases x; simp)+

definition enqueue :: "sched \<Rightarrow> u64 \<Rightarrow> request \<Rightarrow> sched" where
  "enqueue s a r = s\<lparr>sq := sq s @ [\<lparr>sqe_user_data = a, sqe_req = r\<rparr>],
     calls := (calls s)\<lparr>sqes := sqes (calls s) + 1\<rparr>\<rparr>"

lemma enqueue_frame [simp]:
  "writer (enqueue s a r) = writer s" "reader (enqueue s a r) = reader s" "flusher (enqueue s a r) = flusher s"
  "status (enqueue s a r) = status s" "tracing (enqueue s a r) = tracing s" "ctx_base (enqueue s a r) = ctx_base s"
  "bg (enqueue s a r) = bg s" "op_heap (enqueue s a r) = op_heap s" "page_id_check_order (enqueue s a r) = page_id_check_order s"
  by (simp_all add: enqueue_def)

lemma static_of_upd [simp]:
  "static_of (s\<lparr>calls := k\<rparr>) = static_of s" "static_of (s\<lparr>op_heap := h\<rparr>) = static_of s" "static_of (s\<lparr>sq := q\<rparr>) = static_of s"
  "static_of (s\<lparr>flusher := f\<rparr>) = static_of s" "static_of (s\<lparr>tracing := tr\<rparr>) = static_of s" "static_of (s\<lparr>writer := w\<rparr>) = static_of s"
  "static_of (s\<lparr>reader := r\<rparr>) = static_of s" "static_of (s\<lparr>status := st\<rparr>) = static_of s" "static_of (s\<lparr>bg := b\<rparr>) = static_of s"
  by (rule static_of_cong; simp)+

lemma static_at_upd [simp]:
  "static_at (s\<lparr>calls := k\<rparr>) = static_at s" "static_at (s\<lparr>op_heap := h\<rparr>) = static_at s" "static_at (s\<lparr>sq := q\<rparr>) = static_at s"
  "static_at (s\<lparr>flusher := f\<rparr>) = static_at s" "static_at (s\<lparr>tracing := tr\<rparr>) = static_at s" "static_at (s\<lparr>writer := w\<rparr>) = static_at s"
  "static_at (s\<lparr>reader := r\<rparr>) = static_at s" "static_at (s\<lparr>status := st\<rparr>) = static_at s" "static_at (s\<lparr>bg := b\<rparr>) = static_at s"
  "static_at (enqueue s a rq) = static_at s" "static_at (set_static_callback s x c) = static_at s"
  by (rule static_at_cong; simp add: enqueue_def)+

lemma prepare_eq:
  assumes "unat a < 2 ^ 48" "set_op_callback (s\<lparr>calls := (calls s)\<lparr>sqes := sqes (calls s) + 1\<rparr>\<rparr>) a c = Inr t"
    "os_get_sqe os (sqes (calls s))"
  shows "io_prepare_sqe os s a c = Inr (Some (length (sq t)), t\<lparr>sq := sq t @ [\<lparr>sqe_user_data = a, sqe_req = Unprepared\<rparr>]\<rparr>)"
    "prepare_request os s a c r = Inr (t\<lparr>sq := sq t @ [\<lparr>sqe_user_data = a, sqe_req = r\<rparr>]\<rparr>)"
proof -
  show p: "io_prepare_sqe os s a c = Inr (Some (length (sq t)), t\<lparr>sq := sq t @ [\<lparr>sqe_user_data = a, sqe_req = Unprepared\<rparr>]\<rparr>)"
    using assms(2,3) user_data_addr [OF assms(1), unfolded user_data_def]
    by (simp add: io_prepare_sqe_def Let_def)
  show "prepare_request os s a c r = Inr (t\<lparr>sq := sq t @ [\<lparr>sqe_user_data = a, sqe_req = r\<rparr>]\<rparr>)"
    by (simp add: prepare_request_def p io_uring_prep_def)
qed

lemma set_static_eq:
  "set_op_callback (s\<lparr>calls := k\<rparr>) (static_at s x) c = Inr ((set_static_callback s x (Some c))\<lparr>calls := k\<rparr>)"
  by (cases x) (simp_all add: set_op_callback_def)

lemma prepare_static:
  assumes "ctx_ok (ctx_base s)"
  shows "prepare_request os s (static_at s x) c r =
     (if os_get_sqe os (sqes (calls s)) then Inr (enqueue (set_static_callback s x (Some c)) (static_at s x) r)
      else Inl AssertFail)"
  using prepare_eq(2) [OF static_at_bound(2) [OF assms] set_static_eq]
  by (simp add: enqueue_def prepare_request_def io_prepare_sqe_def Let_def)

lemma resend_static:
  assumes "ctx_ok (ctx_base s)" "job_callback (static_job s x) = Some c"
    "set_static_callback s x (Some c) = s"
  shows "resend_job os s x =
     (if os_get_sqe os (sqes (calls s))
      then Inr (False, enqueue s (static_at s x) (Prep_timeout (job_ts (static_job s x))))
      else Inr (True, s\<lparr>calls := (calls s)\<lparr>sqes := sqes (calls s) + 1\<rparr>\<rparr>))"
proof (cases "os_get_sqe os (sqes (calls s))")
  case True
  have "static_job (s\<lparr>calls := k, sq := q\<rparr>) x = static_job s x" for k q by (cases x) (simp_all add: static_job_def)
  then show ?thesis
    using True prepare_eq(1) [OF static_at_bound(2) [OF assms(1)] set_static_eq, where os = os] assms(2,3)
    by (simp add: resend_job_def enqueue_def io_uring_prep_def)
next
  case False
  then show ?thesis using assms(2) by (simp add: resend_job_def io_prepare_sqe_def Let_def)
qed

lemma prepare_write:
  assumes "unat a < 2 ^ 48" "static_of s a = None" "op_heap s a = Some (Write_op w)"
  shows "prepare_request os s a c r =
     (if os_get_sqe os (sqes (calls s))
      then Inr (enqueue (s\<lparr>op_heap := (op_heap s)(a \<mapsto> Write_op (w\<lparr>pw_callback := Some c\<rparr>))\<rparr>) a r)
      else Inl AssertFail)"
  using prepare_eq(2) [OF assms(1), of s c _ os r] assms(2,3)
  by (simp add: set_op_callback_def enqueue_def prepare_request_def io_prepare_sqe_def Let_def)

lemma prepare_read:
  assumes "unat a < 2 ^ 48" "static_of s a = None" "op_heap s a = Some (Read_op w)"
  shows "prepare_request os s a c r =
     (if os_get_sqe os (sqes (calls s))
      then Inr (enqueue (s\<lparr>op_heap := (op_heap s)(a \<mapsto> Read_op (w\<lparr>pr_callback := Some c\<rparr>))\<rparr>) a r)
      else Inl AssertFail)"
  using prepare_eq(2) [OF assms(1), of s c _ os r] assms(2,3)
  by (simp add: set_op_callback_def enqueue_def prepare_request_def io_prepare_sqe_def Let_def)

end
