(* ===== verification/Sched_List.thy ===== *)
theory Sched_List
  imports Sched_Addr
begin

text \<open>
  The list of written pages as a linked list on the heap, and its two operations: the append of
  \<open>page_written\<close> and the walk of \<open>file_synced\<close>.
\<close>

fun wlist :: "op_heap \<Rightarrow> u64 \<Rightarrow> u64 list \<Rightarrow> bool" where
  "wlist h a [] \<longleftrightarrow> a = 0"
| "wlist h a (x # xs) \<longleftrightarrow> a = x \<and> x \<noteq> 0 \<and> (case h x of Some (Write_op w) \<Rightarrow> wlist h (pw_next w) xs | _ \<Rightarrow> False)"

definition write_at :: "op_heap \<Rightarrow> u64 \<Rightarrow> op_page_write option" where
  "write_at h a = (case h a of Some (Write_op w) \<Rightarrow> Some w | _ \<Rightarrow> None)"

lemma write_at_Some [simp]: "write_at h a = Some w \<longleftrightarrow> h a = Some (Write_op w)"
  by (auto simp: write_at_def split: option.splits op_object.splits)

lemma write_at_upd [simp]:
  "write_at (h(a \<mapsto> Write_op w)) a = Some w" "b \<noteq> a \<Longrightarrow> write_at (h(a := x)) b = write_at h b"
  by (auto simp: write_at_def)

lemma wlist_Cons [simp]:
  "wlist h a (x # xs) \<longleftrightarrow> a = x \<and> x \<noteq> 0 \<and> (\<exists>w. h x = Some (Write_op w) \<and> wlist h (pw_next w) xs)"
  by (auto split: option.splits op_object.splits)

declare wlist.simps(2) [simp del]

lemma wlist_null [simp]: "wlist h 0 xs \<longleftrightarrow> xs = []"
  by (cases xs) auto

lemma wlist_not_null: "wlist h a xs \<Longrightarrow> xs \<noteq> [] \<longleftrightarrow> a \<noteq> 0"
  by (cases xs) auto

lemma wlist_upd [simp]: "b \<notin> set xs \<Longrightarrow> wlist (h(b := y)) a xs = wlist h a xs"
  by (induction xs arbitrary: a) auto

lemma wlist_cong: "(\<And>b. b \<in> set xs \<Longrightarrow> g b = h b) \<Longrightarrow> wlist g a xs = wlist h a xs"
  by (induction xs arbitrary: a) auto

lemma wlist_write: "wlist h a xs \<Longrightarrow> x \<in> set xs \<Longrightarrow> \<exists>w. h x = Some (Write_op w)"
  by (induction xs arbitrary: a) auto

text \<open>Appending behind the last node.\<close>

lemma wlist_snoc:
  assumes "wlist h a xs" "xs \<noteq> []" "distinct xs" "h (last xs) = Some (Write_op w)"
    and "b \<notin> set xs" "b \<noteq> 0" "h b = Some (Write_op v)" "pw_next v = 0"
  shows "wlist (h(last xs \<mapsto> Write_op (w\<lparr>pw_next := b\<rparr>))) a (xs @ [b])"
  using assms
proof (induction xs arbitrary: a)
  case (Cons x xs)
  show ?case
  proof (cases "xs = []")
    case True
    with Cons.prems show ?thesis by auto
  next
    case False
    then have l: "last xs \<in> set xs" by simp
    with Cons.prems(3) have "x \<noteq> last xs" by auto
    moreover obtain u where u: "h x = Some (Write_op u)" "wlist h (pw_next u) xs" using Cons.prems(1) by auto
    moreover have "wlist (h(last xs \<mapsto> Write_op (w\<lparr>pw_next := b\<rparr>))) (pw_next u) (xs @ [b])"
      by (rule Cons.IH) (use u(2) Cons.prems False in simp_all)
    ultimately show ?thesis using Cons.prems(1) False by (simp del: fun_upd_apply add: fun_upd_other)
  qed
qed simp

text \<open>The walk calls the user callbacks in order and frees exactly the nodes of the list.\<close>

definition user_calls :: "op_heap \<Rightarrow> u64 list \<Rightarrow> u64 list" where
  "user_calls h xs = filter (\<lambda>f. f \<noteq> 0) (map (\<lambda>x. case write_at h x of Some w \<Rightarrow> pw_user_fsync_callback w | None \<Rightarrow> 0) xs)"

definition freed_list :: "sched \<Rightarrow> u64 list \<Rightarrow> sched" where
  "freed_list s xs = s\<lparr>op_heap := (\<lambda>a. if a \<in> set xs then None else op_heap s a),
     printed := (printed s)\<lparr>fsync_calls := fsync_calls (printed s) @ user_calls (op_heap s) xs\<rparr>\<rparr>"

lemma freed_heap: "op_heap (freed_list s xs) = (\<lambda>a. if a \<in> set xs then None else op_heap s a)"
  by (simp add: freed_list_def)

lemma freed_static [simp]:
  "static_of (freed_list s xs) = static_of s" "static_at (freed_list s xs) = static_at s"
  by (rule static_of_cong static_at_cong, simp add: freed_list_def)+

lemma free_written_eq:
  "wlist (op_heap s) a xs \<Longrightarrow> distinct xs \<Longrightarrow> free_written s a = Some (Inr (freed_list s xs))"
proof (induction xs arbitrary: s a)
  case Nil
  then show ?case by (simp add: free_written.simps freed_list_def user_calls_def)
next
  case (Cons x xs)
  obtain w where w: "op_heap s x = Some (Write_op w)" "wlist (op_heap s) (pw_next w) xs" "a = x" "x \<noteq> 0"
    using Cons.prems(1) by auto
  define t where "t = (if pw_user_fsync_callback w \<noteq> 0
      then s\<lparr>printed := (printed s)\<lparr>fsync_calls := fsync_calls (printed s) @ [pw_user_fsync_callback w]\<rparr>\<rparr> else s)"
  have t: "op_heap t = op_heap s" by (simp add: t_def)
  let ?u = "t\<lparr>op_heap := (op_heap t)(x := None)\<rparr>"
  have "free_written s a = free_written ?u (pw_next w)"
    using w by (subst free_written.simps) (simp add: t_def Let_def)
  also have "\<dots> = Some (Inr (freed_list ?u xs))"
    by (rule Cons.IH) (use Cons.prems(2) w(2) t in \<open>simp_all del: fun_upd_apply\<close>)
  also have "freed_list ?u xs = freed_list s (x # xs)"
  proof -
    have c: "user_calls ((op_heap s)(x := None)) xs = user_calls (op_heap s) xs"
      using Cons.prems(2) unfolding user_calls_def
      by (intro arg_cong [where f = "filter _"] map_cong) (auto simp: write_at_def)
    have d: "user_calls (op_heap s) (x # xs) =
        (if pw_user_fsync_callback w \<noteq> 0 then [pw_user_fsync_callback w] else []) @ user_calls (op_heap s) xs"
      using w(1) [folded write_at_Some] by (simp add: user_calls_def del: write_at_Some)
    have h: "(\<lambda>b. if b \<in> set xs then None else ((op_heap s)(x := None)) b) =
        (\<lambda>b. if b \<in> set (x # xs) then None else op_heap s b)"
      by (rule ext) auto
    have hu: "op_heap ?u = (op_heap s)(x := None)" by (simp add: t)
    show ?thesis unfolding freed_list_def hu c d h by (simp add: t_def)
  qed
  finally show ?case .
qed

section \<open>The list as a queue of pages\<close>

text \<open>The pages of the list are those from \<open>lo\<close> on and below \<open>hi\<close>, in order.\<close>

definition written_pages :: "op_heap \<Rightarrow> u64 list \<Rightarrow> u32 option list" where
  "written_pages h L = map (\<lambda>a. map_option pw_page_id (write_at h a)) L"

definition list_ok :: "op_heap \<Rightarrow> page_write_node \<Rightarrow> nat \<Rightarrow> nat \<Rightarrow> u64 list \<Rightarrow> bool" where
  "list_ok h n lo hi L \<longleftrightarrow> wlist h (wl_tail n) L \<and> (L \<noteq> [] \<longrightarrow> wl_head n = last L) \<and> user_calls h L = [] \<and>
     written_pages h L = map (\<lambda>i. Some (of_nat i)) [lo..<hi]"

lemma list_ok_nil: "list_ok h n lo hi [] \<longleftrightarrow> wl_tail n = 0 \<and> hi \<le> lo"
  by (auto simp: list_ok_def written_pages_def user_calls_def)

lemma list_ok_cong: "(\<And>b. b \<in> set L \<Longrightarrow> g b = h b) \<Longrightarrow> list_ok g n lo hi L = list_ok h n lo hi L"
proof -
  assume g: "\<And>b. b \<in> set L \<Longrightarrow> g b = h b"
  then have "write_at g b = write_at h b" if "b \<in> set L" for b using that by (simp add: write_at_def)
  then have "user_calls g L = user_calls h L" "written_pages g L = written_pages h L"
    unfolding user_calls_def written_pages_def by (simp_all cong: map_cong)
  then show ?thesis using wlist_cong [OF g] by (simp add: list_ok_def)
qed

lemma append_run:
  assumes "list_ok (op_heap s) (fj_write_list (flusher s)) lo hi L" "distinct L" "b \<notin> set L" "b \<noteq> 0"
    and "op_heap s b = Some (Write_op v)" "pw_next v = 0" "pw_user_fsync_callback v = 0"
    and "unat (pw_page_id v) = hi" "lo \<le> hi"
  shows "\<exists>h t. write_list_append s b = Inr (s\<lparr>op_heap := h, flusher := (flusher s)\<lparr>fj_write_list := \<lparr>wl_tail = t, wl_head = b\<rparr>\<rparr>\<rparr>) \<and>
    list_ok h \<lparr>wl_tail = t, wl_head = b\<rparr> lo (Suc hi) (L @ [b]) \<and>
    (\<forall>x. x \<notin> set L \<longrightarrow> h x = op_heap s x) \<and> (\<forall>x. h x = None \<longleftrightarrow> op_heap s x = None)"
proof (cases "L = []")
  case True
  then have "wl_tail (fj_write_list (flusher s)) = 0" "hi \<le> lo" using assms(1) by (simp_all add: list_ok_nil)
  moreover from this assms(9) have "hi = lo" by simp
  moreover have "write_at (op_heap s) b = Some v" using assms(5) by simp
  ultimately show ?thesis
    using True assms(4-8) unfolding list_ok_def
    by (intro exI [of _ "op_heap s"] exI [of _ b])
      (auto simp: write_list_append_def Let_def written_pages_def user_calls_def simp del: write_at_Some)
next
  case False
  let ?n = "fj_write_list (flusher s)"
  note l = assms(1) [unfolded list_ok_def]
  have in_L: "last L \<in> set L" using False by simp
  then obtain w where w: "op_heap s (last L) = Some (Write_op w)" using wlist_write l by blast
  define h where "h = (op_heap s)(last L \<mapsto> Write_op (w\<lparr>pw_next := b\<rparr>))"
  have nz: "wl_tail ?n \<noteq> 0" using wlist_not_null l False by blast
  have run: "write_list_append s b = Inr (s\<lparr>op_heap := h, flusher := (flusher s)\<lparr>fj_write_list :=
      \<lparr>wl_tail = wl_tail ?n, wl_head = b\<rparr>\<rparr>\<rparr>)"
    using nz l False w by (simp add: write_list_append_def Let_def h_def)
  have wl: "wlist h (wl_tail ?n) (L @ [b])"
    unfolding h_def using l False assms(2-6) w by (intro wlist_snoc) auto
  have at: "map_option pw_page_id (write_at h x) = map_option pw_page_id (write_at (op_heap s) x)"
    "(case write_at h x of Some w \<Rightarrow> pw_user_fsync_callback w | None \<Rightarrow> 0) =
     (case write_at (op_heap s) x of Some w \<Rightarrow> pw_user_fsync_callback w | None \<Rightarrow> 0)" for x
    using w by (cases "x = last L"; simp add: h_def write_at_def)+
  have "write_at (op_heap s) b = Some v" using assms(5) by simp
  then have "written_pages h (L @ [b]) = written_pages (op_heap s) L @ [Some (pw_page_id v)]"
    "user_calls h (L @ [b]) = user_calls (op_heap s) L"
    using assms(7) unfolding written_pages_def user_calls_def by (simp_all add: at del: write_at_Some)
  moreover have "pw_page_id v = of_nat hi" by (simp flip: assms(8))
  ultimately have "list_ok h \<lparr>wl_tail = wl_tail ?n, wl_head = b\<rparr> lo (Suc hi) (L @ [b])"
    using l wl assms(9) by (simp add: list_ok_def)
  moreover have "h x = op_heap s x" if "x \<notin> set L" for x using that in_L by (auto simp: h_def)
  moreover have "h x = None \<longleftrightarrow> op_heap s x = None" for x using w by (simp add: h_def)
  ultimately show ?thesis using run by blast
qed

end
