(* ===== verification/Sched_Inv.thy ===== *)
theory Sched_Inv
  imports Sched_List
begin

text \<open>
  The invariant of the scheduler between completions, and that every handler keeps it.
  \<open>A\<close> are the addresses of the operations in flight in the kernel, \<open>L\<close> the written pages
  that wait for the next \<open>fsync\<close>.
\<close>

section \<open>The parts of the invariant\<close>

text \<open>What the program relies on from \<open>malloc\<close>: unused memory in the user half of the address
  space, apart from the program's own data.\<close>

definition malloc_ok :: "os \<Rightarrow> u64 \<Rightarrow> bool" where
  "malloc_ok os base \<longleftrightarrow> (\<forall>n h. let a = os_malloc os n h in
     a \<noteq> 0 \<longrightarrow> h a = None \<and> unat a < 2 ^ 48 \<and> (\<forall>x. base + static_offset x \<noteq> a))"

definition heap_ok :: "sched \<Rightarrow> bool" where
  "heap_ok s \<longleftrightarrow> (\<forall>a. op_heap s a \<noteq> None \<longrightarrow> a \<noteq> 0 \<and> unat a < 2 ^ 48 \<and> static_of s a = None)"

definition jobs_ready :: "sched \<Rightarrow> bool" where
  "jobs_ready s \<longleftrightarrow> static_callback s Op_writer = Some Background_writer \<and>
     static_callback s Op_reader = Some Background_reader \<and> static_callback s Op_status = Some Background_status \<and>
     static_callback s Op_tracing = Some Background_tracing \<and> static_callback s Op_flusher = Some Background_flusher"

definition stats_ready :: "background_stats \<Rightarrow> bool" where
  "stats_ready b \<longleftrightarrow> stats_ok (write_count_stats b) \<and> stats_ok (read_count_stats b) \<and> stats_ok (write_latency_stats b) \<and>
     stats_ok (read_latency_stats b) \<and> stats_ok (fsync_latency_stats b) \<and> stats_ok (fsync_count_stats b)"

text \<open>
  \<open>hung\<close>: the tracing job counts as running, but has no dump in flight.  The parameter \<open>g\<close> of
  the invariant restricts it to states in which, moreover, no tick of that job is in flight.
\<close>

definition hung :: "sched \<Rightarrow> bool" where [simp]:
  "hung s \<longleftrightarrow> job_running (tj_inner (tracing s)) \<and> td_inflight (tj_dump_op (tracing s)) = 0"

fun static_ready :: "bool \<Rightarrow> sched \<Rightarrow> static_op \<Rightarrow> bool" where
  "static_ready g s Op_writer \<longleftrightarrow> below_limit (wj_page_id (writer s))"
| "static_ready g s Op_fsync \<longleftrightarrow> fj_inflight (flusher s) \<noteq> 0 \<and> static_callback s Op_fsync = Some File_synced"
| "static_ready g s Op_dump \<longleftrightarrow> td_inflight (tj_dump_op (tracing s)) \<noteq> 0 \<and>
     (static_callback s Op_dump = Some Tracing_writed \<or> static_callback s Op_dump = Some Tracing_synced)"
| "static_ready g s Op_tracing \<longleftrightarrow> \<not> g"
| "static_ready g s _ \<longleftrightarrow> True"

text \<open>Page operations in flight: writes of pages below \<open>hi\<close>, and reads.\<close>

fun object_ready :: "nat \<Rightarrow> op_object option \<Rightarrow> bool" where
  "object_ready hi (Some (Write_op w)) \<longleftrightarrow> pw_callback w = Some Page_written \<and> pw_next w = 0 \<and>
     pw_user_fsync_callback w = 0 \<and> unat (pw_page_id w) < hi"
| "object_ready hi (Some (Read_op r)) \<longleftrightarrow> pr_callback r = Some Page_read \<and> pr_buf r = Read_buf"
| "object_ready hi None \<longleftrightarrow> False"

definition op_ready :: "bool \<Rightarrow> nat \<Rightarrow> sched \<Rightarrow> u64 \<Rightarrow> bool" where
  "op_ready g hi s a \<longleftrightarrow> (case static_of s a of Some x \<Rightarrow> static_ready g s x | None \<Rightarrow> object_ready hi (op_heap s a))"

definition pending :: "sched \<Rightarrow> u64 list \<Rightarrow> u64 list" where
  "pending s A = A @ map sqe_user_data (sq s)"

definition counters_ok :: "sched \<Rightarrow> nat \<Rightarrow> bool" where
  "counters_ok s hi \<longleftrightarrow>
     unat (rj_page_id (reader s)) \<le> unat (fj_page_id (flusher s)) \<and>
     unat (fj_page_id (flusher s)) + unat (wj_written_no_flush (writer s)) = unat (page_id_check_order s) \<and>
     unat (page_id_check_order s) \<le> unat (wj_page_id (writer s)) \<and>
     unat (wj_page_id (writer s)) \<le> hi \<and> hi \<le> 49150 \<and> unat (wj_batch_size (writer s)) \<le> 16382 \<and>
     wj_inflight (writer s) = of_nat (unat (wj_page_id (writer s)) - unat (page_id_check_order s))"

definition sched_inv :: "bool \<Rightarrow> os \<Rightarrow> nat \<Rightarrow> sched \<Rightarrow> u64 list \<Rightarrow> u64 list \<Rightarrow> bool" where
  "sched_inv g os hi s A L \<longleftrightarrow> (g \<longrightarrow> hung s) \<and> ctx_ok (ctx_base s) \<and> malloc_ok os (ctx_base s) \<and> heap_ok s \<and> jobs_ready s \<and>
     stats_ready (bg s) \<and> distinct (pending s A @ L) \<and> (\<forall>a\<in>set (pending s A). op_ready g hi s a) \<and>
     list_ok (op_heap s) (fj_write_list (flusher s)) (unat (fj_page_id (flusher s))) (unat (page_id_check_order s)) L \<and>
     counters_ok s hi"

definition at_rest :: "bool \<Rightarrow> os \<Rightarrow> sched \<Rightarrow> u64 list \<Rightarrow> bool" where
  "at_rest g os s A \<longleftrightarrow> (\<exists>L. sched_inv g os (unat (wj_page_id (writer s))) s A L)"

section \<open>Statistics never fail\<close>

lemma count_ready:
  assumes "stats_ready b"
  shows "safe (count_write b us) stats_ready" "safe (count_read b us) stats_ready" "safe (count_fsync b us) stats_ready"
proof -
  have run: "\<exists>c. stats_bucket_add d v = Inr c \<and> stats_ok c" if "stats_ok d" for d v
    using add_simulates [OF that] by blast
  obtain wc rc fc where one: "stats_bucket_add (write_count_stats b) 1 = Inr wc" "stats_ok wc"
      "stats_bucket_add (read_count_stats b) 1 = Inr rc" "stats_ok rc"
      "stats_bucket_add (fsync_count_stats b) 1 = Inr fc" "stats_ok fc"
    using assms run unfolding stats_ready_def by meson
  obtain wl rl fl where us: "stats_bucket_add (write_latency_stats b) us = Inr wl" "stats_ok wl"
      "stats_bucket_add (read_latency_stats b) us = Inr rl" "stats_ok rl"
      "stats_bucket_add (fsync_latency_stats b) us = Inr fl" "stats_ok fl"
    using assms run unfolding stats_ready_def by meson
  show "safe (count_write b us) stats_ready" "safe (count_read b us) stats_ready" "safe (count_fsync b us) stats_ready"
    using assms one us
    by (simp_all add: count_write_def count_read_def count_fsync_def stats_bucket_add_one_def stats_ready_def)
qed

lemma move_ready: "stats_ready b \<Longrightarrow> safe (move_all b e) stats_ready"
  by (simp add: move_all_def stats_ready_def stats_move_run(1,2))

section \<open>Changes that do not matter\<close>

lemma static_callback_cong:
  "writer s = writer t \<Longrightarrow> reader s = reader t \<Longrightarrow> status s = status t \<Longrightarrow> tracing s = tracing t \<Longrightarrow> flusher s = flusher t \<Longrightarrow>
     static_callback s x = static_callback t x"
  by (cases x) simp_all

lemma static_ready_cong:
  "writer s = writer t \<Longrightarrow> tracing s = tracing t \<Longrightarrow> flusher s = flusher t \<Longrightarrow> static_ready g s x = static_ready g t x"
  by (cases x) simp_all

lemma inv_frame [simp]:
  "sched_inv g os hi (s\<lparr>calls := k\<rparr>) A L = sched_inv g os hi s A L"
  "sched_inv g os hi (s\<lparr>printed := p\<rparr>) A L = sched_inv g os hi s A L"
  "sched_inv g os hi (s\<lparr>read_mem := m\<rparr>) A L = sched_inv g os hi s A L"
proof -
  have eq: "sched_inv g os hi t A L = sched_inv g os hi s A L"
    if "writer t = writer s" "reader t = reader s" "status t = status s" "tracing t = tracing s" "flusher t = flusher s"
      "page_id_check_order t = page_id_check_order s" "bg t = bg s" "op_heap t = op_heap s" "sq t = sq s"
      "ctx_base t = ctx_base s" for t
    using that static_of_cong [of t s] static_callback_cong [of t s] static_ready_cong [of t s]
    by (simp add: sched_inv_def heap_ok_def jobs_ready_def pending_def op_ready_def counters_ok_def cong: option.case_cong)
  show "sched_inv g os hi (s\<lparr>calls := k\<rparr>) A L = sched_inv g os hi s A L"
    "sched_inv g os hi (s\<lparr>printed := p\<rparr>) A L = sched_inv g os hi s A L"
    "sched_inv g os hi (s\<lparr>read_mem := m\<rparr>) A L = sched_inv g os hi s A L"
    by (rule eq; simp)+
qed

lemma inv_stats: "sched_inv g os hi s A L \<Longrightarrow> stats_ready b \<Longrightarrow> sched_inv g os hi (s\<lparr>bg := b\<rparr>) A L"
proof -
  have "static_of (s\<lparr>bg := b\<rparr>) = static_of s" by (rule static_of_cong) simp
  moreover have "static_ready g (s\<lparr>bg := b\<rparr>) x = static_ready g s x" for x by (rule static_ready_cong) simp_all
  moreover assume "sched_inv g os hi s A L" "stats_ready b"
  ultimately show ?thesis
    by (simp add: sched_inv_def heap_ok_def jobs_ready_def pending_def op_ready_def counters_ok_def cong: option.case_cong)
qed

lemma clock_safe:
  "(\<And>t k. safe (f (t, s\<lparr>calls := k\<rparr>)) Q) \<Longrightarrow> safe (bind_res (clock_gettime os s) f) Q"
  by (simp add: clock_gettime_def Let_def split: option.splits)

lemma inv_drop: "sched_inv g os hi s (a # A) L \<Longrightarrow> sched_inv g os hi s A L"
  by (simp add: sched_inv_def pending_def)

text \<open>The operation that completed is sent again.\<close>

lemma inv_enqueue:
  assumes "sched_inv g os hi s (a # A) L"
  shows "sched_inv g os hi (enqueue s a r) A L"
proof -
  have "sched_inv g os hi (s\<lparr>sq := sq s @ [\<lparr>sqe_user_data = a, sqe_req = r\<rparr>]\<rparr>) A L"
  proof -
    let ?t = "s\<lparr>sq := sq s @ [\<lparr>sqe_user_data = a, sqe_req = r\<rparr>]\<rparr>"
    have "static_of ?t = static_of s" by (rule static_of_cong) simp
    moreover have "static_ready g ?t x = static_ready g s x" for x by (rule static_ready_cong) simp_all
    ultimately show ?thesis
      using assms by (simp add: sched_inv_def heap_ok_def jobs_ready_def pending_def op_ready_def counters_ok_def
          cong: option.case_cong)
  qed
  then show ?thesis using inv_frame(1) by (simp add: enqueue_def)
qed

lemma inv_hi: "sched_inv g os hi s A L \<Longrightarrow> hi \<le> hi' \<Longrightarrow> hi' \<le> 49150 \<Longrightarrow> sched_inv g os hi' s A L"
proof -
  assume a: "sched_inv g os hi s A L" "hi \<le> hi'" "hi' \<le> 49150"
  have "object_ready hi' x" if "object_ready hi x" for x
    using that a(2) by (cases "(hi, x)" rule: object_ready.cases) auto
  then have "op_ready g hi' s b" if "op_ready g hi s b" for b
    using that by (simp add: op_ready_def split: option.splits)
  then show "sched_inv g os hi' s A L" using a by (auto simp: sched_inv_def counters_ok_def)
qed

section \<open>Completed requests\<close>

lemma inv_parts:
  assumes "sched_inv g os hi s A L"
  shows "ctx_ok (ctx_base s)" "malloc_ok os (ctx_base s)" "heap_ok s" "jobs_ready s" "stats_ready (bg s)"
    "distinct (pending s A @ L)" "\<And>a. a \<in> set (pending s A) \<Longrightarrow> op_ready g hi s a"
    "list_ok (op_heap s) (fj_write_list (flusher s)) (unat (fj_page_id (flusher s))) (unat (page_id_check_order s)) L"
    "counters_ok s hi" "g \<Longrightarrow> hung s"
  using assms by (simp_all add: sched_inv_def)

text \<open>The written pages are on the heap.\<close>

lemma inv_list_heap:
  assumes "sched_inv g os hi s A L" "a \<in> set L"
  shows "static_of s a = None" "a \<noteq> 0"
proof -
  have "op_heap s a \<noteq> None" using wlist_write [of "op_heap s" _ L a] inv_parts(8) [OF assms(1)] assms(2)
    by (auto simp: list_ok_def)
  then show "static_of s a = None" "a \<noteq> 0" using inv_parts(3) [OF assms(1)] by (auto simp: heap_ok_def)
qed

lemma op_ready_write:
  assumes "op_ready g hi s a" "static_of s a = None" "op_heap s a = Some (Write_op w)"
  shows "pw_callback w = Some Page_written" "pw_next w = 0" "pw_user_fsync_callback w = 0" "unat (pw_page_id w) < hi"
  using assms by (simp_all add: op_ready_def)

lemma page_written_inv:
  assumes inv: "sched_inv g os (unat (wj_page_id (writer s))) s (a # A) L" and w: "op_heap s a = Some (Write_op w)"
  shows "safe (page_written os s a) (\<lambda>t. sched_inv g os (unat (wj_page_id (writer t))) t A (L @ [a]))"
proof -
  note p = inv_parts [OF inv]
  let ?lo = "unat (fj_page_id (flusher s))" and ?c = "unat (page_id_check_order s)"
  let ?page = "wj_page_id (writer s)"
  have a: "static_of s a = None" "a \<noteq> 0" using p(3) w by (auto simp: heap_ok_def)
  have rdy: "op_ready g (unat ?page) s a" using p(7) [of a] by (simp add: pending_def)
  note v = op_ready_write [OF rdy a(1) w]
  note c = p(9) [unfolded counters_ok_def]
  have notin: "a \<notin> set L" "distinct L" "a \<notin> set (pending s A)" using p(6) by (auto simp: pending_def)
  show ?thesis
  proof (cases "pw_page_id w = page_id_check_order s")
    case False
    then show ?thesis using w by (simp add: page_written_def)
  next
    case True
    have lt: "?c < unat ?page" using v(4) True by simp
    have c1: "unat (page_id_check_order s + 1) = Suc ?c" using lt c by (simp add: unat_simps)
    have n1: "unat (wj_written_no_flush (writer s) + 1) = Suc (unat (wj_written_no_flush (writer s)))"
      using lt c by (simp add: unat_simps)
    have infl: "wj_inflight (writer s) - 1 = of_nat (unat ?page - Suc ?c)"
      using lt c by (simp add: of_nat_diff)
    have tail: "safe (bind_res (write_list_append (s\<lparr>page_id_check_order := page_id_check_order s + 1, calls := k\<rparr>) a) (\<lambda>s.
         let s = s\<lparr>writer := (writer s)\<lparr>wj_written_no_flush := wj_written_no_flush (writer s) + 1,
                                         wj_inflight := wj_inflight (writer s) - 1\<rparr>\<rparr>
         in bind_res (count_write (bg s) us) (\<lambda>b. Inr (s\<lparr>bg := b\<rparr>))))
       (\<lambda>t. sched_inv g os (unat (wj_page_id (writer t))) t A (L @ [a]))" for k us
    proof -
      let ?s = "s\<lparr>page_id_check_order := page_id_check_order s + 1, calls := k\<rparr>"
      obtain h tl where run: "write_list_append ?s a = Inr (?s\<lparr>op_heap := h,
            flusher := (flusher s)\<lparr>fj_write_list := \<lparr>wl_tail = tl, wl_head = a\<rparr>\<rparr>\<rparr>)"
          and l: "list_ok h \<lparr>wl_tail = tl, wl_head = a\<rparr> ?lo (Suc ?c) (L @ [a])"
          and h: "\<forall>x. x \<notin> set L \<longrightarrow> h x = op_heap s x" "\<forall>x. h x = None \<longleftrightarrow> op_heap s x = None"
        using append_run [of ?s ?lo ?c L a w] p(8) notin w v(2,3) a(2) True c by auto
      define t where "t = ?s\<lparr>op_heap := h, flusher := (flusher s)\<lparr>fj_write_list := \<lparr>wl_tail = tl, wl_head = a\<rparr>\<rparr>,
          writer := (writer s)\<lparr>wj_written_no_flush := wj_written_no_flush (writer s) + 1, wj_inflight := wj_inflight (writer s) - 1\<rparr>\<rparr>"
      have st: "static_of t = static_of s" by (rule static_of_cong) (simp add: t_def)
      have rd: "static_ready g t x = static_ready g s x" for x by (cases x) (simp_all add: t_def)
      have cb: "static_callback t x = static_callback s x" for x by (cases x) (simp_all add: t_def)
      have ht: "op_heap t = h" by (simp add: t_def)
      have "op_ready g (unat ?page) t b" if "b \<in> set (pending s A)" for b
      proof -
        have "b \<notin> set L" using that p(6) by (auto simp: pending_def)
        moreover have "op_ready g (unat ?page) s b" using p(7) [of b] that by (auto simp: pending_def)
        ultimately show ?thesis using h(1) by (simp add: op_ready_def st rd ht split: option.splits)
      qed
      moreover have "heap_ok t" using p(3) h(2) by (simp add: heap_ok_def st ht)
      moreover have "counters_ok t (unat ?page)"
        using c lt c1 n1 infl by (simp add: counters_ok_def t_def)
      moreover have "pending t A = pending s A" by (simp add: pending_def t_def)
      ultimately have "sched_inv g os (unat ?page) t A (L @ [a])"
        using p(1,2,4,5,6,10) l c1 notin
        by (simp add: sched_inv_def jobs_ready_def cb ht) (auto simp: t_def pending_def)
      from inv_stats [OF this] show ?thesis
        unfolding run using p(5)
        by (auto simp: Let_def t_def intro!: safe_bind [OF count_ready(1)])
    qed
    have "page_written os s a = bind_res (clock_gettime os (s\<lparr>page_id_check_order := page_id_check_order s + 1\<rparr>)) (\<lambda>(now, s).
           bind_res (write_list_append s a) (\<lambda>s.
             let s = s\<lparr>writer := (writer s)\<lparr>wj_written_no_flush := wj_written_no_flush (writer s) + 1,
                                             wj_inflight := wj_inflight (writer s) - 1\<rparr>\<rparr>
             in bind_res (count_write (bg s) (elapsed_us now (pw_issued w))) (\<lambda>b. Inr (s\<lparr>bg := b\<rparr>))))"
      using w True by (simp add: page_written_def Let_def)
    then show ?thesis using tail by (simp only:) (rule clock_safe, simp)
  qed
qed

end
