(* ===== verification/Sched_Jobs.thy ===== *)
theory Sched_Jobs
  imports Sched_Inv
begin

text \<open>Every handler keeps the invariant of the scheduler or stops in an assertion.\<close>

section \<open>Changes of the members of \<open>thread_ctx\<close>\<close>

lemma inv_update:
  assumes inv: "sched_inv g os hi s A L"
    and "ctx_base t = ctx_base s" "op_heap t = op_heap s" "sq t = sq s" "bg t = bg s" "jobs_ready t"
    and "fj_write_list (flusher t) = fj_write_list (flusher s)" "fj_page_id (flusher t) = fj_page_id (flusher s)"
    and "page_id_check_order t = page_id_check_order s" "counters_ok t hi"
    and hung: "g \<Longrightarrow> hung s \<Longrightarrow> hung t"
    and rdy: "\<And>x. static_at s x \<in> set (pending s A) \<Longrightarrow> static_ready g s x \<Longrightarrow> static_ready g t x"
  shows "sched_inv g os hi t A L"
proof -
  note p = inv_parts [OF inv]
  have st: "static_of t = static_of s" by (rule static_of_cong) fact
  have pd: "pending t A = pending s A" using assms(4) by (simp add: pending_def)
  have "op_ready g hi t b" if b: "b \<in> set (pending s A)" for b
  proof -
    have s: "op_ready g hi s b" using p(7) b by simp
    show ?thesis
    proof (cases "static_of s b")
      case None
      then show ?thesis using s assms(3) by (simp add: op_ready_def st)
    next
      case (Some x)
      then have "static_at s x = b" by (simp add: static_of_eq)
      with Some s b rdy [of x] show ?thesis by (simp add: op_ready_def st)
    qed
  qed
  then show ?thesis
    using p(1-3,5,6,8,10) hung assms(2-10) by (simp add: sched_inv_def heap_ok_def st pd)
qed

lemma inv_add:
  assumes inv: "sched_inv g os hi s A L" and "static_at s x \<notin> set (pending s A)" "static_ready g s x"
  shows "sched_inv g os hi s (static_at s x # A) L"
proof -
  have "static_at s x \<notin> set L" using inv_list_heap(1) [OF inv, of "static_at s x"] by auto
  moreover have "op_ready g hi s (static_at s x)" using assms(3) by (simp add: op_ready_def)
  ultimately show ?thesis using assms by (simp add: sched_inv_def pending_def)
qed

text \<open>An operation that is in flight is ready for its completion.\<close>

lemma inv_static_ready:
  assumes "sched_inv g os hi s A L" "static_at s x \<in> set (pending s A)"
  shows "static_ready g s x"
  using inv_parts(7) [OF assms] by (simp add: op_ready_def)

lemma head_pending [simp]: "a \<in> set (pending s (a # A))"
  by (simp add: pending_def)

lemma head_not_pending: "sched_inv g os hi s (a # A) L \<Longrightarrow> a \<notin> set (pending s A)"
  by (auto simp: sched_inv_def pending_def)

text \<open>Sending a job again.\<close>

lemma job_callback_ready:
  assumes "jobs_ready s" "x \<in> {Op_writer, Op_reader, Op_status, Op_tracing, Op_flusher}"
  obtains c where "job_callback (static_job s x) = Some c" "set_static_callback s x (Some c) = s"
proof -
  have "\<exists>c. job_callback (static_job s x) = Some c \<and> set_static_callback s x (Some c) = s"
    using assms by (auto simp: jobs_ready_def static_job_def)
  with that show ?thesis by blast
qed

lemma resend_inv:
  assumes inv: "sched_inv g os hi s (static_at s x # A) L" and "x \<in> {Op_writer, Op_reader, Op_status, Op_tracing, Op_flusher}"
  shows "safe (resend os s x) (\<lambda>t. sched_inv g os hi t A L \<and> writer t = writer s)"
proof -
  obtain c where c: "job_callback (static_job s x) = Some c" "set_static_callback s x (Some c) = s"
    using job_callback_ready [OF inv_parts(4) [OF inv] assms(2)] .
  show ?thesis
    using inv_enqueue [OF inv] resend_static [OF inv_parts(1) [OF inv] c]
    by (simp add: resend_def enqueue_def)
qed

lemma stop_inv:
  assumes inv: "sched_inv g os hi s A L" and "x \<in> {Op_writer, Op_reader, Op_status, Op_tracing, Op_flusher}"
    and tr: "x = Op_tracing \<Longrightarrow> \<not> g"
  shows "sched_inv g os hi (stop_job s x) A L \<and> wj_page_id (writer (stop_job s x)) = wj_page_id (writer s)"
proof -
  have "static_callback (stop_job s x) y = static_callback s y" for y
    using assms(2) by (cases y) (auto simp: stop_job_def static_job_def job_set_stopped_def)
  then have "jobs_ready (stop_job s x)" using inv_parts(4) [OF inv] by (simp only: jobs_ready_def)
  moreover have "counters_ok (stop_job s x) hi"
    using inv_parts(9) [OF inv] assms(2) by (auto simp: counters_ok_def stop_job_def)
  ultimately have "sched_inv g os hi (stop_job s x) A L"
  proof (intro inv_update [OF inv])
    fix y assume "static_ready g s y"
    then show "static_ready g (stop_job s x) y"
      using assms(2) by (cases y) (auto simp: stop_job_def static_job_def job_set_stopped_def)
  qed (use assms(2) tr in \<open>auto simp: stop_job_def\<close>)
  then show ?thesis using assms(2) by (auto simp: stop_job_def)
qed

section \<open>Reads, \<open>fsync\<close>\<close>

lemma page_read_inv:
  assumes inv: "sched_inv g os hi s (a # A) L" and w: "op_heap s a = Some (Read_op r)"
  shows "safe (page_read os s a) (\<lambda>t. sched_inv g os hi t A L \<and> writer t = writer s)"
proof -
  note p = inv_parts [OF inv]
  have a: "static_of s a = None" using p(3) w by (auto simp: heap_ok_def)
  have rdy: "pr_buf r = Read_buf" using p(7) [of a] a w by (simp add: op_ready_def)
  have "a \<notin> set L" using p(6) by (auto simp: pending_def)
  let ?t = "\<lambda>k. s\<lparr>calls := k, reader := (reader s)\<lparr>rj_inflight := rj_inflight (reader s) - 1\<rparr>\<rparr>"
  let ?h = "(op_heap s)(a := None)"
  have t: "sched_inv g os hi (?t k) (a # A) L" for k
  proof (rule inv_update [OF inv])
    show "counters_ok (?t k) hi" using p(9) by (simp add: counters_ok_def)
    show "jobs_ready (?t k)" using p(4) by (simp add: jobs_ready_def)
    show "static_ready g s x \<Longrightarrow> static_ready g (?t k) x" for x by (cases x) simp_all
  qed simp_all
  have free: "sched_inv g os hi (u\<lparr>op_heap := (op_heap u)(a := None)\<rparr>) A L"
    if "sched_inv g os hi u (a # A) L" "static_of u a = None" for u
  proof -
    note q = inv_parts [OF that(1)]
    let ?u = "u\<lparr>op_heap := (op_heap u)(a := None)\<rparr>"
    have rd: "static_ready g ?u x = static_ready g u x" for x by (rule static_ready_cong) simp_all
    have cb: "static_callback ?u x = static_callback u x" for x by (rule static_callback_cong) simp_all
    have pd: "pending ?u A = pending u A" by (simp add: pending_def)
    have notin: "a \<notin> set L" "a \<notin> set (pending u A)" using q(6) by (auto simp: pending_def)
    have "op_ready g hi ?u b" if "b \<in> set (pending u A)" for b
      using q(7) [of b] that notin by (auto simp: op_ready_def rd pending_def split: option.splits)
    moreover have "list_ok (op_heap ?u) n lo hi' L = list_ok (op_heap u) n lo hi' L" for n lo hi'
      using notin by (intro list_ok_cong) auto
    ultimately show ?thesis
      using q by (auto simp: sched_inv_def heap_ok_def jobs_ready_def cb pd counters_ok_def) (auto simp: pending_def)
  qed
  show ?thesis
  proof -
    have "safe (bind_res (count_read (bg s) us) (\<lambda>b. free_op ((?t k)\<lparr>bg := b\<rparr>) a))
        (\<lambda>t. sched_inv g os hi t A L \<and> writer t = writer s)" for k us
    proof (rule safe_bind [OF count_ready(2)])
      show "stats_ready (bg s)" by (rule p(5))
      fix b assume "stats_ready b"
      then have "sched_inv g os hi ((?t k)\<lparr>bg := b\<rparr>) (a # A) L" using inv_stats [OF t] by blast
      moreover have "static_of ((?t k)\<lparr>bg := b\<rparr>) a = None" using a static_of_cong [of "(?t k)\<lparr>bg := b\<rparr>" s] by simp
      ultimately have "sched_inv g os hi (((?t k)\<lparr>bg := b\<rparr>)\<lparr>op_heap := ?h\<rparr>) A L" using free [of "(?t k)\<lparr>bg := b\<rparr>"] by simp
      then show "safe (free_op ((?t k)\<lparr>bg := b\<rparr>) a) (\<lambda>t. sched_inv g os hi t A L \<and> writer t = writer s)"
        using w by (simp add: free_op_def)
    qed
    then show ?thesis
      using w rdy unfolding page_read_def by (auto simp: buffer_bytes_def Let_def intro!: clock_safe)
  qed
qed

lemma file_synced_inv:
  assumes inv: "sched_inv g os hi s (static_at s Op_fsync # A) L"
  shows "safe (file_synced os s (static_at s Op_fsync)) (\<lambda>t. sched_inv g os hi t A [] \<and> wj_page_id (writer t) = wj_page_id (writer s) \<and>
      unat (fj_page_id (flusher t)) = unat (page_id_check_order s))"
proof -
  note p = inv_parts [OF inv]
  note c = p(9) [unfolded counters_ok_def]
  note l = p(8) [unfolded list_ok_def]
  have dL: "distinct L" and fsync: "static_at s Op_fsync \<notin> set (pending s A)"
    using p(6) head_not_pending [OF inv] by (simp_all add: pending_def)
  let ?pid = "fj_page_id (flusher s) + wj_written_no_flush (writer s)"
  have pid: "unat ?pid = unat (page_id_check_order s)"
    using c by (simp add: unat_simps)
  let ?u = "\<lambda>k. s\<lparr>calls := k, writer := (writer s)\<lparr>wj_written_no_flush := 0\<rparr>,
      flusher := (flusher s)\<lparr>fj_page_id := ?pid, fj_write_list := \<lparr>wl_tail = 0, wl_head = 0\<rparr>\<rparr>\<rparr>"
  have run: "free_written (?u k) (wl_tail (fj_write_list (flusher s))) = Some (Inr (freed_list (?u k) L))" for k
    using l dL by (intro free_written_eq) simp_all
  have safe_tail: "safe (bind_res (count_fsync (bg s) us)
        (\<lambda>b. Inr ((freed_list (?u k) L)\<lparr>flusher := (flusher (freed_list (?u k) L))\<lparr>fj_inflight := 0\<rparr>, bg := b\<rparr>)))
      (\<lambda>t. sched_inv g os hi t A [] \<and> wj_page_id (writer t) = wj_page_id (writer s) \<and>
      unat (fj_page_id (flusher t)) = unat (page_id_check_order s))" for k us
  proof (rule safe_bind [OF count_ready(3)])
    show "stats_ready (bg s)" by (rule p(5))
    fix b assume b: "stats_ready b"
    let ?v = "(freed_list (?u k) L)\<lparr>flusher := (flusher (freed_list (?u k) L))\<lparr>fj_inflight := 0\<rparr>\<rparr>"
    have st: "static_of ?v = static_of s" by (rule static_of_cong) (simp add: freed_list_def)
    have cb: "static_callback ?v x = static_callback s x" for x by (cases x) (simp_all add: freed_list_def)
    have rd: "static_ready g s x \<Longrightarrow> x \<noteq> Op_fsync \<Longrightarrow> static_ready g ?v x" for x by (cases x) (simp_all add: freed_list_def)
    have hu: "op_heap (?u k) = op_heap s" by simp
    have "op_heap ?v = op_heap (freed_list (?u k) L)" by simp
    then have hv: "op_heap ?v = (\<lambda>a. if a \<in> set L then None else op_heap s a)" unfolding freed_heap hu .
    have pd: "pending ?v A = pending s A" by (simp add: pending_def freed_list_def)
    have "op_ready g hi ?v x" if x: "x \<in> set (pending s A)" for x
    proof -
      have s: "op_ready g hi s x" using p(7) [of x] x by (auto simp: pending_def)
      have "x \<notin> set L" using p(6) x by (auto simp: pending_def)
      moreover have "static_of s x \<noteq> Some Op_fsync" using fsync x by (auto simp: static_of_eq)
      ultimately show ?thesis using s rd by (auto simp: op_ready_def st hv split: option.splits)
    qed
    moreover have "heap_ok ?v" using p(3) by (simp add: heap_ok_def st hv)
    moreover have "counters_ok ?v hi" using c pid by (simp add: counters_ok_def freed_list_def)
    moreover have "list_ok (op_heap ?v) (fj_write_list (flusher ?v)) (unat (fj_page_id (flusher ?v))) (unat (page_id_check_order ?v)) []"
      using pid by (simp add: list_ok_nil freed_list_def)
    ultimately have "sched_inv g os hi ?v A []"
      using p(1,2,4,5,6,10) by (simp add: sched_inv_def jobs_ready_def cb pd) (simp add: freed_list_def pending_def)
    from inv_stats [OF this b]
    show "safe (Inr (?v\<lparr>bg := b\<rparr>)) (\<lambda>t. sched_inv g os hi t A [] \<and> wj_page_id (writer t) = wj_page_id (writer s) \<and>
      unat (fj_page_id (flusher t)) = unat (page_id_check_order s))"
      using pid by (simp add: freed_list_def)
  qed
  have bgf: "bg (freed_list (?u k) L) = bg s" for k by (simp add: freed_list_def)
  show ?thesis
    unfolding file_synced_def
    by (auto simp: Let_def run bgf intro!: clock_safe safe_tail)
qed

end
