(* ===== verification/Sched_Ticks.thy ===== *)
theory Sched_Ticks
  imports Sched_Jobs
begin

text \<open>The ticks of the jobs keep the invariant, and so does every completion.\<close>

section \<open>Issuing page operations\<close>

definition same_ctx :: "sched \<Rightarrow> sched \<Rightarrow> bool" where
  "same_ctx s t \<longleftrightarrow> writer t = writer s \<and> reader t = reader s \<and> flusher t = flusher s \<and> tracing t = tracing s \<and>
     ctx_base t = ctx_base s \<and> page_id_check_order t = page_id_check_order s"

lemma same_ctx_trans: "same_ctx s t \<Longrightarrow> same_ctx t u \<Longrightarrow> same_ctx s u"
  by (simp add: same_ctx_def)

lemma malloc_safe:
  assumes "malloc_ok os (ctx_base s)"
  shows "safe (malloc_op os s x) (\<lambda>(a, t). (\<exists>k. t = s\<lparr>calls := k, op_heap := (op_heap s)(a \<mapsto> x)\<rparr>) \<and>
    op_heap s a = None \<and> a \<noteq> 0 \<and> unat a < 2 ^ 48 \<and> static_of s a = None)"
  using assms by (auto simp: malloc_op_def Let_def malloc_ok_def static_of_None static_at_def)

lemma inv_new_object:
  assumes inv: "sched_inv g os hi s A L"
    and new: "op_heap s a = None" "a \<noteq> 0" "unat a < 2 ^ 48" "static_of s a = None" "object_ready hi (Some x)"
  shows "sched_inv g os hi (s\<lparr>op_heap := (op_heap s)(a \<mapsto> x)\<rparr>) (a # A) L"
proof -
  note p = inv_parts [OF inv]
  let ?t = "s\<lparr>op_heap := (op_heap s)(a \<mapsto> x)\<rparr>"
  have rd: "static_ready g ?t y = static_ready g s y" for y by (rule static_ready_cong) simp_all
  have cb: "static_callback ?t y = static_callback s y" for y by (rule static_callback_cong) simp_all
  have pd: "pending ?t (a # A) = a # pending s A" by (simp add: pending_def)
  have notin: "a \<notin> set L" "a \<notin> set (pending s A)"
  proof -
    show "a \<notin> set L" using wlist_write [of "op_heap s" _ L a] p(8) new(1) by (auto simp: list_ok_def)
    show "a \<notin> set (pending s A)" using p(7) [of a] new(1,4) by (auto simp: op_ready_def)
  qed
  have hx: "op_heap ?t b = (if b = a then Some x else op_heap s b)" for b by simp
  have "op_ready g hi ?t b" if "b \<in> set (a # pending s A)" for b
    using that p(7) [of b] notin new(4,5) by (auto simp: op_ready_def rd hx split: option.splits)
  moreover have "list_ok (op_heap ?t) n lo up L = list_ok (op_heap s) n lo up L" for n lo up
    using notin by (intro list_ok_cong) auto
  moreover have "heap_ok ?t" using p(3) new by (simp add: heap_ok_def hx)
  ultimately show ?thesis
    using p notin by (simp add: sched_inv_def jobs_ready_def cb pd counters_ok_def)
qed

lemma issue_write_inv:
  assumes inv: "sched_inv g os hi s A L" and hi: "hi = unat (wj_page_id (writer s)) + unat i" "hi < 49150"
  shows "safe (issue_write os s i) (\<lambda>t. sched_inv g os (Suc hi) t A L \<and> same_ctx s t)"
proof -
  have pid: "unat (wj_page_id (writer s) + i) = hi" using hi by (simp add: unat_simps)
  have step: "safe (prepare_request os (s\<lparr>calls := k, op_heap := (op_heap s)(a \<mapsto> Write_op w)\<rparr>) a Page_written r)
      (\<lambda>t. sched_inv g os (Suc hi) t A L \<and> same_ctx s t)"
    if new: "op_heap s a = None" "a \<noteq> 0" "unat a < 2 ^ 48" "static_of s a = None"
      and w: "w = \<lparr>pw_callback = None, pw_page_id = wj_page_id (writer s) + i,
        pw_user_fsync_callback = 0, pw_next = 0, pw_issued = now\<rparr>" for a k w r now
  proof -
    have "sched_inv g os (Suc hi) ((s\<lparr>calls := k\<rparr>)\<lparr>op_heap := (op_heap (s\<lparr>calls := k\<rparr>))(a \<mapsto> Write_op (w\<lparr>pw_callback := Some Page_written\<rparr>))\<rparr>) (a # A) L"
      using inv_hi [OF inv, of "Suc hi"] hi(2) new pid by (intro inv_new_object) (auto simp: w)
    from inv_enqueue [OF this, of r] show ?thesis
      using prepare_write [of a "s\<lparr>calls := k, op_heap := (op_heap s)(a \<mapsto> Write_op w)\<rparr>" w os Page_written r] new(3,4)
      by (simp add: enqueue_def same_ctx_def)
  qed
  show ?thesis unfolding issue_write_def Let_def
    by (rule safe_bind [OF malloc_safe [OF inv_parts(2) [OF inv]]])
      (auto intro!: clock_safe step)
qed

lemma issue_read_inv:
  assumes inv: "sched_inv g os hi s A L"
  shows "safe (issue_read os s i) (\<lambda>t. sched_inv g os hi t A L \<and> same_ctx s t)"
proof -
  have step: "safe (prepare_request os (s\<lparr>calls := k, op_heap := (op_heap s)(a \<mapsto> Read_op w)\<rparr>) a Page_read r)
      (\<lambda>t. sched_inv g os hi t A L \<and> same_ctx s t)"
    if new: "op_heap s a = None" "a \<noteq> 0" "unat a < 2 ^ 48" "static_of s a = None"
      and w: "w = \<lparr>pr_callback = None, pr_buf = Read_buf, pr_issued = now, pr_page_id = pid\<rparr>" for a k w r now pid
  proof -
    have "sched_inv g os hi ((s\<lparr>calls := k\<rparr>)\<lparr>op_heap := (op_heap (s\<lparr>calls := k\<rparr>))(a \<mapsto> Read_op (w\<lparr>pr_callback := Some Page_read\<rparr>))\<rparr>) (a # A) L"
      using inv new by (intro inv_new_object) (auto simp: w)
    from inv_enqueue [OF this, of r] show ?thesis
      using prepare_read [of a "s\<lparr>calls := k, op_heap := (op_heap s)(a \<mapsto> Read_op w)\<rparr>" w os Page_read r] new(3,4)
      by (simp add: enqueue_def same_ctx_def)
  qed
  show ?thesis unfolding issue_read_def Let_def
    by (rule safe_bind [OF malloc_safe [OF inv_parts(2) [OF inv]]])
      (auto intro!: clock_safe step)
qed

lemma issue_writes_inv:
  "sched_inv g os hi s A L \<Longrightarrow> hi = unat (wj_page_id (writer s)) + unat i \<Longrightarrow> hi + n \<le> 49150 \<Longrightarrow>
     safe (issue_batch (issue_write os) s i n) (\<lambda>t. sched_inv g os (hi + n) t A L \<and> same_ctx s t)"
proof (induction n arbitrary: s i hi)
  case 0
  then show ?case by (simp add: same_ctx_def)
next
  case (Suc n)
  have i1: "unat (i + 1) = Suc (unat i)" using Suc.prems(2,3) by (simp add: unat_simps)
  show ?case
    unfolding issue_batch.simps
  proof (rule safe_bind [OF issue_write_inv [OF Suc.prems(1,2)]])
    show "hi < 49150" using Suc.prems(3) by simp
    fix t assume t: "sched_inv g os (Suc hi) t A L \<and> same_ctx s t"
    then have "safe (issue_batch (issue_write os) t (i + 1) n) (\<lambda>u. sched_inv g os (Suc hi + n) u A L \<and> same_ctx t u)"
      using Suc.prems(2,3) i1 by (intro Suc.IH) (auto simp: same_ctx_def)
    then show "safe (issue_batch (issue_write os) t (i + 1) n) (\<lambda>u. sched_inv g os (hi + Suc n) u A L \<and> same_ctx s u)"
      by (rule safe_weaken) (use t same_ctx_trans in auto)
  qed
qed

lemma issue_reads_inv:
  "sched_inv g os hi s A L \<Longrightarrow> safe (issue_batch (issue_read os) s i n) (\<lambda>t. sched_inv g os hi t A L \<and> same_ctx s t)"
proof (induction n arbitrary: s i)
  case 0
  then show ?case by (simp add: same_ctx_def)
next
  case (Suc n)
  show ?case
    unfolding issue_batch.simps
  proof (rule safe_bind [OF issue_read_inv [OF Suc.prems]])
    fix t assume t: "sched_inv g os hi t A L \<and> same_ctx s t"
    then show "safe (issue_batch (issue_read os) t (i + 1) n) (\<lambda>u. sched_inv g os hi u A L \<and> same_ctx s u)"
      using Suc.IH [of t "i + 1"] by (auto elim!: safe_weaken dest: same_ctx_trans)
  qed
qed

section \<open>Writer and reader\<close>

lemma below_limit_iff: "below_limit p \<longleftrightarrow> unat p < 32768"
proof -
  have b: "BUF_SIZE = 65536" "BYTES_TO_WRITE = 2147483648"
    by (simp_all add: BUF_SIZE_def BYTES_TO_WRITE_def BYTE_KB_def BYTE_MB_def BYTE_GB_def push_bit_eq_mult)
  have "unat (ucast p * BUF_SIZE) = unat p * 65536"
    using unat_lt_u32 [of p] by (simp add: b unat_mult_lem [THEN iffD1] unat_ucast_up)
  then show ?thesis by (simp add: below_limit_def b word_less_nat_alt)
qed

lemma increment_bound:
  fixes b :: u32
  shows "unat (max_c 1 (b * BATCH_INCREMENT_PERCENT div 100)) = max 1 (unat b div 100)"
  by (simp add: BATCH_INCREMENT_PERCENT_def max_def word_le_nat_alt unat_div)

lemma next_batch_bound:
  assumes "unat b \<le> 16382"
  shows "unat (next_batch_size inflight b) \<le> 16382"
proof -
  let ?d = "max_c 1 (b * BATCH_INCREMENT_PERCENT div 100)"
  have half: "b < drop_bit 1 ENTRIES \<longleftrightarrow> unat b < 8192"
    by (simp add: ENTRIES_def word_less_nat_alt)
  have "unat (b * 2) \<le> 16382" if "unat b < 8192"
    using that by (simp add: unat_mult_lem [THEN iffD1])
  moreover have "unat (b + ?d) \<le> 16382" if "unat b < 8192"
  proof -
    have "unat b + max 1 (unat b div 100) \<le> 16382" using that by auto
    then show ?thesis using increment_bound [of b] by (simp add: unat_simps)
  qed
  moreover have "unat (b - ?d) \<le> 16382" if "0 < b"
  proof -
    have "unat ?d \<le> unat b" using that increment_bound [of b] by (auto simp: word_less_nat_alt)
    then show ?thesis using assms by (simp add: unat_simps)
  qed
  ultimately show ?thesis using assms by (simp add: next_batch_size_def half del: One_nat_def max_c_eq)
qed

lemma background_writer_inv:
  assumes inv: "sched_inv g os (unat (wj_page_id (writer s))) s (static_at s Op_writer # A) L"
  shows "safe (background_writer os s (static_at s Op_writer)) (\<lambda>t. sched_inv g os (unat (wj_page_id (writer t))) t A L)"
proof -
  note p = inv_parts [OF inv]
  note c = p(9) [unfolded counters_ok_def]
  let ?a = "static_at s Op_writer" and ?page = "wj_page_id (writer s)"
  define b where "b = next_batch_size (wj_inflight (writer s)) (wj_batch_size (writer s))"
  define u where "u = s\<lparr>writer := (writer s)\<lparr>wj_batch_size := b\<rparr>\<rparr>"
  have b: "unat b \<le> 16382" unfolding b_def using c by (intro next_batch_bound) simp
  have page: "unat ?page < 32768"
    using inv_static_ready [OF inv, of Op_writer] by (simp add: below_limit_iff)
  have u: "sched_inv g os (unat ?page) u (?a # A) L"
  proof (rule inv_update [OF inv])
    show "counters_ok u (unat ?page)" using c b by (simp add: counters_ok_def u_def)
    show "jobs_ready u" using p(4) by (simp add: jobs_ready_def u_def)
    show "static_ready g s x \<Longrightarrow> static_ready g u x" for x by (cases x) (simp_all add: u_def)
  qed (simp_all add: u_def)
  have up: "wj_page_id (writer u) = ?page" by (simp add: u_def)
  have new: "unat (?page + b) = unat ?page + unat b" using page b by (simp add: unat_simps)
  have infl: "wj_inflight (writer s) + ucast b = of_nat (unat ?page + unat b - unat (page_id_check_order s))"
    using c by (simp add: of_nat_diff)
  have "safe (issue_batch (issue_write os) u 0 (unat b)) (\<lambda>t. sched_inv g os (unat ?page + unat b) t (?a # A) L \<and> same_ctx u t)"
    using issue_writes_inv [OF u, of 0 "unat b"] page b up by simp
  then have "safe (bind_res (issue_batch (issue_write os) u 0 (unat b)) (\<lambda>s.
       let s = s\<lparr>writer := (writer s)\<lparr>wj_inflight := wj_inflight (writer s) + ucast b, wj_page_id := wj_page_id (writer s) + b\<rparr>\<rparr>
       in if below_limit (wj_page_id (writer s)) then resend os s Op_writer else Inr (stop_job s Op_writer)))
     (\<lambda>t. sched_inv g os (unat (wj_page_id (writer t))) t A L)"
  proof (rule safe_bind)
    fix t assume "sched_inv g os (unat ?page + unat b) t (?a # A) L \<and> same_ctx u t"
    then have t: "sched_inv g os (unat ?page + unat b) t (?a # A) L" and w: "writer t = writer u"
        and same: "flusher t = flusher s" "page_id_check_order t = page_id_check_order s" "ctx_base t = ctx_base s"
      by (simp_all add: same_ctx_def u_def)
    note q = inv_parts [OF t]
    let ?v = "t\<lparr>writer := (writer t)\<lparr>wj_inflight := wj_inflight (writer t) + ucast b, wj_page_id := wj_page_id (writer t) + b\<rparr>\<rparr>"
    have at: "static_at t Op_writer = ?a" "static_at ?v Op_writer = ?a" using same(3) by (simp_all add: static_at_def)
    have cnt: "counters_ok ?v (unat ?page + unat b)"
      using q(9) c new infl b same w by (simp add: counters_ok_def u_def)
    have jobs: "jobs_ready ?v" using q(4) by (simp add: jobs_ready_def)
    have rd: "x \<noteq> Op_writer \<Longrightarrow> static_ready g t x \<Longrightarrow> static_ready g ?v x" for x by (cases x) simp_all
    have pv: "unat (wj_page_id (writer ?v)) = unat ?page + unat b" using new w by (simp add: u_def)
    show "safe (let s = ?v in if below_limit (wj_page_id (writer s)) then resend os s Op_writer else Inr (stop_job s Op_writer))
       (\<lambda>t. sched_inv g os (unat (wj_page_id (writer t))) t A L)"
    proof (cases "below_limit (wj_page_id (writer ?v))")
      case True
      have "sched_inv g os (unat ?page + unat b) ?v (static_at ?v Op_writer # A) L"
        unfolding at
      proof (rule inv_update [OF t _ _ _ _ jobs _ _ _ cnt])
        show "static_ready g t x \<Longrightarrow> static_ready g ?v x" for x using True rd by (cases "x = Op_writer") simp_all
      qed simp_all
      from resend_inv [OF this] have "safe (resend os ?v Op_writer) (\<lambda>t. sched_inv g os (unat ?page + unat b) t A L \<and> writer t = writer ?v)"
        by simp
      then show ?thesis using True pv by (auto simp: Let_def elim!: safe_weaken)
    next
      case False
      have "sched_inv g os (unat ?page + unat b) ?v A L"
      proof (rule inv_update [OF inv_drop [OF t] _ _ _ _ jobs _ _ _ cnt])
        fix x assume x: "static_at t x \<in> set (pending t A)" "static_ready g t x"
        have "?a \<notin> set (pending t A)" by (rule head_not_pending [OF t])
        then have "x \<noteq> Op_writer" using x(1) at(1) by auto
        then show "static_ready g ?v x" using rd x(2) by simp
      qed simp_all
      from stop_inv [OF this, of Op_writer] show ?thesis using False pv by (simp add: Let_def)
    qed
  qed
  then show ?thesis by (simp add: background_writer_def Let_def b_def u_def)
qed

lemma background_reader_inv:
  assumes inv: "sched_inv g os hi s (static_at s Op_reader # A) L"
  shows "safe (background_reader os s (static_at s Op_reader))
    (\<lambda>t. sched_inv g os hi t A L \<and> wj_page_id (writer t) = wj_page_id (writer s))"
proof -
  note p = inv_parts [OF inv]
  note c = p(9) [unfolded counters_ok_def]
  let ?a = "static_at s Op_reader" and ?r = "rj_page_id (reader s)" and ?f = "fj_page_id (flusher s)"
  define n where "n = next_batch_size (rj_inflight (reader s)) (rj_batch_size (reader s))"
  define b :: u32 where "b = ucast (min_c (ucast n) ((ucast ?f :: u64) - ucast ?r))"
  define u where "u = s\<lparr>reader := (reader s)\<lparr>rj_batch_size := b\<rparr>\<rparr>"
  have b: "unat ?r + unat b \<le> unat ?f"
  proof -
    have le: "unat ((ucast ?f :: u64) - ucast ?r) = unat ?f - unat ?r"
      using c by (simp add: unat_diff_nowrap unat_ucast_up)
    have "unat (min (ucast n) ((ucast ?f :: u64) - ucast ?r)) \<le> unat ?f - unat ?r"
      using le by (metis min.cobounded2 word_le_nat_alt)
    moreover from this have "unat (min (ucast n) ((ucast ?f :: u64) - ucast ?r)) < 2 ^ LENGTH(32)"
      using unat_lt_u32 [of ?f] by simp
    then have "unat b = unat (min (ucast n) ((ucast ?f :: u64) - ucast ?r))"
      by (simp add: b_def unat_ucast_down)
    moreover have "unat ?r \<le> unat ?f" using c by simp
    ultimately show ?thesis by linarith
  qed
  then have new: "unat (?r + b) = unat ?r + unat b" using unat_lt_u32 [of ?f] by (simp add: unat_simps)
  have u: "sched_inv g os hi u (?a # A) L"
  proof (rule inv_update [OF inv])
    show "counters_ok u hi" using c by (simp add: counters_ok_def u_def)
    show "jobs_ready u" using p(4) by (simp add: jobs_ready_def u_def)
    show "static_ready g s x \<Longrightarrow> static_ready g u x" for x by (cases x) (simp_all add: u_def)
  qed (simp_all add: u_def)
  have "safe (bind_res (issue_batch (issue_read os) u 0 (unat b)) (\<lambda>s.
       let s = s\<lparr>reader := (reader s)\<lparr>rj_inflight := rj_inflight (reader s) + ucast b, rj_page_id := rj_page_id (reader s) + b\<rparr>\<rparr>
       in if below_limit (rj_page_id (reader s)) then resend os s Op_reader else Inr (stop_job s Op_reader)))
     (\<lambda>t. sched_inv g os hi t A L \<and> wj_page_id (writer t) = wj_page_id (writer s))"
  proof (rule safe_bind [OF issue_reads_inv [OF u]])
    fix t assume "sched_inv g os hi t (?a # A) L \<and> same_ctx u t"
    then have t: "sched_inv g os hi t (?a # A) L" and w: "reader t = reader u" "writer t = writer s" "flusher t = flusher s"
        and at: "?a = static_at t Op_reader"
      by (simp_all add: same_ctx_def u_def static_at_def)
    let ?v = "t\<lparr>reader := (reader t)\<lparr>rj_inflight := rj_inflight (reader t) + ucast b, rj_page_id := rj_page_id (reader t) + b\<rparr>\<rparr>"
    have v: "sched_inv g os hi ?v (static_at ?v Op_reader # A) L"
    proof -
      have "sched_inv g os hi ?v (?a # A) L"
      proof (rule inv_update [OF t])
        show "counters_ok ?v hi" using inv_parts(9) [OF t] b new w by (simp add: counters_ok_def u_def)
        show "jobs_ready ?v" using inv_parts(4) [OF t] by (simp add: jobs_ready_def)
        show "static_ready g t x \<Longrightarrow> static_ready g ?v x" for x by (cases x) simp_all
      qed simp_all
      then show ?thesis using at by (simp add: static_at_def)
    qed
    show "safe (let s = ?v in if below_limit (rj_page_id (reader s)) then resend os s Op_reader else Inr (stop_job s Op_reader))
       (\<lambda>t. sched_inv g os hi t A L \<and> wj_page_id (writer t) = wj_page_id (writer s))"
      using resend_inv [OF v] stop_inv [OF inv_drop [OF v], of Op_reader] w
      by (auto simp: Let_def elim!: safe_weaken)
  qed
  then show ?thesis by (simp add: background_reader_def Let_def n_def b_def u_def)
qed

section \<open>Flusher, tracing and status\<close>

text \<open>A new request of an operation in \<open>thread_ctx\<close> that is not in flight.\<close>

lemma request_inv:
  assumes inv: "sched_inv g os hi s A L" and "x \<in> {Op_fsync, Op_dump}" "static_at s x \<notin> set (pending s A)"
    and "static_ready g (set_static_callback s x (Some c)) x"
  shows "sched_inv g os hi (enqueue (set_static_callback s x (Some c)) (static_at s x) r) A L"
proof -
  let ?t = "set_static_callback s x (Some c)"
  have at: "static_at ?t = static_at s" by (rule static_at_cong) simp
  have t: "sched_inv g os hi ?t A L"
  proof (rule inv_update [OF inv])
    show "jobs_ready ?t" using inv_parts(4) [OF inv] assms(2) by (auto simp: jobs_ready_def)
    show "counters_ok ?t hi" using inv_parts(9) [OF inv] assms(2) by (auto simp: counters_ok_def)
    show "static_ready g ?t y" if "static_at s y \<in> set (pending s A)" "static_ready g s y" for y
      using that assms(2,3) by (cases y) auto
  qed (use assms(2) in auto)
  moreover have "pending ?t A = pending s A" by (simp add: pending_def)
  ultimately have "sched_inv g os hi ?t (static_at ?t x # A) L"
    using assms(3,4) at by (intro inv_add) simp_all
  from inv_enqueue [OF this] show ?thesis by (simp add: at)
qed

lemma background_flusher_inv:
  assumes inv: "sched_inv g os hi s (static_at s Op_flusher # A) L"
  shows "safe (background_flusher os s (static_at s Op_flusher))
    (\<lambda>t. sched_inv g os hi t A L \<and> wj_page_id (writer t) = wj_page_id (writer s))"
proof -
  let ?a = "static_at s Op_flusher"
  let ?m = "if wj_written_no_flush (writer s) \<noteq> 0 \<and> fj_inflight (flusher s) = 0
         then bind_res (clock_gettime os s) (\<lambda>(now, s).
              let s = s\<lparr>flusher := (flusher s)\<lparr>fj_op_fsync := (fj_op_fsync (flusher s))\<lparr>fs_issued := now\<rparr>\<rparr>\<rparr>
              in bind_res (prepare_request os s (static_at s Op_fsync) File_synced (Prep_fsync (fj_fd (flusher s)))) (\<lambda>s.
                   Inr (s\<lparr>flusher := (flusher s)\<lparr>fj_inflight := 1\<rparr>\<rparr>)))
         else Inr s"
  have m: "safe ?m (\<lambda>t. sched_inv g os hi t (?a # A) L \<and> writer t = writer s \<and> ctx_base t = ctx_base s)"
  proof (rule safe_if)
    assume idle: "wj_written_no_flush (writer s) \<noteq> 0 \<and> fj_inflight (flusher s) = 0"
    then have free: "static_at s Op_fsync \<notin> set (pending s (?a # A))"
      using inv_static_ready [OF inv, of Op_fsync] by auto
    show "safe (bind_res (clock_gettime os s) (\<lambda>(now, s).
              let s = s\<lparr>flusher := (flusher s)\<lparr>fj_op_fsync := (fj_op_fsync (flusher s))\<lparr>fs_issued := now\<rparr>\<rparr>\<rparr>
              in bind_res (prepare_request os s (static_at s Op_fsync) File_synced (Prep_fsync (fj_fd (flusher s)))) (\<lambda>s.
                   Inr (s\<lparr>flusher := (flusher s)\<lparr>fj_inflight := 1\<rparr>\<rparr>))))
       (\<lambda>t. sched_inv g os hi t (?a # A) L \<and> writer t = writer s \<and> ctx_base t = ctx_base s)"
    proof (rule clock_safe)
      fix now k
      let ?u = "s\<lparr>calls := k, flusher := (flusher s)\<lparr>fj_op_fsync := (fj_op_fsync (flusher s))\<lparr>fs_issued := now\<rparr>\<rparr>\<rparr>"
      let ?v = "?u\<lparr>flusher := (flusher ?u)\<lparr>fj_inflight := 1\<rparr>\<rparr>"
      let ?r = "Prep_fsync (fj_fd (flusher s))"
      have at: "static_at ?v = static_at s" "static_at ?u = static_at s" by (rule static_at_cong, simp)+
      have v: "sched_inv g os hi ?v (?a # A) L"
      proof (rule inv_update [OF inv])
        show "jobs_ready ?v" using inv_parts(4) [OF inv] by (simp add: jobs_ready_def)
        show "counters_ok ?v hi" using inv_parts(9) [OF inv] by (simp add: counters_ok_def)
        show "static_ready g ?v x" if "static_at s x \<in> set (pending s (?a # A))" "static_ready g s x" for x
          using that free by (cases x) auto
      qed simp_all
      have "static_at ?v Op_fsync \<notin> set (pending ?v (?a # A))" using free by (simp add: at pending_def)
      from request_inv [OF v _ this, of File_synced ?r]
      have "sched_inv g os hi (enqueue (set_static_callback ?v Op_fsync (Some File_synced)) (static_at s Op_fsync) ?r) (?a # A) L"
        by (simp add: at)
      moreover have "(enqueue (set_static_callback ?u Op_fsync (Some File_synced)) (static_at s Op_fsync) ?r)
            \<lparr>flusher := (flusher (set_static_callback ?u Op_fsync (Some File_synced)))\<lparr>fj_inflight := 1\<rparr>\<rparr> =
          enqueue (set_static_callback ?v Op_fsync (Some File_synced)) (static_at s Op_fsync) ?r"
        by (intro sched.equality flusher_job.equality) (simp_all add: enqueue_def)
      moreover have "prepare_request os ?u (static_at ?u Op_fsync) File_synced ?r =
          (if os_get_sqe os (sqes (calls ?u)) then Inr (enqueue (set_static_callback ?u Op_fsync (Some File_synced)) (static_at ?u Op_fsync) ?r)
           else Inl AssertFail)"
        by (rule prepare_static) (use inv_parts(1) [OF inv] in simp)
      ultimately show "safe (case (now, s\<lparr>calls := k\<rparr>) of (now, s) \<Rightarrow>
              let s = s\<lparr>flusher := (flusher s)\<lparr>fj_op_fsync := (fj_op_fsync (flusher s))\<lparr>fs_issued := now\<rparr>\<rparr>\<rparr>
              in bind_res (prepare_request os s (static_at s Op_fsync) File_synced (Prep_fsync (fj_fd (flusher s)))) (\<lambda>s.
                   Inr (s\<lparr>flusher := (flusher s)\<lparr>fj_inflight := 1\<rparr>\<rparr>)))
          (\<lambda>t. sched_inv g os hi t (?a # A) L \<and> writer t = writer s \<and> ctx_base t = ctx_base s)"
        by (auto simp: Let_def split: if_splits)
    qed
  qed (use inv in simp)
  have "safe (bind_res ?m (\<lambda>s. if below_limit (fj_page_id (flusher s)) then resend os s Op_flusher
           else Inr (stop_job s Op_flusher)))
    (\<lambda>t. sched_inv g os hi t A L \<and> wj_page_id (writer t) = wj_page_id (writer s))"
  proof (rule safe_bind [OF m])
    fix t assume t: "sched_inv g os hi t (?a # A) L \<and> writer t = writer s \<and> ctx_base t = ctx_base s"
    then have v: "sched_inv g os hi t (static_at t Op_flusher # A) L" by (simp add: static_at_def)
    show "safe (if below_limit (fj_page_id (flusher t)) then resend os t Op_flusher else Inr (stop_job t Op_flusher))
       (\<lambda>t. sched_inv g os hi t A L \<and> wj_page_id (writer t) = wj_page_id (writer s))"
      using resend_inv [OF v] stop_inv [OF inv_drop [OF v], of Op_flusher] t
      by (auto elim!: safe_weaken)
  qed
  then show ?thesis by (simp add: background_flusher_def)
qed

end
