(* ===== verification/Sched_System.thy ===== *)
theory Sched_System
  imports Sched_Ticks "HOL-Library.Multiset"
begin

text \<open>
  The scheduler with the kernel: the requests in flight, the steps of submission and completion,
  and the invariant of the reachable states.
\<close>

section \<open>Tracing and status\<close>

lemma prepare_dump:
  assumes inv: "sched_inv g os hi s A L" and "static_at s Op_dump \<notin> set (pending s A)"
    and "td_inflight (tj_dump_op (tracing s)) \<noteq> 0" "c = Tracing_writed \<or> c = Tracing_synced"
  shows "safe (prepare_request os s (static_at s Op_dump) c r) (\<lambda>t. sched_inv g os hi t A L \<and> writer t = writer s \<and> ctx_base t = ctx_base s)"
  using request_inv [OF inv _ assms(2), of c r] assms(3,4) prepare_static [OF inv_parts(1) [OF inv], of os Op_dump c r]
  by auto

text \<open>A change of the tracing job that leaves its callback alone, and its operation as it is in flight.\<close>

lemma tracing_upd_inv:
  assumes inv: "sched_inv g os hi s A L" and "job_callback (tj_inner j) = job_callback (tj_inner (tracing s))"
    and hung: "g \<Longrightarrow> hung s \<Longrightarrow> hung (s\<lparr>tracing := j\<rparr>)"
    and dump: "static_at s Op_dump \<in> set (pending s A) \<Longrightarrow>
      td_inflight (tj_dump_op j) \<noteq> 0 \<and> td_callback (tj_dump_op j) = td_callback (tj_dump_op (tracing s))"
  shows "sched_inv g os hi (s\<lparr>tracing := j\<rparr>) A L"
proof (rule inv_update [OF inv])
  show "jobs_ready (s\<lparr>tracing := j\<rparr>)" using inv_parts(4) [OF inv] assms(2) by (simp add: jobs_ready_def)
  show "counters_ok (s\<lparr>tracing := j\<rparr>) hi" using inv_parts(9) [OF inv] by (simp add: counters_ok_def)
  show "static_ready g (s\<lparr>tracing := j\<rparr>) x" if "static_at s x \<in> set (pending s A)" "static_ready g s x" for x
    using that dump by (cases x) auto
  show "g \<Longrightarrow> hung s \<Longrightarrow> hung (s\<lparr>tracing := j\<rparr>)" by (rule hung)
qed simp_all

lemma dump_tracing_items_inv:
  assumes inv: "sched_inv g os hi s A L" and "\<not> g"
  shows "safe (dump_tracing_items os s) (\<lambda>t. sched_inv g os hi t A L \<and> writer t = writer s \<and> ctx_base t = ctx_base s)"
proof (cases "td_inflight (tj_dump_op (tracing s)) = 0 \<and> fst (cbuf_get (tj_cbuf (tracing s))) \<noteq> 0")
  case False
  then show ?thesis using inv by (auto simp: dump_tracing_items_def Let_def split: prod.splits)
next
  case True
  obtain items buf where get: "cbuf_get (tj_cbuf (tracing s)) = (items, buf)" by (cases "cbuf_get (tj_cbuf (tracing s))") auto
  have free: "static_at s Op_dump \<notin> set (pending s A)" using inv_static_ready [OF inv, of Op_dump] True by auto
  let ?j = "(tracing s)\<lparr>tj_dump_op := (tj_dump_op (tracing s))\<lparr>td_items := items,
      td_to_write := items * sizeof_tracing_item, td_inflight := 1\<rparr>\<rparr>"
  have t: "sched_inv g os hi (s\<lparr>tracing := ?j\<rparr>) A L" using free assms(2) by (intro tracing_upd_inv [OF inv]) simp_all
  have pd: "pending (s\<lparr>tracing := ?j\<rparr>) A = pending s A" by (simp add: pending_def)
  show ?thesis
    using prepare_dump [OF t _ _ disjI1 [OF refl]] free True get
    by (simp add: dump_tracing_items_def Let_def pd)
qed

lemma background_tracing_inv:
  assumes inv: "sched_inv g os hi s (static_at s Op_tracing # A) L"
  shows "safe (background_tracing os s (static_at s Op_tracing)) (\<lambda>t. sched_inv g os hi t A L \<and> writer t = writer s)"
proof -
  let ?a = "static_at s Op_tracing"
  have g: "\<not> g" using inv_static_ready [OF inv head_pending] by simp
  let ?Q = "\<lambda>t. sched_inv g os hi t (?a # A) L \<and> writer t = writer s \<and> ctx_base t = ctx_base s"
  obtain room item where put: "cbuf_put (tj_cbuf (tracing s)) = (room, item)" by (cases "cbuf_put (tj_cbuf (tracing s))") auto
  let ?m = "if room \<noteq> 0 \<and> \<not> jobs_finished s
         then bind_res (clock_gettime os s) (\<lambda>(now, s).
              let c = cbuf_write (tj_cbuf (tracing s)) item
                        (tracing_item_bytes s (trace_elapsed now (tj_start_time (tracing s))))
              in Inr (s\<lparr>tracing := (tracing s)\<lparr>tj_cbuf := cbuf_advance_tail c 1,
                                                tj_trace_done := tj_trace_done (tracing s) + 1\<rparr>\<rparr>))
         else Inr s"
  let ?f = "\<lambda>s. if \<not> jobs_finished (s :: sched) \<or> td_inflight (tj_dump_op (tracing s)) \<noteq> 0 then resend os s Op_tracing
        else dump_tracing_items os s"
  have upd: "sched_inv g os hi (t\<lparr>tracing := (tracing t)\<lparr>tj_cbuf := c, tj_trace_done := d\<rparr>\<rparr>) (?a # A) L"
    if "sched_inv g os hi t (?a # A) L" for t c d
    using inv_static_ready [OF that, of Op_dump] by (intro tracing_upd_inv [OF that]) auto
  have "sched_inv g os hi (s\<lparr>calls := k, tracing := (tracing s)\<lparr>tj_cbuf := c, tj_trace_done := d\<rparr>\<rparr>) (?a # A) L" for k c d
    using upd [of "s\<lparr>calls := k\<rparr>"] inv by simp
  then have m: "safe ?m ?Q"
    using inv by (auto simp: Let_def intro!: clock_safe)
  have d: "safe (if b then dump_tracing_items os t else Inr t) ?Q" if "?Q t" for b t
    using that dump_tracing_items_inv [of g os hi t "?a # A" L] g by (auto elim!: safe_weaken)
  have r: "safe (if b \<or> td_inflight (tj_dump_op (tracing t)) \<noteq> 0 then resend os t Op_tracing else dump_tracing_items os t)
      (\<lambda>t. sched_inv g os hi t A L \<and> writer t = writer s)" if t: "?Q t" for b t
  proof -
    have v: "sched_inv g os hi t (static_at t Op_tracing # A) L" using t by (simp add: static_at_def)
    have "safe (resend os t Op_tracing) (\<lambda>t. sched_inv g os hi t A L \<and> writer t = writer s)"
      using resend_inv [OF v] t by simp
    moreover have "safe (dump_tracing_items os t) (\<lambda>t. sched_inv g os hi t A L \<and> writer t = writer s)"
      using dump_tracing_items_inv [OF inv_drop [OF v] g] t by (auto elim!: safe_weaken)
    ultimately show ?thesis by simp
  qed
  have "safe (bind_res ?m (\<lambda>u. bind_res
        (if cbuf_free_count (tj_cbuf (tracing u)) \<le> cbuf_len (tj_cbuf (tracing u)) div 2
         then dump_tracing_items os u else Inr u) (\<lambda>t.
        if \<not> jobs_finished s \<or> td_inflight (tj_dump_op (tracing t)) \<noteq> 0 then resend os t Op_tracing
        else dump_tracing_items os t))) (\<lambda>t. sched_inv g os hi t A L \<and> writer t = writer s)"
    by (rule safe_bind [OF m], rule safe_bind [OF d], assumption, rule r)
  then show ?thesis by (simp add: background_tracing_def put Let_def)
qed

lemma tracing_writed_inv:
  assumes inv: "sched_inv g os hi s (static_at s Op_dump # A) L"
  shows "safe (tracing_writed os s (static_at s Op_dump) r) (\<lambda>t. sched_inv g os hi t A L \<and> writer t = writer s)"
proof -
  let ?c = "cbuf_advance_head (tj_cbuf (tracing s)) (td_items (tj_dump_op (tracing s)))"
  let ?s = "s\<lparr>tracing := (tracing s)\<lparr>tj_cbuf := ?c\<rparr>\<rparr>"
  note rdy = inv_static_ready [OF inv head_pending]
  have free: "static_at s Op_dump \<notin> set (pending s A)" by (rule head_not_pending [OF inv])
  have t: "sched_inv g os hi ?s A L" using free inv_parts(10) [OF inv] rdy by (intro tracing_upd_inv [OF inv_drop [OF inv]]) auto
  have "pending ?s A = pending s A" by (simp add: pending_def)
  then have "safe (prepare_request os ?s (static_at ?s Op_dump) Tracing_synced (Prep_fsync (td_fd (tj_dump_op (tracing s)))))
      (\<lambda>t. sched_inv g os hi t A L \<and> writer t = writer ?s \<and> ctx_base t = ctx_base ?s)"
    using free rdy by (intro prepare_dump [OF t]) simp_all
  then show ?thesis by (auto simp: tracing_writed_def Let_def elim!: safe_weaken)
qed

lemma tracing_synced_inv:
  assumes inv: "sched_inv g os hi s (static_at s Op_dump # A) L"
  shows "safe (tracing_synced s (static_at s Op_dump))
    (\<lambda>t. sched_inv g os hi t A L \<and> wj_page_id (writer t) = wj_page_id (writer s))"
proof -
  let ?j = "(tracing s)\<lparr>tj_trace_synced := tj_trace_synced (tracing s) + ucast (td_to_write (tj_dump_op (tracing s))),
      tj_dump_op := (tj_dump_op (tracing s))\<lparr>td_inflight := 0\<rparr>\<rparr>"
  have t: "sched_inv g os hi (s\<lparr>tracing := ?j\<rparr>) A L"
    using head_not_pending [OF inv] by (intro tracing_upd_inv [OF inv_drop [OF inv]]) simp_all
  moreover have "\<not> g" using inv_static_ready [OF inv head_pending] inv_parts(10) [OF inv] by auto
  ultimately show ?thesis
    using stop_inv [OF t, of Op_tracing] by (simp add: tracing_synced_def Let_def)
qed

lemma background_status_inv:
  assumes inv: "sched_inv g os hi s (static_at s Op_status # A) L"
  shows "safe (background_status os s (static_at s Op_status)) (\<lambda>t. sched_inv g os hi t A L \<and> writer t = writer s)"
proof -
  have step: "safe (bind_res (move_all (bg s) e) (\<lambda>b. resend os
        (s\<lparr>calls := k, printed := q, bg := b, status := (status s)\<lparr>sj_last_time := now\<rparr>\<rparr>) Op_status))
      (\<lambda>t. sched_inv g os hi t A L \<and> writer t = writer s)" for e k q now
  proof (rule safe_bind [OF move_ready [OF inv_parts(5) [OF inv]]])
    fix b assume "stats_ready b"
    let ?u = "s\<lparr>calls := k, printed := q, bg := b\<rparr>"
    let ?v = "?u\<lparr>status := (status s)\<lparr>sj_last_time := now\<rparr>\<rparr>"
    have u: "sched_inv g os hi ?u (static_at s Op_status # A) L"
      using inv_stats [of g os hi "s\<lparr>calls := k, printed := q\<rparr>"] inv \<open>stats_ready b\<close> by simp
    have "sched_inv g os hi ?v (static_at s Op_status # A) L"
    proof (rule inv_update [OF u])
      show "jobs_ready ?v" using inv_parts(4) [OF u] by (simp add: jobs_ready_def)
      show "counters_ok ?v hi" using inv_parts(9) [OF u] by (simp add: counters_ok_def)
      show "static_ready g ?u x \<Longrightarrow> static_ready g ?v x" for x by (cases x) simp_all
    qed simp_all
    then have "sched_inv g os hi ?v (static_at ?v Op_status # A) L" by (simp add: static_at_def)
    from resend_inv [OF this] show "safe (resend os ?v Op_status) (\<lambda>t. sched_inv g os hi t A L \<and> writer t = writer s)" by simp
  qed
  show ?thesis unfolding background_status_def by (auto simp: Let_def intro!: clock_safe step)
qed

section \<open>Completions\<close>

lemma io_cqe_inv:
  assumes inv: "sched_inv g os (unat (wj_page_id (writer s))) s (a # A) L"
  shows "safe (io_cqe os s a r) (\<lambda>t. at_rest g os t A)"
proof -
  note p = inv_parts [OF inv]
  have rdy: "op_ready g (unat (wj_page_id (writer s))) s a" using p(7) [OF head_pending] .
  have fin: "safe m (\<lambda>t. at_rest g os t A)"
    if "safe m (\<lambda>t. sched_inv g os (unat (wj_page_id (writer s))) t A L' \<and> wj_page_id (writer t) = wj_page_id (writer s))" for m L'
    using that by (rule safe_weaken) (auto simp: at_rest_def)
  have fin': "safe m (\<lambda>t. at_rest g os t A)"
    if "safe m (\<lambda>t. sched_inv g os (unat (wj_page_id (writer s))) t A L' \<and> writer t = writer s)" for m L'
    using that by (rule safe_weaken) (auto simp: at_rest_def)
  have call: "\<exists>c. op_callback s a = Some c \<and> safe (run_callback os s c a r) (\<lambda>t. at_rest g os t A)"
  proof (cases "static_of s a")
    case (Some x)
    then have a: "a = static_at s x" by (simp add: static_of_eq)
    have ready: "static_ready g s x" using rdy Some by (simp add: op_ready_def)
    show ?thesis
    proof (cases x)
      case Op_writer
      then show ?thesis using background_writer_inv [of g os s A L] inv a p(4)
        by (auto simp: op_callback_def jobs_ready_def at_rest_def elim!: safe_weaken)
    next
      case Op_reader
      then show ?thesis using fin [OF background_reader_inv] inv a p(4) by (auto simp: op_callback_def jobs_ready_def)
    next
      case Op_status
      then show ?thesis using fin' [OF background_status_inv] inv a p(4) by (auto simp: op_callback_def jobs_ready_def)
    next
      case Op_tracing
      then show ?thesis using fin' [OF background_tracing_inv] inv a p(4) by (auto simp: op_callback_def jobs_ready_def)
    next
      case Op_flusher
      then show ?thesis using fin [OF background_flusher_inv] inv a p(4) by (auto simp: op_callback_def jobs_ready_def)
    next
      case Op_fsync
      then show ?thesis using safe_weaken [OF file_synced_inv, of g os _ s A _ "\<lambda>t. at_rest g os t A"] inv a ready
        by (auto simp: op_callback_def at_rest_def)
    next
      case Op_dump
      then show ?thesis using fin' [OF tracing_writed_inv] fin [OF tracing_synced_inv] inv a ready by (auto simp: op_callback_def)
    qed
  next
    case None
    then have obj: "object_ready (unat (wj_page_id (writer s))) (op_heap s a)" using rdy by (simp add: op_ready_def)
    then obtain x where x: "op_heap s a = Some x" by (metis object_ready.simps(3) not_None_eq)
    show ?thesis
    proof (cases x)
      case (Write_op w)
      then show ?thesis using page_written_inv [OF inv, of w] x obj None
        by (auto simp: op_callback_def at_rest_def elim!: safe_weaken)
    next
      case (Read_op q)
      then show ?thesis using fin' [OF page_read_inv [OF inv, of q]] x obj None by (auto simp: op_callback_def)
    qed
  qed
  have addr: "unat a < 2 ^ 48" "a \<noteq> 0"
  proof -
    have "unat a < 2 ^ 48 \<and> a \<noteq> 0"
    proof (cases "static_of s a")
      case (Some x)
      then show ?thesis using static_at_bound [OF p(1), of x] by (simp add: static_of_eq)
    next
      case None
      then have "op_heap s a \<noteq> None" using rdy by (metis op_ready_def object_ready.simps(3) option.case(1))
      then show ?thesis using p(3) by (simp add: heap_ok_def)
    qed
    then show "unat a < 2 ^ 48" "a \<noteq> 0" by simp_all
  qed
  have "at_rest g os s A" using inv_drop [OF inv] by (auto simp: at_rest_def)
  then show ?thesis
    using call addr(2) user_data_flags [OF addr(1)] by (auto simp: io_cqe_def Let_def)
qed

section \<open>The system\<close>

text \<open>
  The program together with the requests that the kernel holds.  Submission hands the queue over;
  a completion takes any request of the kernel, in any order and with any result; the buffer that
  reads fill can change at any time.
\<close>

record system =
  sys_os :: os
  sys_app :: sched
  sys_kernel :: "io_uring_sqe list"

inductive sys_step :: "system \<Rightarrow> system \<Rightarrow> bool" where
  submit: "sys_step \<sigma> (\<sigma>\<lparr>sys_app := (sys_app \<sigma>)\<lparr>sq := []\<rparr>, sys_kernel := sys_kernel \<sigma> @ sq (sys_app \<sigma>)\<rparr>)"
| complete: "sys_kernel \<sigma> = K @ e # K' \<Longrightarrow> io_cqe (sys_os \<sigma>) (sys_app \<sigma>) (sqe_user_data e) r = Inr s \<Longrightarrow>
     sys_step \<sigma> (\<sigma>\<lparr>sys_app := s, sys_kernel := K @ K'\<rparr>)"
| data: "sys_step \<sigma> (\<sigma>\<lparr>sys_app := (sys_app \<sigma>)\<lparr>read_mem := m\<rparr>\<rparr>)"

inductive_cases sys_stepE: "sys_step \<sigma> \<tau>"

definition sys_inv :: "bool \<Rightarrow> system \<Rightarrow> bool" where
  "sys_inv g \<sigma> \<longleftrightarrow> at_rest g (sys_os \<sigma>) (sys_app \<sigma>) (map sqe_user_data (sys_kernel \<sigma>))"

text \<open>The order of the requests in the kernel does not matter.\<close>

lemma inv_reorder:
  assumes "sched_inv g os hi s A L" "mset B = mset A"
  shows "sched_inv g os hi s B L"
proof -
  have "mset (pending s B @ L) = mset (pending s A @ L)" using assms(2) by (simp add: pending_def)
  then have "distinct (pending s B @ L) = distinct (pending s A @ L)" by (rule mset_eq_imp_distinct_iff)
  moreover have "set B = set A" using assms(2) by (rule mset_eq_setD)
  ultimately show ?thesis using assms(1) by (simp add: sched_inv_def pending_def)
qed

lemma sys_step_inv:
  assumes "sys_inv g \<sigma>" "sys_step \<sigma> \<tau>"
  shows "sys_inv g \<tau>"
  using assms(2)
proof cases
  case submit
  obtain L where inv: "sched_inv g (sys_os \<sigma>) (unat (wj_page_id (writer (sys_app \<sigma>)))) (sys_app \<sigma>) (map sqe_user_data (sys_kernel \<sigma>)) L"
    using assms(1) by (auto simp: sys_inv_def at_rest_def)
  let ?s = "sys_app \<sigma>"
  let ?t = "?s\<lparr>sq := []\<rparr>"
  have "static_ready g ?t x = static_ready g ?s x" for x by (rule static_ready_cong) simp_all
  then have "sched_inv g (sys_os \<sigma>) (unat (wj_page_id (writer ?s))) ?t (map sqe_user_data (sys_kernel \<sigma> @ sq ?s)) L"
    using inv by (simp add: sched_inv_def pending_def heap_ok_def jobs_ready_def op_ready_def counters_ok_def cong: option.case_cong)
  then show ?thesis unfolding submit by (auto simp: sys_inv_def at_rest_def)
next
  case (complete K e K' r s)
  let ?a = "sqe_user_data e"
  obtain L where inv: "sched_inv g (sys_os \<sigma>) (unat (wj_page_id (writer (sys_app \<sigma>)))) (sys_app \<sigma>) (map sqe_user_data (K @ e # K')) L"
    using assms(1) complete(2) by (auto simp: sys_inv_def at_rest_def)
  have "sched_inv g (sys_os \<sigma>) (unat (wj_page_id (writer (sys_app \<sigma>)))) (sys_app \<sigma>) (?a # map sqe_user_data (K @ K')) L"
    by (rule inv_reorder [OF inv]) simp
  from io_cqe_inv [OF this, of r] complete(3) show ?thesis unfolding complete(1) by (simp add: sys_inv_def)
next
  case (data m)
  then show ?thesis using assms(1) by (simp add: sys_inv_def at_rest_def)
qed

text \<open>The program starts from zeroed globals at an address in user space.\<close>

definition zero_globals :: "sched \<Rightarrow> bool" where
  "zero_globals s \<longleftrightarrow> ctx_ok (ctx_base s) \<and> op_heap s = Map.empty \<and> sq s = [] \<and> page_id_check_order s = 0"

definition sys_start :: "system \<Rightarrow> bool" where
  "sys_start \<sigma> \<longleftrightarrow> (\<exists>s argc ret fd mem trace_fd m. zero_globals s \<and> malloc_ok (sys_os \<sigma>) (ctx_base s) \<and>
     main_init (sys_os \<sigma>) s argc ret fd mem trace_fd m = Inr (sys_app \<sigma>)) \<and> sys_kernel \<sigma> = []"

lemma run_job_inv:
  assumes inv: "sched_inv g os hi s A L" and x: "x \<in> {Op_writer, Op_reader, Op_status, Op_tracing, Op_flusher}"
    and free: "static_at s x \<notin> set (pending s A)" "static_ready g s x"
  shows "safe (run_job os s x) (\<lambda>(err, t). sched_inv g os hi t A L \<and> wj_page_id (writer t) = wj_page_id (writer s) \<and>
    ctx_base t = ctx_base s \<and> set (pending t A) \<subseteq> insert (static_at s x) (set (pending s A)))"
proof -
  obtain c where c: "job_callback (static_job s x) = Some c" "set_static_callback s x (Some c) = s"
    using job_callback_ready [OF inv_parts(4) [OF inv] x] .
  have run: "sched_inv g os hi (set_job t x ((static_job t x)\<lparr>job_running := True\<rparr>)) A L \<and>
      wj_page_id (writer (set_job t x ((static_job t x)\<lparr>job_running := True\<rparr>))) = wj_page_id (writer t) \<and>
      sq (set_job t x ((static_job t x)\<lparr>job_running := True\<rparr>)) = sq t \<and>
      ctx_base (set_job t x ((static_job t x)\<lparr>job_running := True\<rparr>)) = ctx_base t"
    if t: "sched_inv g os hi t A L" for t
  proof -
    let ?u = "set_job t x ((static_job t x)\<lparr>job_running := True\<rparr>)"
    have "static_callback ?u y = static_callback t y" for y
      using x by (cases y) (auto simp: static_job_def)
    then have jobs: "jobs_ready ?u" using inv_parts(4) [OF t] by (simp only: jobs_ready_def)
    have "sched_inv g os hi ?u A L"
    proof (rule inv_update [OF t _ _ _ _ jobs])
      show "counters_ok ?u hi" using inv_parts(9) [OF t] x by (auto simp: counters_ok_def)
      show "static_ready g t y \<Longrightarrow> static_ready g ?u y" for y using x by (cases y) (auto simp: static_job_def)
    qed (use x in auto)
    then show ?thesis using x by auto
  qed
  show ?thesis
    using inv_enqueue [OF inv_add [OF inv free]] run [OF inv_enqueue [OF inv_add [OF inv free]]]
      resend_static [OF inv_parts(1) [OF inv] c] inv
    by (auto simp: run_job_def pending_def enqueue_def)
qed

lemma stats_init_ready: "safe (stats_init_all mem) stats_ready"
proof -
  have "(ucast STATS_BUF_LEN :: u32) \<noteq> 0"
    by (simp add: STATS_BUF_LEN_def SPEEDTEST_RANGE_MS_def BACKGROUND_STATUS_MS_def time_units)
  then obtain b where "stats_bucket_init True (ucast STATS_BUF_LEN) = Inr b" "stats_ok b"
    using stats_init_ok by blast
  then show ?thesis by (cases mem) (simp_all add: stats_init_all_def stats_ready_def, simp add: stats_bucket_init_def)
qed

lemma init_jobs_inv:
  assumes z: "zero_globals s" "malloc_ok os (ctx_base s)" "stats_ready b"
    and t: "writer t = writer (background_writer_init s fd)" "reader t = reader (background_reader_init s fd)"
      "flusher t = flusher (background_flusher_init s fd)" "ctx_base t = ctx_base s" "op_heap t = op_heap s" "sq t = sq s"
      "page_id_check_order t = page_id_check_order s" "bg t = b"
      "job_callback (tj_inner (tracing t)) = Some Background_tracing"
      "job_callback (sj_inner (status t)) = Some Background_status"
  shows "sched_inv False os 0 t [] []"
  using assms
  by (auto simp: zero_globals_def sched_inv_def heap_ok_def jobs_ready_def pending_def counters_ok_def list_ok_nil
      background_writer_init_def background_reader_init_def background_flusher_init_def init_job_def job_set_stopped_def)

text \<open>While \<open>main\<close> starts the jobs \<open>X\<close>, only their timeouts are queued.\<close>

definition started :: "os \<Rightarrow> u64 \<Rightarrow> static_op set \<Rightarrow> sched \<Rightarrow> bool" where
  "started os base X t \<longleftrightarrow> sched_inv False os 0 t [] [] \<and> wj_page_id (writer t) = 0 \<and> ctx_base t = base \<and>
     set (pending t []) \<subseteq> (\<lambda>x. base + static_offset x) ` X"

lemma started_run:
  assumes t: "started os base X t" and x: "x \<in> {Op_writer, Op_reader, Op_status, Op_tracing, Op_flusher}" "x \<notin> X"
    and f: "\<And>err u. started os base (insert x X) u \<Longrightarrow> safe (f (err, u)) Q"
  shows "safe (bind_res (run_job os t x) f) Q"
proof -
  note t = t [unfolded started_def]
  have free: "static_at t x \<notin> set (pending t [])"
  proof
    assume "static_at t x \<in> set (pending t [])"
    then obtain y where "y \<in> X" "base + static_offset x = base + static_offset y" using t by (auto simp: static_at_def)
    then show False using x(2) static_offset_inj [of x y] by simp
  qed
  have "static_ready False t x" using t x(1) by (auto simp: below_limit_iff)
  from run_job_inv [OF conjunct1 [OF t] x(1) free this] show ?thesis
  proof (rule safe_bind)
    fix r :: "bool \<times> sched" assume "case r of (err, u) \<Rightarrow> sched_inv False os 0 u [] [] \<and> wj_page_id (writer u) = wj_page_id (writer t) \<and>
      ctx_base u = ctx_base t \<and> set (pending u []) \<subseteq> insert (static_at t x) (set (pending t []))"
    then have "started os base (insert x X) (snd r)"
      using t by (auto simp: started_def static_at_def)
    from f [OF this, of "fst r"] show "safe (f r) Q" by simp
  qed
qed

lemma main_init_inv:
  assumes z: "zero_globals s" "malloc_ok os (ctx_base s)"
  shows "safe (main_init os s argc ret fd mem trace_fd m) (\<lambda>t. at_rest False os t [])"
proof -
  have runs: "safe (bind_res (run_job os t Op_writer) (\<lambda>(err, s).
             bind_res (run_job os s Op_reader) (\<lambda>(err, s).
             bind_res (run_job os s Op_flusher) (\<lambda>(err, s).
             bind_res (run_job os s Op_tracing) (\<lambda>(err, s).
             bind_res (run_job os s Op_status) (\<lambda>(err, s). Inr s)))))) (\<lambda>t. at_rest False os t [])"
    if "started os (ctx_base s) {} t" for t
    by (rule started_run [OF that], simp, simp, simp only: prod.case,
        (rule started_run, assumption, simp, simp, simp only: prod.case)+) (auto simp: started_def at_rest_def)
  have start: "safe (bind_res (background_tracing_init os u trace_fd m) (\<lambda>s.
             bind_res (background_status_init os s) (\<lambda>s.
             bind_res (run_job os s Op_writer) (\<lambda>(err, s).
             bind_res (run_job os s Op_reader) (\<lambda>(err, s).
             bind_res (run_job os s Op_flusher) (\<lambda>(err, s).
             bind_res (run_job os s Op_tracing) (\<lambda>(err, s).
             bind_res (run_job os s Op_status) (\<lambda>(err, s). Inr s)))))))) (\<lambda>t. at_rest False os t [])"
    if b: "stats_ready b" and u: "u = background_flusher_init (background_reader_init (background_writer_init
        (s\<lparr>bg := b\<rparr>) fd') fd') fd'" for b u and fd' :: u32
  proof -
    have started: "started os (ctx_base s) {} t" if "t = u\<lparr>tracing := tr, calls := k, status := st\<rparr>"
      "job_callback (tj_inner tr) = Some Background_tracing" "job_callback (sj_inner st) = Some Background_status" for t k tr st
    proof -
      have "sched_inv False os 0 t [] []"
        by (rule init_jobs_inv [OF z b, of t fd']) (simp_all add: that u background_writer_init_def
            background_reader_init_def background_flusher_init_def)
      then show ?thesis using z(1) by (simp add: started_def that u background_writer_init_def
            background_reader_init_def background_flusher_init_def pending_def zero_globals_def)
    qed
    show ?thesis
      unfolding background_tracing_init_def background_status_init_def
      by (auto simp: bind_res_assoc bind_assert_res case_prod_beta' init_job_def job_set_stopped_def cbuf_init_def Let_def
          intro!: clock_safe runs [unfolded case_prod_beta'] started [OF refl])
  qed
  show ?thesis
    unfolding main_init_def
    by (auto simp: Let_def intro!: safe_bind [OF stats_init_ready] start)
qed

end
