(* ===== verification/Sched_Samples.thy ===== *)
theory Sched_Samples
  imports Sched_System
begin

text \<open>Concrete states of the scheduler, for the applications of its properties.\<close>

definition sample_mapping :: mapping where
  "sample_mapping = \<lparr>map_fd = 5, map_buf = 1048576, map_first = 1048576, map_second = 1052672\<rparr>"

definition sample_os :: os where
  "sample_os = \<lparr>os_malloc = (\<lambda>n h. let a = 65536 + 64 * of_nat n in if n < 1000 \<and> h a = None then a else 0),
     os_clock = (\<lambda>n. Some \<lparr>tv_sec = 0, tv_nsec = 1000 * of_nat n\<rparr>), os_get_sqe = (\<lambda>_. True)\<rparr>"

lemma sample_malloc_ok: "malloc_ok sample_os 4096"
proof -
  have "unat (65536 + 64 * of_nat n :: u64) = 65536 + 64 * n" if "n < 1000" for n
  proof -
    have "unat (64 * of_nat n :: u64) = 64 * n" using that by (simp add: unat_mult_lem [THEN iffD1] unat_of_nat_nowrap)
    then show ?thesis using that by (simp add: unat_simps)
  qed
  note u = this
  have ne: "65536 + 64 * of_nat n \<noteq> 4096 + static_offset x" if "n < 1000" for n x
  proof -
    have "unat (4096 + static_offset x) \<le> 4416" by (cases x) simp_all
    then have "unat (65536 + 64 * of_nat n :: u64) \<noteq> unat (4096 + static_offset x)" using u [OF that] by linarith
    then show ?thesis by metis
  qed
  show ?thesis
    using u ne ne [THEN not_sym] by (auto simp: malloc_ok_def sample_os_def Let_def)
qed

definition zero_time :: timespec where "zero_time = \<lparr>tv_sec = 0, tv_nsec = 0\<rparr>"
definition zero_job :: op_job where "zero_job = \<lparr>job_callback = None, job_ts = zero_time, job_running = False\<rparr>"
definition zero_bucket :: stats_bucket where
  "zero_bucket = \<lparr>sb_buf = [], sb_acc_time = 0, sb_acc_val = 0, sb_len = 0, sb_idx = 0\<rparr>"

definition sample_zero :: sched where
  "sample_zero = \<lparr>
     writer = \<lparr>wj_inner = zero_job, wj_buf = Heap_buf 0, wj_fd = 0, wj_page_id = 0, wj_batch_size = 0,
       wj_written_no_flush = 0, wj_write_done = 0, wj_inflight = 0\<rparr>,
     reader = \<lparr>rj_inner = zero_job, rj_fd = 0, rj_page_id = 0, rj_batch_size = 0, rj_read_done = 0, rj_inflight = 0\<rparr>,
     flusher = \<lparr>fj_inner = zero_job, fj_op_fsync = \<lparr>fs_callback = None, fs_issued = zero_time\<rparr>,
       fj_write_list = \<lparr>wl_tail = 0, wl_head = 0\<rparr>, fj_fd = 0, fj_page_id = 0, fj_inflight = 0\<rparr>,
     status = \<lparr>sj_inner = zero_job, sj_last_time = zero_time\<rparr>,
     tracing = \<lparr>tj_inner = zero_job, tj_start_time = zero_time, tj_cbuf = cbuf_reset 40 64, tj_trace_done = 0,
       tj_trace_synced = 0, tj_dump_op = \<lparr>td_callback = None, td_fd = 0, td_to_write = 0, td_items = 0, td_inflight = 0\<rparr>\<rparr>,
     page_id_check_order = 0,
     bg = \<lparr>write_count_stats = zero_bucket, read_count_stats = zero_bucket, write_latency_stats = zero_bucket,
       read_latency_stats = zero_bucket, fsync_latency_stats = zero_bucket, fsync_count_stats = zero_bucket\<rparr>,
     read_mem = (\<lambda>_. 0), op_heap = Map.empty, sq = [], ctx_base = 4096,
     printed = \<lparr>fsync_calls = [], status_lines = []\<rparr>, calls = \<lparr>mallocs = 0, clocks = 0, sqes = 0\<rparr>\<rparr>"

lemma sample_zero_globals: "zero_globals sample_zero" "ctx_base sample_zero = 4096"
  by (simp_all add: zero_globals_def sample_zero_def ctx_ok_def)

text \<open>Running jobs, and nothing written.\<close>

definition sample_bucket :: stats_bucket where
  "sample_bucket = \<lparr>sb_buf = replicate 7 \<lparr>item_val = 0, item_elapsed = 0\<rparr>, sb_acc_time = 0, sb_acc_val = 0, sb_len = 7, sb_idx = 0\<rparr>"

lemma sample_bucket_ok: "stats_ok sample_bucket"
  by (simp add: stats_ok_def sample_bucket_def sum_list_replicate)

definition sample_job :: "op_callback_t \<Rightarrow> op_job" where
  "sample_job c = \<lparr>job_callback = Some c, job_ts = zero_time, job_running = True\<rparr>"

definition sample_idle :: sched where
  "sample_idle = sample_zero\<lparr>
     writer := (writer sample_zero)\<lparr>wj_inner := sample_job Background_writer, wj_buf := Write_buf\<rparr>,
     reader := (reader sample_zero)\<lparr>rj_inner := sample_job Background_reader\<rparr>,
     flusher := (flusher sample_zero)\<lparr>fj_inner := sample_job Background_flusher\<rparr>,
     status := (status sample_zero)\<lparr>sj_inner := sample_job Background_status\<rparr>,
     tracing := (tracing sample_zero)\<lparr>tj_inner := sample_job Background_tracing\<rparr>,
     bg := \<lparr>write_count_stats = sample_bucket, read_count_stats = sample_bucket, write_latency_stats = sample_bucket,
       read_latency_stats = sample_bucket, fsync_latency_stats = sample_bucket, fsync_count_stats = sample_bucket\<rparr>\<rparr>"

lemma sample_idle_inv: "sched_inv g sample_os 0 sample_idle [] []"
  using sample_malloc_ok
  by (simp add: sched_inv_def sample_idle_def sample_zero_def sample_job_def ctx_ok_def heap_ok_def jobs_ready_def
      stats_ready_def sample_bucket_ok pending_def list_ok_nil counters_ok_def)

text \<open>One page is being written, with the operation at 65536.\<close>

definition sample_write_op :: op_page_write where
  "sample_write_op = \<lparr>pw_callback = Some Page_written, pw_page_id = 0, pw_user_fsync_callback = 0, pw_next = 0, pw_issued = zero_time\<rparr>"

definition sample_writing :: sched where
  "sample_writing = sample_idle\<lparr>
     writer := (writer sample_idle)\<lparr>wj_page_id := 1, wj_batch_size := 1, wj_inflight := 1\<rparr>,
     op_heap := [65536 \<mapsto> Write_op sample_write_op]\<rparr>"

lemma sample_heap_addr: "static_of sample_writing 65536 = None"
  unfolding static_of_None
proof
  fix x show "static_at sample_writing x \<noteq> 65536"
    by (cases x) (simp_all add: static_at_def sample_writing_def sample_idle_def sample_zero_def)
qed

lemma sample_writing_inv: "sched_inv False sample_os 1 sample_writing [65536] []"
  using sample_malloc_ok sample_heap_addr
  by (simp add: sched_inv_def sample_writing_def sample_idle_def sample_zero_def sample_job_def ctx_ok_def heap_ok_def jobs_ready_def
      stats_ready_def sample_bucket_ok pending_def list_ok_nil counters_ok_def op_ready_def sample_write_op_def)

end
