(* ===== verification/Sched_Run.thy ===== *)
theory Sched_Run
  imports Sched_Samples
begin

text \<open>
  What the operations do, beyond the invariant: the start of the jobs, the requests that the
  ticks queue, one written page, the elapsed time, and the main loop as steps of the system.
\<close>

section \<open>The start of the jobs\<close>

lemma run_job_eq:
  assumes "ctx_ok (ctx_base s)" "job_callback (static_job s x) = Some c" "set_static_callback s x (Some c) = s"
    "os_get_sqe os (sqes (calls s))" "x \<in> {Op_writer, Op_reader, Op_status, Op_tracing, Op_flusher}"
  shows "run_job os s x = Inr (False, set_job (enqueue s (static_at s x) (Prep_timeout (job_ts (static_job s x)))) x
    ((static_job s x)\<lparr>job_running := True\<rparr>))"
proof -
  have "static_job (enqueue s a r) x = static_job s x" for a r using assms(5) by (auto simp: static_job_def)
  then show ?thesis using resend_static [OF assms(1-3)] assms(4) by (simp add: run_job_def)
qed

lemma stats_init_True: "\<exists>b. stats_init_all True = Inr b"
  by (simp add: stats_init_all_def stats_bucket_init_def)

lemmas sched_constants = TRACING_BUF_LEN_def INFLIGHT_LOW_RANGE_def INFLIGHT_HIGH_RANGE_def BACKGROUND_STATUS_MS_def
  SPEEDTEST_RANGE_MS_def WRITE_TIMEOUT_MS_def READ_TIMEOUT_MS_def BACKGROUND_FLUSH_MS_def BACKGROUND_TRACING_MS_def time_units

lemmas job_inits = background_writer_init_def background_reader_init_def background_flusher_init_def
  background_tracing_init_def background_status_init_def init_job_def job_set_stopped_def

lemma ring_size: "cbuf_sz (cbuf_reset sizeof_tracing_item TRACING_BUF_LEN) = 4096"
proof -
  have "unat (cbuf_sz (cbuf_reset sizeof_tracing_item TRACING_BUF_LEN)) = 4096"
    using cbuf_reset_size(1) [of TRACING_BUF_LEN sizeof_tracing_item] by (simp add: TRACING_BUF_LEN_def sizeof_tracing_item_def)
  then show ?thesis by (simp add: word_unat_eq_iff)
qed

lemma tracing_ring:
  assumes "map_fd m \<ge> 0" "map_buf m \<noteq> 0" "map_first m = map_buf m" "map_second m = map_buf m + 4096"
  shows "cbuf_init m sizeof_tracing_item TRACING_BUF_LEN = Inr (cbuf_reset sizeof_tracing_item TRACING_BUF_LEN)"
  using assms ring_size by (simp add: cbuf_init_def Let_def)

lemma main_run:
  assumes "ctx_ok (ctx_base s)" "sq s = []" "\<forall>n. os_clock os n \<noteq> None" "\<forall>n. os_get_sqe os n" "0 < tfd" "fd \<noteq> -1"
    and "map_fd m \<ge> 0" "map_buf m \<noteq> 0" "map_first m = map_buf m" "map_second m = map_buf m + 4096"
  shows "\<exists>t. main_init os s 2 0 fd True tfd m = Inr t \<and>
    sq t = map2 (\<lambda>x ms. \<lparr>sqe_user_data = static_at s x, sqe_req = Prep_timeout \<lparr>tv_sec = 0, tv_nsec = ms\<rparr>\<rparr>)
      [Op_writer, Op_reader, Op_flusher, Op_tracing, Op_status] [5000000, 100000000, 100000000, 10000000, 200000000] \<and>
    (\<forall>x\<in>{Op_writer, Op_reader, Op_status, Op_tracing, Op_flusher}. job_running (static_job t x)) \<and> ctx_base t = ctx_base s"
proof -
  obtain b where b: "stats_init_all True = Inr b" using stats_init_True by blast
  have c: "\<exists>t. os_clock os n = Some t" for n using assms(3) by auto
  obtain t0 t1 where t: "os_clock os (clocks (calls s)) = Some t0" "os_clock os (Suc (clocks (calls s))) = Some t1"
    using c by meson
  show ?thesis
    using assms(1,2,4-6) tracing_ring [OF assms(7-10)]
    by (simp add: main_init_def b Let_def clock_gettime_def t job_inits run_job_eq static_job_def enqueue_def sched_constants)
qed

section \<open>Requests of a batch\<close>

lemma issue_write_request:
  assumes "malloc_ok os (ctx_base s)"
  shows "safe (issue_write os s i) (\<lambda>t. same_ctx s t \<and> map sqe_req (sq t) = map sqe_req (sq s) @
    [Prep_write (wj_fd (writer s)) (wj_buf (writer s)) BUF_SIZE (BUF_SIZE * ucast (wj_page_id (writer s) + i))])"
  unfolding issue_write_def Let_def
  by (rule safe_bind [OF malloc_safe [OF assms]])
    (auto intro!: clock_safe simp: prepare_write enqueue_def same_ctx_def)

lemma issue_read_request:
  assumes "malloc_ok os (ctx_base s)"
  shows "safe (issue_read os s i) (\<lambda>t. same_ctx s t \<and> map sqe_req (sq t) = map sqe_req (sq s) @
    [Prep_read (rj_fd (reader s)) Read_buf BUF_SIZE (BUF_SIZE * ucast (rj_page_id (reader s) + i))])"
  unfolding issue_read_def Let_def
  by (rule safe_bind [OF malloc_safe [OF assms]])
    (auto intro!: clock_safe simp: prepare_read enqueue_def same_ctx_def)

lemma issue_batch_requests:
  assumes one: "\<And>s i. same_ctx u s \<Longrightarrow> safe (issue s i) (\<lambda>t. same_ctx s t \<and> map sqe_req (sq t) = map sqe_req (sq s) @ [req i])"
  shows "same_ctx u s \<Longrightarrow> safe (issue_batch issue s i n) (\<lambda>t. same_ctx u t \<and>
    map sqe_req (sq t) = map sqe_req (sq s) @ map (\<lambda>k. req (i + of_nat k)) [0..<n])"
proof (induction n arbitrary: s i)
  case (Suc n)
  show ?case unfolding issue_batch.simps
  proof (rule safe_bind [OF one [OF Suc.prems]])
    fix t assume t: "same_ctx s t \<and> map sqe_req (sq t) = map sqe_req (sq s) @ [req i]"
    then have "same_ctx u t" using Suc.prems same_ctx_trans by blast
    from Suc.IH [OF this, of "i + 1"]
    show "safe (issue_batch issue t (i + 1) n) (\<lambda>t. same_ctx u t \<and>
        map sqe_req (sq t) = map sqe_req (sq s) @ map (\<lambda>k. req (i + of_nat k)) [0..<Suc n])"
      by (rule safe_weaken) (use t in \<open>auto simp: upt_conv_Cons map_Suc_upt [symmetric] add.assoc simp del: upt_Suc\<close>)
  qed
qed simp

text \<open>The end of a tick: the timeout is queued again, or the job stops.\<close>

lemma resend_request:
  assumes "ctx_ok (ctx_base s)" "job_callback (static_job s x) = Some c" "set_static_callback s x (Some c) = s"
  shows "safe (resend os s x) (\<lambda>t. same_ctx s t \<and> map sqe_req (sq t) = map sqe_req (sq s) @ [Prep_timeout (job_ts (static_job s x))])"
  using resend_static [OF assms] by (simp add: resend_def enqueue_def same_ctx_def)

section \<open>Time\<close>

definition nanos :: "timespec \<Rightarrow> nat" where
  "nanos t = unat (tv_sec t) * 1000000000 + unat (tv_nsec t)"

lemma elapsed_ns_nanos: "elapsed_ns now issued = of_nat (nanos now) - of_nat (nanos issued)"
  by (simp add: elapsed_ns_def nanos_def time_units algebra_simps)

lemma unat_elapsed_ns:
  assumes "nanos issued \<le> nanos now" "nanos now < 2 ^ 64"
  shows "unat (elapsed_ns now issued) = nanos now - nanos issued"
  using assms by (simp add: elapsed_ns_nanos unat_simps unat_of_nat_nowrap)

section \<open>The main loop\<close>

text \<open>The completions \<open>cs\<close> take their requests out of \<open>K\<close> and leave \<open>K'\<close>.\<close>

inductive reaped :: "io_uring_sqe list \<Rightarrow> (u64 \<times> int) list \<Rightarrow> io_uring_sqe list \<Rightarrow> bool" where
  reaped_Nil: "reaped K [] K"
| reaped_Cons: "reaped (K1 @ K2) cs K' \<Longrightarrow> reaped (K1 @ e # K2) ((sqe_user_data e, r) # cs) K'"

inductive_simps reaped_Nil_simp: "reaped K [] K'"
inductive_cases reaped_ConsE: "reaped K ((a, r) # cs) K'"

lemma completions_steps:
  "reaped K cs K' \<Longrightarrow> run_res (\<lambda>s (user_data, r). io_cqe os s user_data r) s cs = Inr t \<Longrightarrow>
     sys_step\<^sup>*\<^sup>* \<lparr>sys_os = os, sys_app = s, sys_kernel = K\<rparr> \<lparr>sys_os = os, sys_app = t, sys_kernel = K'\<rparr>"
proof (induction arbitrary: s rule: reaped.induct)
  case (reaped_Nil K)
  then show ?case by simp
next
  case (reaped_Cons K1 K2 cs K' e r)
  then obtain u where u: "io_cqe os s (sqe_user_data e) r = Inr u"
      "run_res (\<lambda>s (user_data, r). io_cqe os s user_data r) u cs = Inr t"
    by (auto simp: bind_res_Inr_iff)
  have "sys_step \<lparr>sys_os = os, sys_app = s, sys_kernel = K1 @ e # K2\<rparr> \<lparr>sys_os = os, sys_app = u, sys_kernel = K1 @ K2\<rparr>"
    using sys_step.complete [of "\<lparr>sys_os = os, sys_app = s, sys_kernel = K1 @ e # K2\<rparr>" K1 e K2 r u] u(1) by simp
  then show ?case using reaped_Cons.IH [OF u(2)] by (rule converse_rtranclp_into_rtranclp)
qed

lemma main_round_steps:
  assumes "main_round os s submitted ret cqes = Inr (leave, t)"
    and "if ret \<ge> 0 then reaped (K @ sq s) cqes K' else K' = K @ sq s"
  shows "sys_step\<^sup>*\<^sup>* \<lparr>sys_os = os, sys_app = s, sys_kernel = K\<rparr> \<lparr>sys_os = os, sys_app = t, sys_kernel = K'\<rparr>"
    "leave \<longleftrightarrow> jobs_finished t \<and> \<not> job_running (tj_inner (tracing t))"
proof -
  let ?u = "s\<lparr>sq := []\<rparr>"
  obtain n where tick: "io_tick os ?u ret cqes = Inr (n, t)" "n \<ge> 0"
      and leave: "leave \<longleftrightarrow> jobs_finished t \<and> \<not> job_running (tj_inner (tracing t))"
    using assms(1) by (auto simp: main_round_def assert_res_Inr_iff bind_res_Inr_iff)
  show "leave \<longleftrightarrow> jobs_finished t \<and> \<not> job_running (tj_inner (tracing t))" by (rule leave)
  have sub: "sys_step \<lparr>sys_os = os, sys_app = s, sys_kernel = K\<rparr> \<lparr>sys_os = os, sys_app = ?u, sys_kernel = K @ sq s\<rparr>"
    using sys_step.submit [of "\<lparr>sys_os = os, sys_app = s, sys_kernel = K\<rparr>"] by simp
  have rest: "sys_step\<^sup>*\<^sup>* \<lparr>sys_os = os, sys_app = ?u, sys_kernel = K @ sq s\<rparr> \<lparr>sys_os = os, sys_app = t, sys_kernel = K'\<rparr>"
  proof (cases "ret \<ge> 0")
    case True
    then have "run_res (\<lambda>s (user_data, r). io_cqe os s user_data r) ?u cqes = Inr t"
      using tick by (auto simp: io_tick_def ETIME_def bind_res_Inr_iff)
    with completions_steps True assms(2) show ?thesis by simp
  next
    case False
    then have "t = ?u" using tick by (auto simp: io_tick_def split: if_splits)
    with False assms(2) show ?thesis by simp
  qed
  from converse_rtranclp_into_rtranclp [of sys_step, OF sub rest]
  show "sys_step\<^sup>*\<^sup>* \<lparr>sys_os = os, sys_app = s, sys_kernel = K\<rparr> \<lparr>sys_os = os, sys_app = t, sys_kernel = K'\<rparr>" .
qed

end
