(* ===== verification/Sched_Properties.thy ===== *)
theory Sched_Properties
  imports Sched_Run
begin

text \<open>The properties of the scheduler, with their applications.\<close>

interpretation scheduler: transition_invariant sys_start sys_step "sys_inv False"
proof
  fix \<sigma> \<tau>
  show "sys_inv False \<sigma>" if st: "sys_start \<sigma>"
  proof -
    obtain s argc ret fd mem trace_fd m where z: "zero_globals s" "malloc_ok (sys_os \<sigma>) (ctx_base s)"
        "main_init (sys_os \<sigma>) s argc ret fd mem trace_fd m = Inr (sys_app \<sigma>)" "sys_kernel \<sigma> = []"
      using st unfolding sys_start_def by blast
    show ?thesis using main_init_inv [OF z(1,2), of argc ret fd mem trace_fd m] z(3,4) by (simp add: sys_inv_def)
  qed
  show "sys_inv False \<tau>" if "sys_inv False \<sigma>" "sys_step \<sigma> \<tau>" using sys_step_inv [OF that] .
qed

text \<open>The same for the states in which the tracing job is stuck.\<close>

interpretation stuck: transition_invariant "sys_inv True" sys_step "sys_inv True"
  by unfold_locales (auto intro: sys_step_inv)

section \<open>Start\<close>

text \<open>C34. \<open>main\<close> with two arguments, opened files, a mapped ring and a working clock and queue starts the five
  jobs: all of them run, and the queue holds their timeouts, in the order of the calls and with
  the intervals of scheduler.h.\<close>
theorem main_starts_jobs:
  assumes "ctx_ok (ctx_base s)" "sq s = []" "\<forall>n. os_clock os n \<noteq> None" "\<forall>n. os_get_sqe os n" "0 < tfd" "fd \<noteq> -1"
    and "map_fd m \<ge> 0" "map_buf m \<noteq> 0" "map_first m = map_buf m" "map_second m = map_buf m + 4096"
  shows "\<exists>t. main_init os s 2 0 fd True tfd m = Inr t \<and>
    sq t = map2 (\<lambda>x ms. \<lparr>sqe_user_data = static_at s x, sqe_req = Prep_timeout \<lparr>tv_sec = 0, tv_nsec = ms\<rparr>\<rparr>)
      [Op_writer, Op_reader, Op_flusher, Op_tracing, Op_status] [5000000, 100000000, 100000000, 10000000, 200000000] \<and>
    (\<forall>x\<in>{Op_writer, Op_reader, Op_status, Op_tracing, Op_flusher}. job_running (static_job t x))"
  using main_run [OF assms] by (elim exE conjE, intro exI conjI)

lemma main_starts_jobs_witness:
  "\<exists>t. main_init sample_os sample_zero 2 0 3 True 4 sample_mapping = Inr t \<and> length (sq t) = 5 \<and> job_running (tj_inner (tracing t))"
  using main_starts_jobs [of sample_zero sample_os 4 3 sample_mapping]
  by (auto simp: sample_zero_def sample_os_def sample_mapping_def ctx_ok_def static_job_def)

lemma sample_start: "\<exists>\<sigma>. sys_start \<sigma> \<and> sys_kernel \<sigma> = [] \<and> length (sq (sys_app \<sigma>)) = 5"
proof -
  obtain t where t: "main_init sample_os sample_zero 2 0 3 True 4 sample_mapping = Inr t" "length (sq t) = 5"
    using main_run [of sample_zero sample_os 4 3 sample_mapping] by (auto simp: sample_zero_def sample_os_def sample_mapping_def ctx_ok_def)
  have "malloc_ok sample_os (ctx_base sample_zero)" using sample_malloc_ok sample_zero_globals(2) by simp
  then have "sys_start \<lparr>sys_os = sample_os, sys_app = t, sys_kernel = []\<rparr>"
    unfolding sys_start_def
    by (intro conjI exI) (rule sample_zero_globals(1), simp, simp, rule t(1), simp)
  then show ?thesis using t(2) by (intro exI conjI) auto
qed

section \<open>Reachable states\<close>

text \<open>C1. In every reachable state of the program and the kernel, whatever the order and the
  results of the completions: the reader is behind the flusher, the flusher behind the completed
  writes, those behind the issued ones, and no page id wraps around; \<open>written_no_flush\<close> and
  \<open>inflight\<close> (modulo 256) are the differences of those counters; and the linked list of
  \<open>flusher_job\<close> holds exactly the pages written and not yet flushed, in page order.\<close>
theorem scheduler_invariant:
  assumes "sys_start \<sigma>" "sys_step\<^sup>*\<^sup>* \<sigma> \<tau>" "s = sys_app \<tau>"
  shows "unat (rj_page_id (reader s)) \<le> unat (fj_page_id (flusher s)) \<and>
    unat (fj_page_id (flusher s)) \<le> unat (page_id_check_order s) \<and>
    unat (page_id_check_order s) \<le> unat (wj_page_id (writer s)) \<and> unat (wj_page_id (writer s)) \<le> 49150 \<and>
    unat (wj_written_no_flush (writer s)) = unat (page_id_check_order s) - unat (fj_page_id (flusher s)) \<and>
    unat (wj_inflight (writer s)) = (unat (wj_page_id (writer s)) - unat (page_id_check_order s)) mod 256 \<and>
    (\<exists>L. wlist (op_heap s) (wl_tail (fj_write_list (flusher s))) L \<and> distinct L \<and>
       written_pages (op_heap s) L =
         map (\<lambda>i. Some (of_nat i)) [unat (fj_page_id (flusher s))..<unat (page_id_check_order s)])"
proof -
  obtain L where inv: "sched_inv False (sys_os \<tau>) (unat (wj_page_id (writer s))) s (map sqe_user_data (sys_kernel \<tau>)) L"
    using scheduler.reachable_inv [OF assms(1,2)] assms(3) by (auto simp: sys_inv_def at_rest_def)
  note p = inv_parts [OF inv]
  have "unat (of_nat n :: u8) = n mod 256" for n by (simp add: unsigned_of_nat take_bit_eq_mod)
  then have infl: "unat (wj_inflight (writer s)) = (unat (wj_page_id (writer s)) - unat (page_id_check_order s)) mod 256"
    using p(9) unfolding counters_ok_def by (metis (no_types))
  have "distinct L" using p(6) by simp
  with p(8) have "\<exists>L. wlist (op_heap s) (wl_tail (fj_write_list (flusher s))) L \<and> distinct L \<and>
       written_pages (op_heap s) L =
         map (\<lambda>i. Some (of_nat i)) [unat (fj_page_id (flusher s))..<unat (page_id_check_order s)]"
    unfolding list_ok_def by blast
  moreover have "unat (wj_written_no_flush (writer s)) = unat (page_id_check_order s) - unat (fj_page_id (flusher s))"
    using p(9) unfolding counters_ok_def by linarith
  ultimately show ?thesis using p(9) infl unfolding counters_ok_def by (intro conjI) simp_all
qed

text \<open>C2. Memory safety of the completions: in a reachable state the completion of any request
  the kernel holds, with any result, either finishes or stops in an \<open>ASSERT\<close>; no freed or
  foreign pointer is followed, no array is left, no division by zero, no endless walk.\<close>
theorem completions_safe:
  assumes "sys_start \<sigma>" "sys_step\<^sup>*\<^sup>* \<sigma> \<tau>" "e \<in> set (sys_kernel \<tau>)"
  shows "io_cqe (sys_os \<tau>) (sys_app \<tau>) (sqe_user_data e) r = Inl AssertFail \<or>
    (\<exists>s. io_cqe (sys_os \<tau>) (sys_app \<tau>) (sqe_user_data e) r = Inr s)"
proof -
  obtain K K' where K: "sys_kernel \<tau> = K @ e # K'" using assms(3) by (auto simp: in_set_conv_decomp)
  obtain L where "sched_inv False (sys_os \<tau>) (unat (wj_page_id (writer (sys_app \<tau>)))) (sys_app \<tau>) (map sqe_user_data (sys_kernel \<tau>)) L"
    using scheduler.reachable_inv [OF assms(1,2)] by (auto simp: sys_inv_def at_rest_def)
  then have "sched_inv False (sys_os \<tau>) (unat (wj_page_id (writer (sys_app \<tau>)))) (sys_app \<tau>)
      (sqe_user_data e # map sqe_user_data (K @ K')) L"
    by (rule inv_reorder) (simp add: K)
  from safe_cases [OF io_cqe_inv [OF this]] show ?thesis by blast
qed

text \<open>C16. Every operation is in flight at most once, and what is in flight has its counterpart in
  the state: an \<open>fsync\<close> or a dump only with its \<open>inflight\<close> flag, a page operation only while
  its memory is allocated.\<close>
theorem requests_unique:
  assumes "sys_start \<sigma>" "sys_step\<^sup>*\<^sup>* \<sigma> \<tau>" "s = sys_app \<tau>" "R = map sqe_user_data (sys_kernel \<tau> @ sq s)"
  shows "distinct R \<and> (static_at s Op_fsync \<in> set R \<longrightarrow> fj_inflight (flusher s) \<noteq> 0) \<and>
    (static_at s Op_dump \<in> set R \<longrightarrow> td_inflight (tj_dump_op (tracing s)) \<noteq> 0) \<and>
    (static_at s Op_writer \<in> set R \<longrightarrow> unat (wj_page_id (writer s)) < 32768) \<and>
    (\<forall>a \<in> set R. static_of s a = None \<longrightarrow> op_heap s a \<noteq> None)"
proof -
  obtain L where inv: "sched_inv False (sys_os \<tau>) (unat (wj_page_id (writer s))) s (map sqe_user_data (sys_kernel \<tau>)) L"
    using scheduler.reachable_inv [OF assms(1,2)] assms(3) by (auto simp: sys_inv_def at_rest_def)
  have R: "R = pending s (map sqe_user_data (sys_kernel \<tau>))" by (simp add: assms(4) pending_def)
  note rdy = inv_static_ready [OF inv, folded R]
  have "op_heap s a \<noteq> None" if "a \<in> set R" "static_of s a = None" for a
    using inv_parts(7) [OF inv, folded R, OF that(1)] that(2) by (metis op_ready_def object_ready.simps(3) option.case(1))
  moreover have "distinct R" using inv_parts(6) [OF inv, folded R] by simp
  ultimately show ?thesis using rdy [of Op_fsync] rdy [of Op_dump] rdy [of Op_writer] by (simp add: below_limit_iff)
qed

text \<open>C17. The types behind \<open>user_data\<close>: what a request in flight points to is an operation whose
  callback is the one for its struct, so the casts of the handlers (\<open>container_of\<close>) hold.  A job
  has its own tick, the \<open>fsync\<close> and the dump their completions, a block of memory is a write with
  \<open>page_written\<close> and a page id that was issued, or a read into \<open>read_buf\<close> with \<open>page_read\<close>.\<close>
theorem requests_typed:
  assumes "sys_start \<sigma>" "sys_step\<^sup>*\<^sup>* \<sigma> \<tau>" "s = sys_app \<tau>" "a \<in> set (map sqe_user_data (sys_kernel \<tau> @ sq s))"
  shows "a \<noteq> 0 \<and> unat a < 2 ^ 48 \<and>
    (case static_of s a of
       Some Op_writer \<Rightarrow> op_callback s a = Some Background_writer
     | Some Op_reader \<Rightarrow> op_callback s a = Some Background_reader
     | Some Op_status \<Rightarrow> op_callback s a = Some Background_status
     | Some Op_tracing \<Rightarrow> op_callback s a = Some Background_tracing
     | Some Op_flusher \<Rightarrow> op_callback s a = Some Background_flusher
     | Some Op_fsync \<Rightarrow> op_callback s a = Some File_synced
     | Some Op_dump \<Rightarrow> op_callback s a \<in> {Some Tracing_writed, Some Tracing_synced}
     | None \<Rightarrow> (\<exists>w. op_heap s a = Some (Write_op w) \<and> op_callback s a = Some Page_written \<and>
                   unat (pw_page_id w) < unat (wj_page_id (writer s))) \<or>
               (\<exists>r. op_heap s a = Some (Read_op r) \<and> op_callback s a = Some Page_read \<and> pr_buf r = Read_buf))"
proof -
  let ?hi = "unat (wj_page_id (writer s))"
  obtain L where inv: "sched_inv False (sys_os \<tau>) ?hi s (map sqe_user_data (sys_kernel \<tau>)) L"
    using scheduler.reachable_inv [OF assms(1,2)] assms(3) by (auto simp: sys_inv_def at_rest_def)
  note p = inv_parts [OF inv]
  have rdy: "op_ready False ?hi s a" using p(7) assms(4) by (simp add: pending_def)
  show ?thesis
  proof (cases "static_of s a")
    case None
    from rdy None have "object_ready ?hi (op_heap s a)" by (simp add: op_ready_def)
    then obtain x where x: "op_heap s a = Some x" "object_ready ?hi (Some x)" by (cases "op_heap s a") auto
    moreover have "a \<noteq> 0 \<and> unat a < 2 ^ 48" using p(3) x(1) by (auto simp: heap_ok_def)
    ultimately show ?thesis using None by (cases x) (simp_all add: op_callback_def)
  next
    case (Some x)
    then have a: "a = static_at s x" "op_callback s a = static_callback s x" by (auto simp: static_of_eq op_callback_def)
    moreover have "static_ready False s x" using rdy Some by (simp add: op_ready_def)
    ultimately show ?thesis
      using Some p(4) static_at_bound [OF p(1), of x] unfolding jobs_ready_def
      by (cases x) simp_all
  qed
qed

lemma sample_round: "\<exists>\<sigma> \<tau>. sys_start \<sigma> \<and> sys_step\<^sup>*\<^sup>* \<sigma> \<tau> \<and> length (sys_kernel \<tau>) = 5"
proof -
  obtain \<sigma> where s: "sys_start \<sigma>" "sys_kernel \<sigma> = []" "length (sq (sys_app \<sigma>)) = 5" using sample_start by blast
  from r_into_rtranclp [of sys_step, OF sys_step.submit [of \<sigma>]] s show ?thesis by (intro exI conjI) auto
qed

lemma scheduler_invariant_witness:
  "\<exists>\<sigma> \<tau>. sys_start \<sigma> \<and> sys_step\<^sup>*\<^sup>* \<sigma> \<tau> \<and> length (sys_kernel \<tau>) = 5 \<and>
     unat (fj_page_id (flusher (sys_app \<tau>))) \<le> unat (wj_page_id (writer (sys_app \<tau>)))"
proof -
  obtain \<sigma> \<tau> where s: "sys_start \<sigma>" "sys_step\<^sup>*\<^sup>* \<sigma> \<tau>" "length (sys_kernel \<tau>) = 5" using sample_round by blast
  from scheduler_invariant [OF s(1,2) refl] s show ?thesis by (intro exI conjI) auto
qed

lemma completions_safe_witness:
  "\<exists>(\<tau>::system) e. e \<in> set (sys_kernel \<tau>) \<and> (io_cqe (sys_os \<tau>) (sys_app \<tau>) (sqe_user_data e) (-62) = Inl AssertFail \<or>
    (\<exists>s. io_cqe (sys_os \<tau>) (sys_app \<tau>) (sqe_user_data e) (-62) = Inr s))"
proof -
  obtain \<sigma> \<tau> where s: "sys_start \<sigma>" "sys_step\<^sup>*\<^sup>* \<sigma> \<tau>" "length (sys_kernel \<tau>) = 5" using sample_round by blast
  then have "hd (sys_kernel \<tau>) \<in> set (sys_kernel \<tau>)" by (intro hd_in_set) auto
  from completions_safe [OF s(1,2) this, of "-62"] this show ?thesis by blast
qed

lemma requests_unique_witness:
  "\<exists>\<tau>::system. length (sys_kernel \<tau>) = 5 \<and> distinct (map sqe_user_data (sys_kernel \<tau> @ sq (sys_app \<tau>)))"
proof -
  obtain \<sigma> \<tau> where s: "sys_start \<sigma>" "sys_step\<^sup>*\<^sup>* \<sigma> \<tau>" "length (sys_kernel \<tau>) = 5" using sample_round by blast
  from requests_unique [OF s(1,2) refl refl] s(3) show ?thesis by blast
qed

lemma requests_typed_witness:
  "\<exists>(\<tau>::system) e. e \<in> set (sys_kernel \<tau>) \<and> sqe_user_data e \<noteq> 0 \<and> unat (sqe_user_data e) < 2 ^ 48"
proof -
  obtain \<sigma> \<tau> where s: "sys_start \<sigma>" "sys_step\<^sup>*\<^sup>* \<sigma> \<tau>" "length (sys_kernel \<tau>) = 5" using sample_round by blast
  then have e: "hd (sys_kernel \<tau>) \<in> set (sys_kernel \<tau>)" by (intro hd_in_set) auto
  then have "sqe_user_data (hd (sys_kernel \<tau>)) \<in> set (map sqe_user_data (sys_kernel \<tau> @ sq (sys_app \<tau>)))" by simp
  from requests_typed [OF s(1,2) refl this] e show ?thesis by blast
qed

section \<open>The main loop\<close>

text \<open>C32. A round of the main loop, with any number of completions of requests of the kernel, is
  a sequence of steps of the system, so every invariant of the reachable states holds after it;
  the loop is left exactly when none of writer, flusher, reader and tracing job runs.\<close>
theorem main_round_refines:
  assumes "main_round os s submitted ret cqes = Inr (leave, t)"
    and "if ret \<ge> 0 then reaped (K @ sq s) cqes K' else K' = K @ sq s"
  shows "sys_step\<^sup>*\<^sup>* \<lparr>sys_os = os, sys_app = s, sys_kernel = K\<rparr> \<lparr>sys_os = os, sys_app = t, sys_kernel = K'\<rparr> \<and>
    (leave \<longleftrightarrow> \<not> job_running (wj_inner (writer t)) \<and> \<not> job_running (fj_inner (flusher t)) \<and>
       \<not> job_running (rj_inner (reader t)) \<and> \<not> job_running (tj_inner (tracing t)))"
  using main_round_steps [OF assms] by (auto simp: jobs_finished_def)

lemma main_round_refines_witness:
  "sys_step\<^sup>*\<^sup>* \<lparr>sys_os = sample_os, sys_app = sample_idle, sys_kernel = []\<rparr>
     \<lparr>sys_os = sample_os, sys_app = sample_idle\<lparr>sq := []\<rparr>, sys_kernel = sq sample_idle\<rparr>"
proof -
  have "main_round sample_os sample_idle 0 (-62) [] = Inr (False, sample_idle\<lparr>sq := []\<rparr>)"
    by (simp add: main_round_def io_tick_def ETIME_def jobs_finished_def sample_idle_def sample_job_def)
  from main_round_refines [OF this, of "[]" "sq sample_idle"] show ?thesis by simp
qed

section \<open>The end of the program\<close>

text \<open>From a state in which the tick of the tracing job finds nothing to do.\<close>

lemma stuck_start:
  assumes inv: "sys_inv False \<sigma>" and K: "sys_kernel \<sigma> = K @ e # K'" "sqe_user_data e = static_at (sys_app \<sigma>) Op_tracing"
    and "hung (sys_app \<sigma>)"
  shows "sys_inv True (\<sigma>\<lparr>sys_kernel := K @ K'\<rparr>)"
proof -
  let ?s = "sys_app \<sigma>"
  obtain L where "sched_inv False (sys_os \<sigma>) (unat (wj_page_id (writer ?s))) ?s (map sqe_user_data (sys_kernel \<sigma>)) L"
    using inv by (auto simp: sys_inv_def at_rest_def)
  then have i: "sched_inv False (sys_os \<sigma>) (unat (wj_page_id (writer ?s))) ?s (static_at ?s Op_tracing # map sqe_user_data (K @ K')) L"
    by (rule inv_reorder) (simp add: K)
  note p = inv_parts [OF inv_drop [OF i]] and free = head_not_pending [OF i]
  have "op_ready True (unat (wj_page_id (writer ?s))) ?s a" if a: "a \<in> set (pending ?s (map sqe_user_data (K @ K')))" for a
  proof (cases "static_of ?s a")
    case None
    then show ?thesis using p(7) [OF a] by (simp add: op_ready_def)
  next
    case (Some x)
    then have "x \<noteq> Op_tracing" using a free by (auto simp: static_of_eq)
    then show ?thesis using p(7) [OF a] Some by (cases x) (simp_all add: op_ready_def)
  qed
  then have "sched_inv True (sys_os \<sigma>) (unat (wj_page_id (writer ?s))) ?s (map sqe_user_data (K @ K')) L"
    using p(1-6,8,9) assms(4) by (simp add: sched_inv_def)
  then show ?thesis by (auto simp: sys_inv_def at_rest_def)
qed

lemma stuck_running: "sys_inv True \<tau> \<Longrightarrow> job_running (tj_inner (tracing (sys_app \<tau>)))"
  by (auto simp: sys_inv_def at_rest_def sched_inv_def)

lemma idle_tick:
  assumes "jobs_finished s" "td_inflight (tj_dump_op (tracing s)) = 0" "cbuf_is_empty (tj_cbuf (tracing s))"
    "cbuf_len (tj_cbuf (tracing s)) \<noteq> 0"
  shows "background_tracing os s (static_at s Op_tracing) = Inr s"
proof -
  let ?c = "tj_cbuf (tracing s)"
  have "\<not> cbuf_len ?c \<le> cbuf_len ?c div 2"
    using assms(4) unat_gt_0 [of "cbuf_len ?c"] by (simp add: word_le_nat_alt unat_div)
  then show ?thesis
    using assms
    by (simp add: background_tracing_def dump_tracing_items_def cbuf_put_def cbuf_get_def cbuf_free_count_def
        cbuf_used_count_def cbuf_is_empty_def)
qed

text \<open>The program may never end.  When the writer, the reader and the flusher have finished
  and the tick of the tracing job finds its ring empty and no dump in flight, the tick changes
  nothing: it neither sends the job again nor stops it.  From then on, in every reachable state,
  the tracing job counts as running, so no round of the main loop leaves it.\<close>
lemma tracing_never_stops:
  assumes inv: "sys_inv False \<sigma>" "sys_kernel \<sigma> = K @ e # K'" "sqe_user_data e = static_at (sys_app \<sigma>) Op_tracing"
    and fin: "jobs_finished (sys_app \<sigma>)" "job_running (tj_inner (tracing (sys_app \<sigma>)))"
      "td_inflight (tj_dump_op (tracing (sys_app \<sigma>))) = 0" "cbuf_is_empty (tj_cbuf (tracing (sys_app \<sigma>)))"
      "cbuf_len (tj_cbuf (tracing (sys_app \<sigma>))) \<noteq> 0"
  shows "background_tracing (sys_os \<sigma>) (sys_app \<sigma>) (sqe_user_data e) = Inr (sys_app \<sigma>) \<and>
    (\<forall>\<tau>. sys_step\<^sup>*\<^sup>* (\<sigma>\<lparr>sys_kernel := K @ K'\<rparr>) \<tau> \<longrightarrow> job_running (tj_inner (tracing (sys_app \<tau>))) \<and>
       (\<forall>submitted ret cqes leave t K''. main_round (sys_os \<tau>) (sys_app \<tau>) submitted ret cqes = Inr (leave, t) \<longrightarrow>
          (if ret \<ge> 0 then reaped (sys_kernel \<tau> @ sq (sys_app \<tau>)) cqes K'' else K'' = sys_kernel \<tau> @ sq (sys_app \<tau>)) \<longrightarrow>
          \<not> leave))"
proof -
  have tick: "background_tracing (sys_os \<sigma>) (sys_app \<sigma>) (sqe_user_data e) = Inr (sys_app \<sigma>)"
    using idle_tick [OF fin(1,3-5)] assms(3) by simp
  have start: "sys_inv True (\<sigma>\<lparr>sys_kernel := K @ K'\<rparr>)" using stuck_start [OF inv] fin(2,3) by simp
  have "\<not> leave"
    if "sys_inv True \<tau>" "main_round (sys_os \<tau>) (sys_app \<tau>) submitted ret cqes = Inr (leave, t)"
      "if ret \<ge> 0 then reaped (sys_kernel \<tau> @ sq (sys_app \<tau>)) cqes K'' else K'' = sys_kernel \<tau> @ sq (sys_app \<tau>)"
    for \<tau> :: system and submitted ret cqes leave t K''
  proof -
    have "sys_inv True \<lparr>sys_os = sys_os \<tau>, sys_app = t, sys_kernel = K''\<rparr>"
      using stuck.steps_inv [OF main_round_steps(1) [OF that(2,3)]] that(1) by (simp add: sys_inv_def)
    then show ?thesis using stuck_running main_round_steps(2) [OF that(2,3)] by fastforce
  qed
  then show ?thesis using tick stuck.steps_inv [OF _ start] stuck_running by blast
qed

definition sample_stuck :: system where
  "sample_stuck = \<lparr>sys_os = sample_os, sys_app = sample_idle\<lparr>
       writer := (writer sample_idle)\<lparr>wj_inner := (sample_job Background_writer)\<lparr>job_running := False\<rparr>\<rparr>,
       reader := (reader sample_idle)\<lparr>rj_inner := (sample_job Background_reader)\<lparr>job_running := False\<rparr>\<rparr>,
       flusher := (flusher sample_idle)\<lparr>fj_inner := (sample_job Background_flusher)\<lparr>job_running := False\<rparr>\<rparr>\<rparr>,
     sys_kernel = [\<lparr>sqe_user_data = 4264, sqe_req = Prep_timeout zero_time\<rparr>]\<rparr>"

lemma sample_stuck_inv: "sys_inv False sample_stuck" "static_at (sys_app sample_stuck) Op_tracing = 4264"
proof -
  show at: "static_at (sys_app sample_stuck) Op_tracing = 4264"
    by (simp add: static_at_def sample_stuck_def sample_idle_def sample_zero_def)
  have "sched_inv False sample_os 0 (sys_app sample_stuck) [] []"
    using sample_malloc_ok
    by (simp add: sched_inv_def sample_stuck_def sample_idle_def sample_zero_def sample_job_def ctx_ok_def heap_ok_def jobs_ready_def
        stats_ready_def sample_bucket_ok pending_def list_ok_nil counters_ok_def)
  then have "sched_inv False sample_os 0 (sys_app sample_stuck) [static_at (sys_app sample_stuck) Op_tracing] []"
    by (rule inv_add) (simp_all add: pending_def sample_stuck_def sample_idle_def sample_zero_def)
  then show "sys_inv False sample_stuck"
    unfolding at sys_inv_def at_rest_def
    by (intro exI) (simp add: sample_stuck_def sample_idle_def sample_zero_def)
qed

lemma tracing_never_stops_witness:
  "background_tracing sample_os (sys_app sample_stuck) 4264 = Inr (sys_app sample_stuck) \<and>
   job_running (tj_inner (tracing (sys_app sample_stuck)))"
proof -
  have k: "sys_kernel sample_stuck = [] @ \<lparr>sqe_user_data = 4264, sqe_req = Prep_timeout zero_time\<rparr> # []"
    "sys_os sample_stuck = sample_os" by (simp_all add: sample_stuck_def)
  have f: "jobs_finished (sys_app sample_stuck)" "job_running (tj_inner (tracing (sys_app sample_stuck)))"
      "td_inflight (tj_dump_op (tracing (sys_app sample_stuck))) = 0" "cbuf_is_empty (tj_cbuf (tracing (sys_app sample_stuck)))"
      "cbuf_len (tj_cbuf (tracing (sys_app sample_stuck))) \<noteq> 0"
    by (simp_all add: sample_stuck_def sample_idle_def sample_zero_def sample_job_def jobs_finished_def cbuf_is_empty_def cbuf_reset_def)
  from tracing_never_stops [OF sample_stuck_inv(1) k(1) _ f] show ?thesis
    using sample_stuck_inv(2) k(2) rtranclp.rtrancl_refl [of sys_step] by auto
qed

end
