(* ===== verification/Sched_Effects.thy ===== *)
theory Sched_Effects
  imports Sched_System
begin

text \<open>
  What a handler that returns has changed: the page ids and flags of the jobs, the operations on
  the heap, and the requests it queued.
\<close>

section \<open>Operations on the heap\<close>

text \<open>The page of a write; a read has none.\<close>

fun op_page :: "op_object \<Rightarrow> u32 option" where
  "op_page (Write_op w) = Some (pw_page_id w)"
| "op_page (Read_op r) = None"

definition kind_at :: "op_heap \<Rightarrow> u64 \<Rightarrow> u32 option option" where
  "kind_at h a = map_option op_page (h a)"

lemma kind_at_None [simp]: "kind_at h a = None \<longleftrightarrow> h a = None"
  by (simp add: kind_at_def)

lemma kind_at_upd [simp]: "kind_at (h(a := x)) = (kind_at h)(a := map_option op_page x)"
  by (rule ext) (simp add: kind_at_def)

lemma kind_at_same: "h a = Some x \<Longrightarrow> op_page x = op_page y \<Longrightarrow> kind_at (h(a \<mapsto> y)) = kind_at h"
  by (rule ext) (simp add: kind_at_def)

definition queued :: "sched \<Rightarrow> u64 list" where
  "queued s = map sqe_user_data (sq s)"

lemma queued_frame [simp]:
  "queued (enqueue s a r) = queued s @ [a]" "queued (s\<lparr>calls := k\<rparr>) = queued s" "queued (s\<lparr>bg := b\<rparr>) = queued s"
  "queued (s\<lparr>writer := w\<rparr>) = queued s" "queued (s\<lparr>reader := rd\<rparr>) = queued s" "queued (s\<lparr>flusher := f\<rparr>) = queued s"
  "queued (s\<lparr>tracing := tr\<rparr>) = queued s" "queued (s\<lparr>status := st\<rparr>) = queued s" "queued (s\<lparr>op_heap := h\<rparr>) = queued s"
  "queued (s\<lparr>page_id_check_order := c\<rparr>) = queued s" "queued (s\<lparr>printed := p\<rparr>) = queued s"
  "queued (set_static_callback s x cb) = queued s"
  by (simp_all add: queued_def enqueue_def)

lemma pending_queued: "pending s A = A @ queued s"
  by (simp add: pending_def queued_def)

lemma clock_returns:
  "clock_gettime os s = Inr y \<longleftrightarrow>
     (\<exists>t. os_clock os (clocks (calls s)) = Some t \<and> y = (t, s\<lparr>calls := (calls s)\<lparr>clocks := clocks (calls s) + 1\<rparr>\<rparr>))"
  by (auto simp: clock_gettime_def Let_def split: option.splits)

section \<open>Page operations\<close>

lemma malloc_returns:
  assumes "malloc_ok os (ctx_base s)" "malloc_op os s x = Inr (a, t)"
  shows "op_heap s a = None" "unat a < 2 ^ 48" "static_of s a = None"
    "\<exists>k. t = s\<lparr>calls := k, op_heap := (op_heap s)(a \<mapsto> x)\<rparr>"
  using malloc_safe [OF assms(1), of x] assms(2) by auto

text \<open>The addresses \<open>as\<close> were allocated, for operations on the pages \<open>fs\<close>.\<close>

definition grown :: "sched \<Rightarrow> sched \<Rightarrow> u64 list \<Rightarrow> u32 option list \<Rightarrow> bool" where
  "grown s t as fs \<longleftrightarrow> map (kind_at (op_heap t)) as = map Some fs \<and>
     (\<forall>b. b \<notin> set as \<longrightarrow> kind_at (op_heap t) b = kind_at (op_heap s) b) \<and>
     (\<forall>a\<in>set as. op_heap s a = None \<and> static_of s a = None)"

lemma grown_upd [simp]:
  "grown s (t\<lparr>writer := w\<rparr>) as fs = grown s t as fs" "grown s (t\<lparr>reader := r\<rparr>) as fs = grown s t as fs"
  "grown s (enqueue t a rq) as fs = grown s t as fs"
  "grown (s\<lparr>writer := w\<rparr>) t as fs = grown s t as fs" "grown (s\<lparr>reader := r\<rparr>) t as fs = grown s t as fs"
  by (simp_all add: grown_def)

text \<open>\<open>n\<close> operations were created and queued; the k-th is for the page \<open>f (i + k)\<close>.\<close>

definition ops_issued :: "(u32 \<Rightarrow> u32 option) \<Rightarrow> sched \<Rightarrow> sched \<Rightarrow> u32 \<Rightarrow> nat \<Rightarrow> u64 list \<Rightarrow> bool" where
  "ops_issued f s t i n as \<longleftrightarrow> same_ctx s t \<and> queued t = queued s @ as \<and> grown s t as (map (\<lambda>k. f (i + of_nat k)) [0..<n])"

lemma ops_issued_0 [simp]: "ops_issued f s s i 0 []"
  by (simp add: ops_issued_def same_ctx_def grown_def)

lemma ops_issued_static: "ops_issued f s t i n as \<Longrightarrow> static_of t = static_of s"
  by (rule static_of_cong) (simp add: ops_issued_def same_ctx_def)

lemma ops_issued_Cons:
  assumes "ops_issued f s t i 1 [a]" "ops_issued f t u (i + 1) n as"
  shows "ops_issued f s u i (Suc n) (a # as)"
proof -
  note st = ops_issued_static [OF assms(1)]
  have a: "kind_at (op_heap t) a = Some (f i)" using assms(1) by (simp add: ops_issued_def grown_def)
  then have ta: "op_heap t a \<noteq> None" by (metis kind_at_None option.distinct(1))
  then have na: "a \<notin> set as" using assms(2) by (auto simp: ops_issued_def grown_def)
  have old: "op_heap s b = None" if "b \<in> set as" for b
  proof -
    have "kind_at (op_heap t) b = None" "b \<noteq> a" using that na assms(2) by (auto simp: ops_issued_def grown_def)
    then have "kind_at (op_heap s) b = None" using assms(1) unfolding ops_issued_def grown_def by (metis list.set(1) list.simps(15) singletonD)
    then show ?thesis by simp
  qed
  have k: "[0..<Suc n] = 0 # map Suc [0..<n]" by (simp add: map_Suc_upt upt_conv_Cons)
  show ?thesis
    using assms a na old st unfolding ops_issued_def grown_def
    by (auto simp: k add.assoc same_ctx_def simp del: upt_Suc)
qed

lemma issue_write_returns:
  assumes m: "malloc_ok os (ctx_base s)" and r: "issue_write os s i = Inr t"
  shows "\<exists>a. ops_issued (\<lambda>k. Some (wj_page_id (writer s) + k)) s t i 1 [a]"
proof -
  obtain a s1 where a: "malloc_op os s (Write_op \<lparr>pw_callback = None, pw_page_id = wj_page_id (writer s) + i,
        pw_user_fsync_callback = 0, pw_next = 0, pw_issued = \<lparr>tv_sec = 0, tv_nsec = 0\<rparr>\<rparr>) = Inr (a, s1)"
      (is "malloc_op os s ?x = _")
    using r by (auto simp: issue_write_def Let_def bind_res_Inr_iff)
  note new = malloc_returns [OF m a]
  then obtain k where k: "s1 = s\<lparr>calls := k, op_heap := (op_heap s)(a \<mapsto> ?x)\<rparr>" by blast
  have "ops_issued (\<lambda>k. Some (wj_page_id (writer s) + k)) s t i 1 [a]"
    using r new(1-3) unfolding issue_write_def Let_def a k
    by (auto simp: bind_res_Inr_iff clock_returns prepare_write ops_issued_def grown_def same_ctx_def split: if_splits)
  then show ?thesis by blast
qed

lemma issue_read_returns:
  assumes m: "malloc_ok os (ctx_base s)" and r: "issue_read os s i = Inr t"
  shows "\<exists>a. ops_issued (\<lambda>k. None) s t i 1 [a]"
proof -
  obtain a s1 where a: "malloc_op os s (Read_op \<lparr>pr_callback = None, pr_buf = Read_buf,
        pr_issued = \<lparr>tv_sec = 0, tv_nsec = 0\<rparr>, pr_page_id = rj_page_id (reader s) + i\<rparr>) = Inr (a, s1)"
      (is "malloc_op os s ?x = _")
    using r by (auto simp: issue_read_def Let_def bind_res_Inr_iff)
  note new = malloc_returns [OF m a]
  then obtain k where k: "s1 = s\<lparr>calls := k, op_heap := (op_heap s)(a \<mapsto> ?x)\<rparr>" by blast
  have "ops_issued (\<lambda>k. None) s t i 1 [a]"
    using r new(1-3) unfolding issue_read_def Let_def a k
    by (auto simp: bind_res_Inr_iff clock_returns prepare_read ops_issued_def grown_def same_ctx_def split: if_splits)
  then show ?thesis by blast
qed

lemma issue_batch_returns:
  assumes one: "\<And>s i t. P s \<Longrightarrow> issue s i = Inr t \<Longrightarrow> (\<exists>a. ops_issued f s t i 1 [a]) \<and> P t"
  shows "P s \<Longrightarrow> issue_batch issue s i n = Inr t \<Longrightarrow> \<exists>as. ops_issued f s t i n as"
proof (induction n arbitrary: s i)
  case 0
  then show ?case by (auto intro: exI [of _ "[]"])
next
  case (Suc n)
  then obtain u where u: "issue s i = Inr u" "issue_batch issue u (i + 1) n = Inr t" by (auto simp: bind_res_Inr_iff)
  with one [OF Suc.prems(1) u(1)] Suc.IH [OF _ u(2)] ops_issued_Cons show ?case by blast
qed

section \<open>The end of a tick\<close>

lemma resend_returns:
  assumes "ctx_ok (ctx_base s)" "static_callback s x = Some c" "x \<in> {Op_writer, Op_reader, Op_status, Op_tracing, Op_flusher}"
    and "resend os s x = Inr t"
  shows "t = enqueue s (static_at s x) (Prep_timeout (job_ts (static_job s x)))"
proof -
  have "job_callback (static_job s x) = Some c" "set_static_callback s x (Some c) = s"
    using assms(2,3) by (auto simp: static_job_def)
  from resend_static [OF assms(1) this] show ?thesis using assms(4) by (auto simp: resend_def split: if_splits)
qed

section \<open>Writer and reader\<close>

definition writer_effect :: "sched \<Rightarrow> u32 \<Rightarrow> u64 list \<Rightarrow> sched \<Rightarrow> bool" where
  "writer_effect s b as t \<longleftrightarrow> wj_page_id (writer t) = wj_page_id (writer s) + b \<and>
    (job_running (wj_inner (writer t)) \<longleftrightarrow> job_running (wj_inner (writer s)) \<and> below_limit (wj_page_id (writer t))) \<and>
    reader t = reader s \<and> flusher t = flusher s \<and> tracing t = tracing s \<and> ctx_base t = ctx_base s \<and>
    page_id_check_order t = page_id_check_order s \<and>
    queued t = queued s @ as @ (if below_limit (wj_page_id (writer t)) then [static_at s Op_writer] else []) \<and>
    grown s t as (map (\<lambda>k. Some (wj_page_id (writer s) + of_nat k)) [0..<unat b])"

lemma background_writer_returns:
  assumes inv: "sched_inv g os hi s (static_at s Op_writer # A) L" and r: "background_writer os s (static_at s Op_writer) = Inr t"
    and b: "b = next_batch_size (wj_inflight (writer s)) (wj_batch_size (writer s))"
  shows "\<exists>as. writer_effect s b as t"
proof -
  note p = inv_parts [OF inv]
  define u where "u = s\<lparr>writer := (writer s)\<lparr>wj_batch_size := b\<rparr>\<rparr>"
  obtain v where v: "issue_batch (issue_write os) u 0 (unat b) = Inr v" and
      t: "(let s = v\<lparr>writer := (writer v)\<lparr>wj_inflight := wj_inflight (writer v) + ucast b, wj_page_id := wj_page_id (writer v) + b\<rparr>\<rparr>
           in if below_limit (wj_page_id (writer s)) then resend os s Op_writer else Inr (stop_job s Op_writer)) = Inr t"
    using r by (auto simp: background_writer_def Let_def u_def b bind_res_Inr_iff)
  have "\<exists>as. ops_issued (\<lambda>k. Some (wj_page_id (writer u) + k)) u v 0 (unat b) as"
  proof (rule issue_batch_returns [OF _ _ v])
    fix s i t assume s: "malloc_ok os (ctx_base s) \<and> wj_page_id (writer s) = wj_page_id (writer u)" "issue_write os s i = Inr t"
    from issue_write_returns [OF _ s(2)] s(1) obtain a where "ops_issued (\<lambda>k. Some (wj_page_id (writer u) + k)) s t i 1 [a]" by auto
    moreover from this have "malloc_ok os (ctx_base t) \<and> wj_page_id (writer t) = wj_page_id (writer u)"
      using s(1) by (simp add: ops_issued_def same_ctx_def)
    ultimately show "(\<exists>a. ops_issued (\<lambda>k. Some (wj_page_id (writer u) + k)) s t i 1 [a]) \<and>
        malloc_ok os (ctx_base t) \<and> wj_page_id (writer t) = wj_page_id (writer u)" by blast
  qed (use p(2) in \<open>simp add: u_def\<close>)
  then obtain as where as: "ops_issued (\<lambda>k. Some (wj_page_id (writer s) + k)) u v 0 (unat b) as" by (auto simp: u_def)
  let ?v = "v\<lparr>writer := (writer v)\<lparr>wj_inflight := wj_inflight (writer v) + ucast b, wj_page_id := wj_page_id (writer v) + b\<rparr>\<rparr>"
  have v': "writer v = writer u" "reader v = reader s" "flusher v = flusher s" "tracing v = tracing s" "ctx_base v = ctx_base s"
      "page_id_check_order v = page_id_check_order s" "queued v = queued s @ as"
      "grown s v as (map (\<lambda>k. Some (wj_page_id (writer s) + of_nat k)) [0..<unat b])"
    using as by (simp_all add: ops_issued_def same_ctx_def u_def)
  have at: "static_at ?v Op_writer = static_at s Op_writer" using v'(5) by (simp add: static_at_def)
  have t_eq: "t = (if below_limit (wj_page_id (writer s) + b)
      then enqueue ?v (static_at s Op_writer) (Prep_timeout (job_ts (static_job ?v Op_writer))) else stop_job ?v Op_writer)"
    using t resend_returns [of ?v Op_writer Background_writer os t] p(1,4) v'(1,5) at
    by (auto simp: Let_def u_def jobs_ready_def split: if_splits)
  show ?thesis using v' unfolding t_eq writer_effect_def
    by (intro exI [of _ as]) (auto simp: u_def stop_job_def static_job_def job_set_stopped_def)
qed

definition reader_batch :: "sched \<Rightarrow> u32" where
  "reader_batch s = ucast (min_c (ucast (next_batch_size (rj_inflight (reader s)) (rj_batch_size (reader s))))
     ((ucast (fj_page_id (flusher s)) :: u64) - ucast (rj_page_id (reader s))))"

definition reader_effect :: "sched \<Rightarrow> u32 \<Rightarrow> u64 list \<Rightarrow> sched \<Rightarrow> bool" where
  "reader_effect s b as t \<longleftrightarrow> rj_page_id (reader t) = rj_page_id (reader s) + b \<and>
    rj_inflight (reader t) = rj_inflight (reader s) + ucast b \<and>
    (job_running (rj_inner (reader t)) \<longleftrightarrow> job_running (rj_inner (reader s)) \<and> below_limit (rj_page_id (reader t))) \<and>
    writer t = writer s \<and> flusher t = flusher s \<and> tracing t = tracing s \<and> ctx_base t = ctx_base s \<and>
    page_id_check_order t = page_id_check_order s \<and>
    queued t = queued s @ as @ (if below_limit (rj_page_id (reader t)) then [static_at s Op_reader] else []) \<and>
    grown s t as (map (\<lambda>k. None) [0..<unat b])"

lemma background_reader_returns:
  assumes inv: "sched_inv g os hi s (static_at s Op_reader # A) L" and r: "background_reader os s (static_at s Op_reader) = Inr t"
    and b: "b = reader_batch s"
  shows "\<exists>as. reader_effect s b as t"
proof -
  note p = inv_parts [OF inv]
  define u where "u = s\<lparr>reader := (reader s)\<lparr>rj_batch_size := b\<rparr>\<rparr>"
  obtain v where v: "issue_batch (issue_read os) u 0 (unat b) = Inr v" and
      t: "(let s = v\<lparr>reader := (reader v)\<lparr>rj_inflight := rj_inflight (reader v) + ucast b, rj_page_id := rj_page_id (reader v) + b\<rparr>\<rparr>
           in if below_limit (rj_page_id (reader s)) then resend os s Op_reader else Inr (stop_job s Op_reader)) = Inr t"
    using r by (auto simp: background_reader_def Let_def u_def b reader_batch_def bind_res_Inr_iff)
  have "\<exists>as. ops_issued (\<lambda>k. None) u v 0 (unat b) as"
  proof (rule issue_batch_returns [OF _ _ v])
    fix s i t assume s: "malloc_ok os (ctx_base s)" "issue_read os s i = Inr t"
    from issue_read_returns [OF s] obtain a where "ops_issued (\<lambda>k. None) s t i 1 [a]" by auto
    moreover from this have "malloc_ok os (ctx_base t)" using s(1) by (simp add: ops_issued_def same_ctx_def)
    ultimately show "(\<exists>a. ops_issued (\<lambda>k. None) s t i 1 [a]) \<and> malloc_ok os (ctx_base t)" by blast
  qed (use p(2) in \<open>simp add: u_def\<close>)
  then obtain as where as: "ops_issued (\<lambda>k. None) u v 0 (unat b) as" by auto
  let ?v = "v\<lparr>reader := (reader v)\<lparr>rj_inflight := rj_inflight (reader v) + ucast b, rj_page_id := rj_page_id (reader v) + b\<rparr>\<rparr>"
  have v': "reader v = reader u" "writer v = writer s" "flusher v = flusher s" "tracing v = tracing s" "ctx_base v = ctx_base s"
      "page_id_check_order v = page_id_check_order s" "queued v = queued s @ as" "grown s v as (map (\<lambda>k. None) [0..<unat b])"
    using as by (simp_all add: ops_issued_def same_ctx_def u_def)
  have at: "static_at ?v Op_reader = static_at s Op_reader" using v'(5) by (simp add: static_at_def)
  have t_eq: "t = (if below_limit (rj_page_id (reader s) + b)
      then enqueue ?v (static_at s Op_reader) (Prep_timeout (job_ts (static_job ?v Op_reader))) else stop_job ?v Op_reader)"
    using t resend_returns [of ?v Op_reader Background_reader os t] p(1,4) v'(1,5) at
    by (auto simp: Let_def u_def jobs_ready_def split: if_splits)
  show ?thesis using v' unfolding t_eq reader_effect_def
    by (intro exI [of _ as]) (auto simp: u_def stop_job_def static_job_def job_set_stopped_def)
qed

section \<open>Flusher, status and tracing\<close>

lemma prepare_static_returns:
  assumes "ctx_ok (ctx_base s)" "prepare_request os s (static_at s x) c r = Inr t"
  shows "t = enqueue (set_static_callback s x (Some c)) (static_at s x) r"
  using assms by (simp add: prepare_static split: if_splits)

text \<open>The flusher asks for an \<open>fsync\<close> when there is something to flush and none is in flight.\<close>

definition wants_fsync :: "sched \<Rightarrow> bool" where
  "wants_fsync s \<longleftrightarrow> wj_written_no_flush (writer s) \<noteq> 0 \<and> fj_inflight (flusher s) = 0"

definition flusher_effect :: "sched \<Rightarrow> sched \<Rightarrow> bool" where
  "flusher_effect s t \<longleftrightarrow> fj_page_id (flusher t) = fj_page_id (flusher s) \<and>
    fj_inflight (flusher t) = (if wants_fsync s then 1 else fj_inflight (flusher s)) \<and>
    (job_running (fj_inner (flusher t)) \<longleftrightarrow> job_running (fj_inner (flusher s)) \<and> below_limit (fj_page_id (flusher s))) \<and>
    writer t = writer s \<and> reader t = reader s \<and> tracing t = tracing s \<and> ctx_base t = ctx_base s \<and>
    page_id_check_order t = page_id_check_order s \<and> op_heap t = op_heap s \<and>
    queued t = queued s @ (if wants_fsync s then [static_at s Op_fsync] else []) @
      (if below_limit (fj_page_id (flusher s)) then [static_at s Op_flusher] else [])"

lemma background_flusher_returns:
  assumes inv: "sched_inv g os hi s (static_at s Op_flusher # A) L" and r: "background_flusher os s (static_at s Op_flusher) = Inr t"
  shows "flusher_effect s t"
proof -
  note p = inv_parts [OF inv]
  let ?m = "if wj_written_no_flush (writer s) \<noteq> 0 \<and> fj_inflight (flusher s) = 0
         then bind_res (clock_gettime os s) (\<lambda>(now, s).
              let s = s\<lparr>flusher := (flusher s)\<lparr>fj_op_fsync := (fj_op_fsync (flusher s))\<lparr>fs_issued := now\<rparr>\<rparr>\<rparr>
              in bind_res (prepare_request os s (static_at s Op_fsync) File_synced (Prep_fsync (fj_fd (flusher s)))) (\<lambda>s.
                   Inr (s\<lparr>flusher := (flusher s)\<lparr>fj_inflight := 1\<rparr>\<rparr>)))
         else Inr s"
  obtain u where u: "?m = Inr u" and t: "(if below_limit (fj_page_id (flusher u)) then resend os u Op_flusher
           else Inr (stop_job u Op_flusher)) = Inr t"
    using r by (auto simp: background_flusher_def bind_res_Inr_iff)
  have u': "writer u = writer s" "reader u = reader s" "tracing u = tracing s" "ctx_base u = ctx_base s"
    "page_id_check_order u = page_id_check_order s" "op_heap u = op_heap s" "fj_page_id (flusher u) = fj_page_id (flusher s)"
    "fj_inner (flusher u) = fj_inner (flusher s)" "fj_inflight (flusher u) = (if wants_fsync s then 1 else fj_inflight (flusher s))"
    "queued u = queued s @ (if wants_fsync s then [static_at s Op_fsync] else [])"
    using u p(1) unfolding wants_fsync_def
    by (auto simp: clock_returns bind_res_Inr_iff Let_def dest!: prepare_static_returns [where s = "s\<lparr>calls := _, flusher := _\<rparr>" and x = Op_fsync, simplified, rotated] split: if_splits)
  have at: "static_at u Op_flusher = static_at s Op_flusher" using u'(4) by (simp add: static_at_def)
  have "t = (if below_limit (fj_page_id (flusher s))
      then enqueue u (static_at s Op_flusher) (Prep_timeout (job_ts (static_job u Op_flusher))) else stop_job u Op_flusher)"
    using t resend_returns [of u Op_flusher Background_flusher os t] p(1,4) u'(4,7,8) at
    by (auto simp: jobs_ready_def split: if_splits)
  then show ?thesis using u' by (auto simp: flusher_effect_def stop_job_def static_job_def job_set_stopped_def)
qed

definition status_effect :: "sched \<Rightarrow> sched \<Rightarrow> bool" where
  "status_effect s t \<longleftrightarrow> writer t = writer s \<and> reader t = reader s \<and> flusher t = flusher s \<and> tracing t = tracing s \<and> ctx_base t = ctx_base s \<and>
    page_id_check_order t = page_id_check_order s \<and> op_heap t = op_heap s \<and> queued t = queued s @ [static_at s Op_status]"

lemma background_status_returns:
  assumes inv: "sched_inv g os hi s (static_at s Op_status # A) L" and r: "background_status os s (static_at s Op_status) = Inr t"
  shows "status_effect s t"
proof -
  note p = inv_parts [OF inv]
  obtain now q b where "resend os (s\<lparr>calls := (calls s)\<lparr>clocks := clocks (calls s) + 1\<rparr>, printed := q, bg := b,
      status := (status s)\<lparr>sj_last_time := now\<rparr>\<rparr>) Op_status = Inr t" (is "resend os ?u _ = _")
    using r by (auto simp: background_status_def clock_returns bind_res_Inr_iff Let_def)
  from resend_returns [OF _ _ _ this, of Background_status]
  have "t = enqueue ?u (static_at s Op_status) (Prep_timeout (job_ts (static_job ?u Op_status)))"
    using p(1,4) by (simp add: jobs_ready_def static_at_def)
  then show ?thesis by (simp add: status_effect_def)
qed

text \<open>The tracing job changes nothing but itself.\<close>

definition only_tracing :: "sched \<Rightarrow> sched \<Rightarrow> bool" where
  "only_tracing s t \<longleftrightarrow> writer t = writer s \<and> reader t = reader s \<and> flusher t = flusher s \<and> ctx_base t = ctx_base s \<and>
     page_id_check_order t = page_id_check_order s \<and> op_heap t = op_heap s"

abbreviation "dump_op s \<equiv> tj_dump_op (tracing s)"
abbreviation "ring s \<equiv> tj_cbuf (tracing s)"

definition dump_effect :: "sched \<Rightarrow> sched \<Rightarrow> bool" where
  "dump_effect s t \<longleftrightarrow>
     (if td_inflight (dump_op s) \<noteq> 0 \<or> cbuf_used_count (ring s) = 0 then t = s
      else only_tracing s t \<and> tj_inner (tracing t) = tj_inner (tracing s) \<and> ring t = ring s \<and>
        td_inflight (dump_op t) = 1 \<and> td_callback (dump_op t) = Some Tracing_writed \<and>
        td_items (dump_op t) = cbuf_used_count (ring s) \<and>
        td_to_write (dump_op t) = cbuf_used_count (ring s) * sizeof_tracing_item \<and>
        queued t = queued s @ [static_at s Op_dump])"

lemma dump_tracing_items_returns:
  assumes "ctx_ok (ctx_base s)" "dump_tracing_items os s = Inr t"
  shows "dump_effect s t"
proof (cases "td_inflight (dump_op s) \<noteq> 0 \<or> cbuf_used_count (ring s) = 0")
  case True
  then show ?thesis using assms(2) by (auto simp: dump_tracing_items_def dump_effect_def cbuf_get_def Let_def split: if_splits)
next
  case False
  let ?n = "cbuf_used_count (ring s)"
  let ?s = "s\<lparr>tracing := (tracing s)\<lparr>tj_dump_op := (dump_op s)\<lparr>td_items := ?n, td_to_write := ?n * sizeof_tracing_item, td_inflight := 1\<rparr>\<rparr>\<rparr>"
  obtain r where "prepare_request os ?s (static_at ?s Op_dump) Tracing_writed r = Inr t"
    using False assms(2) by (auto simp: dump_tracing_items_def cbuf_get_def Let_def)
  from prepare_static_returns [OF _ this] have "t = enqueue (set_static_callback ?s Op_dump (Some Tracing_writed)) (static_at ?s Op_dump) r"
    using assms(1) by simp
  then show ?thesis using False by (simp add: dump_effect_def only_tracing_def)
qed

text \<open>The tick first adds an item, unless the ring is full or the other jobs have finished.\<close>

definition item_effect :: "sched \<Rightarrow> sched \<Rightarrow> bool" where
  "item_effect s t \<longleftrightarrow> only_tracing s t \<and> tj_inner (tracing t) = tj_inner (tracing s) \<and> dump_op t = dump_op s \<and>
     queued t = queued s \<and> cbuf_len (ring t) = cbuf_len (ring s) \<and> cbuf_head (ring t) = cbuf_head (ring s) \<and>
     cbuf_tail (ring t) = cbuf_tail (ring s) +
       (if cbuf_free_count (ring s) \<noteq> 0 \<and> \<not> jobs_finished s then 1 else 0)"

definition tick_effect :: "sched \<Rightarrow> sched \<Rightarrow> bool" where
  "tick_effect s t \<longleftrightarrow> (\<exists>u v. item_effect s u \<and>
     (if cbuf_free_count (ring u) \<le> cbuf_len (ring u) div 2 then dump_effect u v else v = u) \<and>
     (if \<not> jobs_finished s \<or> td_inflight (dump_op v) \<noteq> 0
      then only_tracing v t \<and> tracing t = tracing v \<and> queued t = queued v @ [static_at s Op_tracing]
      else dump_effect v t))"

lemma only_tracing_refl [simp]: "only_tracing s s"
  by (simp add: only_tracing_def)

lemma dump_effect_only: "dump_effect s t \<Longrightarrow> only_tracing s t \<and> tj_inner (tracing t) = tj_inner (tracing s) \<and> ring t = ring s"
  by (auto simp: dump_effect_def split: if_splits)

lemma background_tracing_returns:
  assumes inv: "sched_inv g os hi s (static_at s Op_tracing # A) L" and r: "background_tracing os s (static_at s Op_tracing) = Inr t"
  shows "tick_effect s t"
proof -
  note p = inv_parts [OF inv]
  obtain room item where put: "cbuf_put (ring s) = (room, item)" by (cases "cbuf_put (ring s)") auto
  then have room: "room = cbuf_free_count (ring s)" by (simp add: cbuf_put_def Let_def)
  let ?m = "if room \<noteq> 0 \<and> \<not> jobs_finished s
         then bind_res (clock_gettime os s) (\<lambda>(now, s).
              let c = cbuf_write (tj_cbuf (tracing s)) item
                        (tracing_item_bytes s (trace_elapsed now (tj_start_time (tracing s))))
              in Inr (s\<lparr>tracing := (tracing s)\<lparr>tj_cbuf := cbuf_advance_tail c 1,
                                                tj_trace_done := tj_trace_done (tracing s) + 1\<rparr>\<rparr>))
         else Inr s"
  obtain u v where u: "?m = Inr u"
    and v: "(if cbuf_free_count (ring u) \<le> cbuf_len (ring u) div 2 then dump_tracing_items os u else Inr u) = Inr v"
    and t: "(if \<not> jobs_finished s \<or> td_inflight (dump_op v) \<noteq> 0 then resend os v Op_tracing else dump_tracing_items os v) = Inr t"
    using r by (auto simp: background_tracing_def put Let_def bind_res_Inr_iff)
  have su: "item_effect s u"
    using u unfolding room
    by (auto simp: item_effect_def only_tracing_def bind_res_Inr_iff clock_returns Let_def cbuf_write_def cbuf_advance_tail_def
        split: if_splits)
  then have cu: "ctx_base u = ctx_base s" by (simp add: item_effect_def only_tracing_def)
  have uv: "if cbuf_free_count (ring u) \<le> cbuf_len (ring u) div 2 then dump_effect u v else v = u"
    using v dump_tracing_items_returns [of u os v] p(1) cu by (auto split: if_splits)
  then have "only_tracing u v \<and> tj_inner (tracing v) = tj_inner (tracing u)"
    using dump_effect_only [of u v] by (auto split: if_splits)
  then have cv: "ctx_base v = ctx_base s" "tj_inner (tracing v) = tj_inner (tracing s)"
    using su by (simp_all add: item_effect_def only_tracing_def)
  then have at: "static_at v Op_tracing = static_at s Op_tracing" by (simp add: static_at_def)
  have "if \<not> jobs_finished s \<or> td_inflight (dump_op v) \<noteq> 0
      then only_tracing v t \<and> tracing t = tracing v \<and> queued t = queued v @ [static_at s Op_tracing] else dump_effect v t"
    using t dump_tracing_items_returns [of v os t] resend_returns [of v Op_tracing Background_tracing os t] p(1,4) cv at
    by (auto simp: only_tracing_def jobs_ready_def split: if_splits)
  with su uv show ?thesis unfolding tick_effect_def by blast
qed

definition writed_effect :: "sched \<Rightarrow> sched \<Rightarrow> bool" where
  "writed_effect s t \<longleftrightarrow> only_tracing s t \<and> tj_inner (tracing t) = tj_inner (tracing s) \<and>
    ring t = cbuf_advance_head (ring s) (td_items (dump_op s)) \<and> dump_op t = (dump_op s)\<lparr>td_callback := Some Tracing_synced\<rparr> \<and>
    queued t = queued s @ [static_at s Op_dump]"

lemma tracing_writed_returns:
  assumes inv: "sched_inv g os hi s (static_at s Op_dump # A) L" and r: "tracing_writed os s (static_at s Op_dump) res = Inr t"
  shows "writed_effect s t"
proof -
  let ?s = "s\<lparr>tracing := (tracing s)\<lparr>tj_cbuf := cbuf_advance_head (ring s) (td_items (dump_op s))\<rparr>\<rparr>"
  obtain r where "prepare_request os ?s (static_at ?s Op_dump) Tracing_synced r = Inr t"
    using assms(2) by (auto simp: tracing_writed_def Let_def assert_res_Inr_iff)
  from prepare_static_returns [OF _ this] inv_parts(1) [OF inv]
  show ?thesis by (simp add: writed_effect_def only_tracing_def)
qed

definition synced_effect :: "sched \<Rightarrow> sched \<Rightarrow> bool" where
  "synced_effect s t \<longleftrightarrow> only_tracing s t \<and> queued t = queued s \<and> ring t = ring s \<and> dump_op t = (dump_op s)\<lparr>td_inflight := 0\<rparr> \<and>
    job_callback (tj_inner (tracing t)) = job_callback (tj_inner (tracing s)) \<and>
    (job_running (tj_inner (tracing t)) \<longleftrightarrow> job_running (tj_inner (tracing s)) \<and> \<not> jobs_finished s)"

lemma tracing_synced_returns:
  assumes "tracing_synced s (static_at s Op_dump) = Inr t"
  shows "synced_effect s t"
  using assms
  by (auto simp: synced_effect_def tracing_synced_def Let_def only_tracing_def stop_job_def static_job_def job_set_stopped_def jobs_finished_def
      split: if_splits)

section \<open>Completed requests\<close>

lemma write_list_append_returns:
  assumes "write_list_append s a = Inr t"
  shows "kind_at (op_heap t) = kind_at (op_heap s) \<and> (\<exists>h l. t = s\<lparr>op_heap := h, flusher := (flusher s)\<lparr>fj_write_list := l\<rparr>\<rparr>)"
proof (cases "wl_tail (fj_write_list (flusher s)) = 0")
  case True
  then have "t = s\<lparr>op_heap := op_heap s, flusher := (flusher s)\<lparr>fj_write_list := \<lparr>wl_tail = a, wl_head = a\<rparr>\<rparr>\<rparr>"
    using assms by (simp add: write_list_append_def Let_def)
  then show ?thesis by (simp, intro exI [of _ "op_heap s"] exI) simp
next
  case False
  let ?n = "fj_write_list (flusher s)"
  obtain w where w: "op_heap s (wl_head ?n) = Some (Write_op w)"
      and t: "t = s\<lparr>op_heap := (op_heap s)(wl_head ?n \<mapsto> Write_op (w\<lparr>pw_next := a\<rparr>)), flusher := (flusher s)\<lparr>fj_write_list := ?n\<lparr>wl_head := a\<rparr>\<rparr>\<rparr>"
    using False assms by (auto simp: write_list_append_def Let_def split: option.splits op_object.splits)
  have "kind_at (op_heap t) = kind_at (op_heap s)"
    unfolding t using w by (auto simp del: kind_at_upd intro!: kind_at_same)
  then show ?thesis using t by blast
qed

definition write_effect :: "sched \<Rightarrow> sched \<Rightarrow> bool" where
  "write_effect s t \<longleftrightarrow> page_id_check_order t = page_id_check_order s + 1 \<and>
    kind_at (op_heap t) = kind_at (op_heap s) \<and> wj_page_id (writer t) = wj_page_id (writer s) \<and>
    wj_inner (writer t) = wj_inner (writer s) \<and> wj_written_no_flush (writer t) = wj_written_no_flush (writer s) + 1 \<and>
    fj_page_id (flusher t) = fj_page_id (flusher s) \<and> fj_inner (flusher t) = fj_inner (flusher s) \<and>
    fj_inflight (flusher t) = fj_inflight (flusher s) \<and> reader t = reader s \<and> tracing t = tracing s \<and>
    ctx_base t = ctx_base s \<and> queued t = queued s"

lemma page_written_returns:
  assumes w: "op_heap s a = Some (Write_op w)" and r: "page_written os s a = Inr t"
  shows "pw_page_id w = page_id_check_order s \<and> write_effect s t"
  using assms
  by (auto simp: write_effect_def page_written_def Let_def assert_res_Inr_iff bind_res_Inr_iff clock_returns dest!: write_list_append_returns)

definition read_effect :: "sched \<Rightarrow> u64 \<Rightarrow> sched \<Rightarrow> bool" where
  "read_effect s a t \<longleftrightarrow> kind_at (op_heap t) = (kind_at (op_heap s))(a := None) \<and> rj_page_id (reader t) = rj_page_id (reader s) \<and>
    rj_inner (reader t) = rj_inner (reader s) \<and> rj_inflight (reader t) = rj_inflight (reader s) - 1 \<and>
    writer t = writer s \<and> flusher t = flusher s \<and> tracing t = tracing s \<and> page_id_check_order t = page_id_check_order s \<and>
    ctx_base t = ctx_base s \<and> queued t = queued s"

lemma page_read_returns:
  assumes w: "op_heap s a = Some (Read_op q)" "pr_buf q = Read_buf" and r: "page_read os s a = Inr t"
  shows "read_effect s a t"
  using assms
  by (auto simp: read_effect_def page_read_def Let_def assert_res_Inr_iff bind_res_Inr_iff clock_returns free_op_def split: if_splits)

definition fsync_effect :: "sched \<Rightarrow> u64 list \<Rightarrow> sched \<Rightarrow> bool" where
  "fsync_effect s L t \<longleftrightarrow> fj_page_id (flusher t) = page_id_check_order s \<and> fj_inflight (flusher t) = 0 \<and> fj_inner (flusher t) = fj_inner (flusher s) \<and>
    (\<forall>b. kind_at (op_heap t) b = (if b \<in> set L then None else kind_at (op_heap s) b)) \<and>
    wj_page_id (writer t) = wj_page_id (writer s) \<and> wj_inner (writer t) = wj_inner (writer s) \<and>
    wj_written_no_flush (writer t) = 0 \<and> reader t = reader s \<and> tracing t = tracing s \<and>
    page_id_check_order t = page_id_check_order s \<and> ctx_base t = ctx_base s \<and> queued t = queued s"

lemma file_synced_returns:
  assumes inv: "sched_inv g os hi s (static_at s Op_fsync # A) L" and r: "file_synced os s (static_at s Op_fsync) = Inr t"
  shows "fsync_effect s L t"
proof -
  note p = inv_parts [OF inv]
  have run: "free_written u (wl_tail (fj_write_list (flusher s))) = Some (Inr (freed_list u L))" if "op_heap u = op_heap s" for u
    using p(6,8) that by (intro free_written_eq) (simp_all add: list_ok_def)
  have f: "writer (freed_list u L) = writer u" "reader (freed_list u L) = reader u" "flusher (freed_list u L) = flusher u"
    "tracing (freed_list u L) = tracing u" "page_id_check_order (freed_list u L) = page_id_check_order u"
    "ctx_base (freed_list u L) = ctx_base u" "queued (freed_list u L) = queued u" for u
    by (simp_all add: freed_list_def queued_def)
  have "fj_page_id (flusher s) + wj_written_no_flush (writer s) = page_id_check_order s"
    using p(9) unfolding counters_ok_def by (intro word_unat_eq_iff [THEN iffD2]) (simp add: unat_simps)
  then show ?thesis
    using r by (auto simp: fsync_effect_def file_synced_def Let_def bind_res_Inr_iff clock_returns run f freed_heap kind_at_def)
qed

end
