(* ===== verification/Sched_Dispatch.thy ===== *)
theory Sched_Dispatch
  imports Sched_Effects
begin

text \<open>
  Which handler a completion runs, and what the whole completion changes.
\<close>

section \<open>The handler of a completion\<close>

lemma ready_addr:
  assumes inv: "sched_inv g os hi s (a # A) L"
  shows "unat a < 2 ^ 48" "a \<noteq> 0"
proof -
  note p = inv_parts [OF inv]
  have "unat a < 2 ^ 48 \<and> a \<noteq> 0"
  proof (cases "static_of s a")
    case (Some x)
    then show ?thesis using static_at_bound [OF p(1), of x] by (simp add: static_of_eq)
  next
    case None
    then have "op_heap s a \<noteq> None" using p(7) [OF head_pending] by (metis op_ready_def object_ready.simps(3) option.case(1))
    then show ?thesis using p(3) by (simp add: heap_ok_def)
  qed
  then show "unat a < 2 ^ 48" "a \<noteq> 0" by simp_all
qed

lemma ready_cases:
  assumes inv: "sched_inv g os hi s (a # A) L"
  obtains (job_writer) "a = static_at s Op_writer" "op_callback s a = Some Background_writer" "below_limit (wj_page_id (writer s))"
  | (job_reader) "a = static_at s Op_reader" "op_callback s a = Some Background_reader"
  | (job_status) "a = static_at s Op_status" "op_callback s a = Some Background_status"
  | (job_tracing) "a = static_at s Op_tracing" "op_callback s a = Some Background_tracing"
  | (job_flusher) "a = static_at s Op_flusher" "op_callback s a = Some Background_flusher"
  | (fsync) "a = static_at s Op_fsync" "op_callback s a = Some File_synced" "fj_inflight (flusher s) \<noteq> 0"
  | (writed) "a = static_at s Op_dump" "op_callback s a = Some Tracing_writed" "td_callback (dump_op s) = Some Tracing_writed"
      "td_inflight (dump_op s) \<noteq> 0"
  | (synced) "a = static_at s Op_dump" "op_callback s a = Some Tracing_synced" "td_callback (dump_op s) = Some Tracing_synced"
      "td_inflight (dump_op s) \<noteq> 0"
  | (page_write) w where "static_of s a = None" "op_heap s a = Some (Write_op w)" "op_callback s a = Some Page_written"
      "unat (pw_page_id w) < hi"
  | (page_read_op) q where "static_of s a = None" "op_heap s a = Some (Read_op q)" "op_callback s a = Some Page_read" "pr_buf q = Read_buf"
proof (cases "static_of s a")
  case (Some x)
  then have "a = static_at s x" "op_callback s a = static_callback s x" "static_ready g s x"
    using inv_parts(7) [OF inv head_pending] by (auto simp: static_of_eq op_callback_def op_ready_def)
  then show thesis using inv_parts(4) [OF inv] that(1-8) unfolding jobs_ready_def by (cases x) auto
next
  case None
  then have "object_ready hi (op_heap s a)" using inv_parts(7) [OF inv head_pending] by (simp add: op_ready_def)
  then obtain x where x: "op_heap s a = Some x" "object_ready hi (Some x)" by (cases "op_heap s a") auto
  show thesis
  proof (cases x)
    case (Write_op w)
    then show thesis using that(9) [OF None] None x by (simp add: op_callback_def)
  next
    case (Read_op q)
    then show thesis using that(10) [OF None] None x by (simp add: op_callback_def)
  qed
qed

lemma io_cqe_eq:
  assumes inv: "sched_inv g os hi s (a # A) L" and c: "op_callback s a = Some c"
  shows "io_cqe os s a r = assert_res (r = - ETIME \<longrightarrow> c \<in> set job_callbacks)
    (if r \<ge> 0 \<or> r = - ETIME then run_callback os s c a r else Inr s)"
  using ready_addr [OF inv] user_data_flags [of a] c by (simp add: io_cqe_def Let_def)

text \<open>
  The effect of a completion of the operation at \<open>a\<close>; \<open>L\<close> are the written pages, \<open>ok\<close> tells
  whether the result calls the handler.
\<close>

inductive io_effect :: "u64 \<Rightarrow> u64 list \<Rightarrow> bool \<Rightarrow> sched \<Rightarrow> sched \<Rightarrow> bool" for a :: u64 and L :: "u64 list" where
  failed: "io_effect a L False s s"
| writer_tick: "a = static_at s Op_writer \<Longrightarrow> below_limit (wj_page_id (writer s)) \<Longrightarrow>
    writer_effect s (next_batch_size (wj_inflight (writer s)) (wj_batch_size (writer s))) as t \<Longrightarrow> io_effect a L True s t"
| reader_tick: "a = static_at s Op_reader \<Longrightarrow> reader_effect s (reader_batch s) as t \<Longrightarrow> io_effect a L True s t"
| status_tick: "a = static_at s Op_status \<Longrightarrow> status_effect s t \<Longrightarrow> io_effect a L True s t"
| tracing_tick: "a = static_at s Op_tracing \<Longrightarrow> tick_effect s t \<Longrightarrow> io_effect a L True s t"
| flusher_tick: "a = static_at s Op_flusher \<Longrightarrow> flusher_effect s t \<Longrightarrow> io_effect a L True s t"
| fsync_done: "a = static_at s Op_fsync \<Longrightarrow> fj_inflight (flusher s) \<noteq> 0 \<Longrightarrow> fsync_effect s L t \<Longrightarrow> io_effect a L True s t"
| dump_written: "a = static_at s Op_dump \<Longrightarrow> td_callback (dump_op s) = Some Tracing_writed \<Longrightarrow> td_inflight (dump_op s) \<noteq> 0 \<Longrightarrow>
    writed_effect s t \<Longrightarrow> io_effect a L True s t"
| dump_synced: "a = static_at s Op_dump \<Longrightarrow> td_callback (dump_op s) = Some Tracing_synced \<Longrightarrow> td_inflight (dump_op s) \<noteq> 0 \<Longrightarrow>
    synced_effect s t \<Longrightarrow> io_effect a L True s t"
| write_done: "static_of s a = None \<Longrightarrow> kind_at (op_heap s) a = Some (Some (page_id_check_order s)) \<Longrightarrow> write_effect s t \<Longrightarrow>
    io_effect a L True s t"
| read_done: "static_of s a = None \<Longrightarrow> kind_at (op_heap s) a = Some None \<Longrightarrow> read_effect s a t \<Longrightarrow> io_effect a L True s t"

lemma run_callback_effect:
  assumes inv: "sched_inv g os hi s (a # A) L" and c: "op_callback s a = Some c" and r: "run_callback os s c a r = Inr t"
  shows "io_effect a L True s t"
  using inv
proof (cases rule: ready_cases)
  case job_writer
  with c r inv have "sched_inv g os hi s (static_at s Op_writer # A) L" "background_writer os s (static_at s Op_writer) = Inr t"
    by auto
  from background_writer_returns [OF this refl] obtain as where
    "writer_effect s (next_batch_size (wj_inflight (writer s)) (wj_batch_size (writer s))) as t" by blast
  with job_writer show ?thesis by (intro writer_tick)
next
  case job_reader
  with c r inv have "sched_inv g os hi s (static_at s Op_reader # A) L" "background_reader os s (static_at s Op_reader) = Inr t"
    by auto
  from background_reader_returns [OF this refl] obtain as where "reader_effect s (reader_batch s) as t" by blast
  with job_reader show ?thesis by (intro reader_tick)
next
  case job_status
  with c r inv have "status_effect s t" by (auto intro: background_status_returns)
  with job_status show ?thesis by (intro status_tick)
next
  case job_tracing
  with c r inv have "tick_effect s t" by (auto intro: background_tracing_returns)
  with job_tracing show ?thesis by (intro tracing_tick)
next
  case job_flusher
  with c r inv have "flusher_effect s t" by (auto intro: background_flusher_returns)
  with job_flusher show ?thesis by (intro flusher_tick)
next
  case fsync
  with c r inv have "fsync_effect s L t" by (auto intro: file_synced_returns)
  with fsync show ?thesis by (intro fsync_done)
next
  case writed
  with c r inv have "writed_effect s t" by (auto intro: tracing_writed_returns)
  with writed show ?thesis by (intro dump_written)
next
  case synced
  with c r have "synced_effect s t" by (auto intro: tracing_synced_returns)
  with synced show ?thesis by (intro dump_synced)
next
  case (page_write w)
  with c r page_written_returns [OF page_write(2)] have "pw_page_id w = page_id_check_order s \<and> write_effect s t" by simp
  with page_write(1,2) show ?thesis by (intro write_done) (simp_all add: kind_at_def)
next
  case (page_read_op q)
  with c r page_read_returns [OF page_read_op(2,4)] have "read_effect s a t" by simp
  with page_read_op(1,2) show ?thesis by (intro read_done) (simp_all add: kind_at_def)
qed

lemma io_cqe_effect:
  assumes inv: "sched_inv g os hi s (a # A) L" and r: "io_cqe os s a r = Inr t"
  shows "io_effect a L (r \<ge> 0 \<or> r = - ETIME) s t"
proof -
  obtain c where c: "op_callback s a = Some c" using ready_cases [OF inv] by metis
  let ?m = "if r \<ge> 0 \<or> r = - ETIME then run_callback os s c a r else Inr s"
  have "assert_res (r = - ETIME \<longrightarrow> c \<in> set job_callbacks) ?m = Inr t"
    using io_cqe_eq [OF inv c, of r] r by (rule trans [OF sym])
  then have m: "?m = Inr t" unfolding assert_res_Inr_iff by (rule conjunct2)
  show ?thesis
  proof (cases "r \<ge> 0 \<or> r = - ETIME")
    case True
    with m run_callback_effect [OF inv c] show ?thesis by simp
  next
    case False
    with m have "t = s" by simp
    moreover have "io_effect a L False s s" by (rule failed)
    ultimately show ?thesis using False by (simp only:)
  qed
qed

end
