(* ===== verification/Sched_Bounds.thy ===== *)
theory Sched_Bounds
  imports Sched_Dispatch
begin

text \<open>
  Three more invariants of the reachable states: the ring of the tracing job is never overfull,
  the heap holds at most one operation per issued page, and a job stops only at its limit.
\<close>

section \<open>The ring of the tracing job\<close>

definition ring_ok :: "sched \<Rightarrow> bool" where
  "ring_ok s \<longleftrightarrow> cbuf_len (ring s) = 64 \<and> unat (cbuf_used_count (ring s)) \<le> 64 \<and>
     (td_inflight (dump_op s) \<noteq> 0 \<and> td_callback (dump_op s) = Some Tracing_writed \<longrightarrow>
        unat (td_items (dump_op s)) \<le> unat (cbuf_used_count (ring s)))"

lemma ring_ok_cong: "tracing t = tracing s \<Longrightarrow> ring_ok t = ring_ok s"
  by (simp add: ring_ok_def)

lemma used_free:
  assumes "cbuf_len c = 64" "unat (cbuf_used_count c) \<le> 64"
  shows "unat (cbuf_free_count c) = 64 - unat (cbuf_used_count c)"
  using assms by (simp add: cbuf_free_count_def cbuf_used_count_def unat_simps)

lemma dump_effect_ring: "ring_ok s \<Longrightarrow> dump_effect s t \<Longrightarrow> ring_ok t"
  by (auto simp: ring_ok_def dump_effect_def split: if_splits)

lemma item_effect_ring:
  assumes "ring_ok s" "item_effect s t"
  shows "ring_ok t" "unat (cbuf_used_count (ring t)) =
    unat (cbuf_used_count (ring s)) + (if unat (cbuf_used_count (ring s)) < 64 \<and> \<not> jobs_finished s then 1 else 0)"
proof -
  note ok = assms(1) [unfolded ring_ok_def]
  have f: "unat (cbuf_free_count (ring s)) = 64 - unat (cbuf_used_count (ring s))" using used_free ok by blast
  have room: "cbuf_free_count (ring s) \<noteq> 0 \<longleftrightarrow> unat (cbuf_used_count (ring s)) < 64"
    using f unat_eq_0 [of "cbuf_free_count (ring s)"] by auto
  have "cbuf_used_count (ring t) = cbuf_used_count (ring s) + (if cbuf_free_count (ring s) \<noteq> 0 \<and> \<not> jobs_finished s then 1 else 0)"
    using assms(2) by (simp add: item_effect_def cbuf_used_count_def)
  then show u: "unat (cbuf_used_count (ring t)) =
      unat (cbuf_used_count (ring s)) + (if unat (cbuf_used_count (ring s)) < 64 \<and> \<not> jobs_finished s then 1 else 0)"
    unfolding room using ok by (simp add: unat_simps)
  show "ring_ok t" using assms(2) ok u by (auto simp: ring_ok_def item_effect_def)
qed

lemma tick_effectE:
  assumes "tick_effect s t"
  obtains u v where "item_effect s u" "dump_effect u v \<or> v = u"
    "cbuf_free_count (ring u) \<le> cbuf_len (ring u) div 2 \<Longrightarrow> dump_effect u v"
    "if \<not> jobs_finished s \<or> td_inflight (dump_op v) \<noteq> 0
      then only_tracing v t \<and> tracing t = tracing v \<and> queued t = queued v @ [static_at s Op_tracing] else dump_effect v t"
  using assms unfolding tick_effect_def by (metis (full_types))

lemma tick_effect_only:
  assumes "tick_effect s t"
  shows "only_tracing s t \<and> tj_inner (tracing t) = tj_inner (tracing s)"
proof -
  obtain u v where u: "item_effect s u" and v: "dump_effect u v \<or> v = u"
    and t: "if \<not> jobs_finished s \<or> td_inflight (dump_op v) \<noteq> 0
      then only_tracing v t \<and> tracing t = tracing v \<and> queued t = queued v @ [static_at s Op_tracing] else dump_effect v t"
    by (rule tick_effectE [OF assms])
  have "only_tracing u v \<and> tj_inner (tracing v) = tj_inner (tracing u)" using v dump_effect_only [of u v] by auto
  moreover have "only_tracing v t \<and> tj_inner (tracing t) = tj_inner (tracing v)"
    using t dump_effect_only [of v t] by presburger
  ultimately show ?thesis using u by (simp add: item_effect_def only_tracing_def)
qed

lemma tick_effect_ring:
  assumes "ring_ok s" "tick_effect s t"
  shows "ring_ok t"
proof -
  obtain u v where u: "item_effect s u" and v: "dump_effect u v \<or> v = u"
    and t: "if \<not> jobs_finished s \<or> td_inflight (dump_op v) \<noteq> 0
      then only_tracing v t \<and> tracing t = tracing v \<and> queued t = queued v @ [static_at s Op_tracing] else dump_effect v t"
    by (rule tick_effectE [OF assms(2)])
  have "ring_ok v" using item_effect_ring(1) [OF assms(1) u] v dump_effect_ring [of u v] by auto
  then show ?thesis using t dump_effect_ring [of v t] ring_ok_cong [of t v] by presburger
qed

lemma effect_ring:
  assumes "io_effect a L ok s t" "ring_ok s"
  shows "ring_ok t"
  using assms(1)
proof cases
  case dump_written
  then have "cbuf_used_count (ring t) = cbuf_used_count (ring s) - td_items (dump_op s)"
    by (simp add: writed_effect_def cbuf_used_count_def cbuf_advance_head_def)
  then have "unat (cbuf_used_count (ring t)) = unat (cbuf_used_count (ring s)) - unat (td_items (dump_op s))"
    using assms(2) dump_written by (simp add: ring_ok_def unat_simps)
  moreover from this have "unat (cbuf_used_count (ring t)) \<le> 64"
    using assms(2) [unfolded ring_ok_def, THEN conjunct2, THEN conjunct1] by linarith
  ultimately show ?thesis using assms(2) dump_written by (simp add: ring_ok_def writed_effect_def cbuf_advance_head_def)
next
  case tracing_tick
  then show ?thesis using tick_effect_ring [OF assms(2)] by simp
next
  case dump_synced
  then show ?thesis using assms(2) by (simp add: ring_ok_def synced_effect_def)
qed (use assms(2) ring_ok_cong [of t s] in \<open>auto simp: writer_effect_def reader_effect_def status_effect_def flusher_effect_def
    fsync_effect_def write_effect_def read_effect_def\<close>)

section \<open>The heap\<close>

text \<open>At most one operation per issued page is allocated.\<close>

definition heap_small :: "sched \<Rightarrow> bool" where
  "heap_small s \<longleftrightarrow> finite (dom (op_heap s)) \<and>
     card (dom (op_heap s)) \<le> unat (wj_page_id (writer s)) + unat (rj_page_id (reader s))"

lemma kind_at_SomeD: "kind_at h b = Some y \<Longrightarrow> \<exists>x. h b = Some x"
  by (auto simp: kind_at_def)

lemma dom_kind: "dom (op_heap s) = dom (kind_at (op_heap s))"
  by (auto simp: dom_def kind_at_def)

lemma heap_small_shrink:
  assumes "heap_small s" "\<And>b. kind_at (op_heap t) b \<noteq> None \<Longrightarrow> kind_at (op_heap s) b \<noteq> None"
    "wj_page_id (writer t) = wj_page_id (writer s)" "rj_page_id (reader t) = rj_page_id (reader s)"
  shows "heap_small t"
proof -
  have "dom (op_heap t) \<subseteq> dom (op_heap s)" using assms(2) by auto
  moreover from this have "card (dom (op_heap t)) \<le> card (dom (op_heap s))"
    using assms(1) by (intro card_mono) (simp_all add: heap_small_def)
  ultimately show ?thesis using assms(1,3,4) by (auto simp: heap_small_def dest: finite_subset)
qed

lemma grown_dom:
  assumes "grown s t as fs"
  shows "dom (op_heap t) = dom (op_heap s) \<union> set as" "length as = length fs"
proof -
  have k: "map (kind_at (op_heap t)) as = map Some fs" using assms by (simp add: grown_def)
  then show "length as = length fs" by (metis length_map)
  have "kind_at (op_heap t) b \<noteq> None" if "b \<in> set as" for b
  proof -
    have "kind_at (op_heap t) b \<in> set (map Some fs)" unfolding k [symmetric] using that by simp
    then show ?thesis by (metis image_iff list.set_map option.distinct(1))
  qed
  then have "kind_at (op_heap t) b \<noteq> None \<longleftrightarrow> kind_at (op_heap s) b \<noteq> None \<or> b \<in> set as" for b
    using assms by (cases "b \<in> set as") (simp_all add: grown_def del: kind_at_None)
  then show "dom (op_heap t) = dom (op_heap s) \<union> set as" by auto
qed

lemma heap_small_grown:
  assumes "heap_small s" "grown s t as fs"
    and "unat (wj_page_id (writer t)) + unat (rj_page_id (reader t)) =
      unat (wj_page_id (writer s)) + unat (rj_page_id (reader s)) + length fs"
  shows "heap_small t"
proof -
  note d = grown_dom [OF assms(2)]
  have "card (dom (op_heap s) \<union> set as) \<le> card (dom (op_heap s)) + length fs"
    using card_Un_le [of "dom (op_heap s)" "set as"] card_length [of as] d(2) by linarith
  then show ?thesis using assms(1,3) d by (auto simp: heap_small_def)
qed

lemma reader_batch_bound:
  fixes r f n :: u32
  assumes "unat r \<le> unat f" "b = ucast (min_c (ucast n) ((ucast f :: u64) - ucast r))"
  shows "unat b = min (unat n) (unat f - unat r)" "unat (r + b) = unat r + unat b"
proof -
  have le: "unat ((ucast f :: u64) - ucast r) = unat f - unat r"
    using assms(1) by (simp add: unat_diff_nowrap unat_ucast_up)
  have "unat (min (ucast n) ((ucast f :: u64) - ucast r)) = min (unat n) (unat f - unat r)"
    using le by (auto simp: min_def word_le_nat_alt unat_ucast_up)
  moreover have "min (unat n) (unat f - unat r) < 2 ^ LENGTH(32)" using unat_lt_u32 [of n] by simp
  ultimately show b: "unat b = min (unat n) (unat f - unat r)" unfolding assms(2) by (simp add: unat_ucast_down)
  show "unat (r + b) = unat r + unat b" using b assms(1) unat_lt_u32 [of f] by (intro unat_add_nowrap) simp
qed

lemma effect_heap:
  assumes inv: "sched_inv g os hi s (a # A) L" and e: "io_effect a L ok s t" and ok: "heap_small s"
  shows "heap_small t"
  using e
proof cases
  case (writer_tick as)
  let ?b = "next_batch_size (wj_inflight (writer s)) (wj_batch_size (writer s))"
  have "unat ?b \<le> 16382" using inv_parts(9) [OF inv] by (intro next_batch_bound) (simp add: counters_ok_def)
  moreover have "unat (wj_page_id (writer s)) < 32768" using writer_tick by (simp add: below_limit_iff)
  ultimately have "unat (wj_page_id (writer s) + ?b) = unat (wj_page_id (writer s)) + unat ?b" by (simp add: unat_simps)
  then show ?thesis using writer_tick by (intro heap_small_grown [OF ok]) (auto simp: writer_effect_def)
next
  case (reader_tick as)
  have "unat (rj_page_id (reader s)) \<le> unat (fj_page_id (flusher s))" using inv_parts(9) [OF inv] by (simp add: counters_ok_def)
  from reader_batch_bound(2) [OF this reader_batch_def] show ?thesis
    using reader_tick by (intro heap_small_grown [OF ok]) (auto simp: reader_effect_def)
next
  case tracing_tick
  then show ?thesis using tick_effect_only [of s t] by (intro heap_small_shrink [OF ok]) (simp_all add: only_tracing_def)
next
  case dump_written
  then show ?thesis by (intro heap_small_shrink [OF ok]) (simp_all add: writed_effect_def only_tracing_def)
next
  case dump_synced
  then show ?thesis by (intro heap_small_shrink [OF ok]) (simp_all add: synced_effect_def only_tracing_def)
next
  case write_done
  then have "kind_at (op_heap t) = kind_at (op_heap s)" by (simp add: write_effect_def)
  then show ?thesis using write_done by (intro heap_small_shrink [OF ok]) (simp_all add: write_effect_def)
next
  case fsync_done
  then have "\<forall>b. kind_at (op_heap t) b = (if b \<in> set L then None else kind_at (op_heap s) b)" by (simp add: fsync_effect_def)
  then show ?thesis using fsync_done by (intro heap_small_shrink [OF ok]) (auto simp: fsync_effect_def dest: kind_at_SomeD split: if_splits)
next
  case read_done
  then have "kind_at (op_heap t) = (kind_at (op_heap s))(a := None)" by (simp add: read_effect_def)
  then show ?thesis using read_done by (intro heap_small_shrink [OF ok]) (auto simp: read_effect_def dest: kind_at_SomeD split: if_splits)
qed (use ok in \<open>auto simp: status_effect_def flusher_effect_def heap_small_def\<close>)

section \<open>Stopped jobs\<close>

text \<open>A job that does not run has reached \<open>BYTES_TO_WRITE\<close>.\<close>

definition stopped_ok :: "sched \<Rightarrow> bool" where
  "stopped_ok s \<longleftrightarrow> (\<not> job_running (wj_inner (writer s)) \<longrightarrow> \<not> below_limit (wj_page_id (writer s))) \<and>
     (\<not> job_running (fj_inner (flusher s)) \<longrightarrow> \<not> below_limit (fj_page_id (flusher s))) \<and>
     (\<not> job_running (rj_inner (reader s)) \<longrightarrow> \<not> below_limit (rj_page_id (reader s)))"

lemma effect_stopped:
  assumes inv: "sched_inv g os hi s (a # A) L" and e: "io_effect a L ok s t" and ok: "stopped_ok s"
  shows "stopped_ok t"
  using e
proof cases
  case (reader_tick as)
  have "unat (rj_page_id (reader s)) \<le> unat (fj_page_id (flusher s))" using inv_parts(9) [OF inv] by (simp add: counters_ok_def)
  from reader_batch_bound(2) [OF this reader_batch_def] show ?thesis
    using reader_tick ok by (auto simp: reader_effect_def stopped_ok_def below_limit_iff)
next
  case tracing_tick
  then show ?thesis using ok tick_effect_only [of s t] by (simp add: stopped_ok_def only_tracing_def)
next
  case fsync_done
  then show ?thesis using ok inv_parts(9) [OF inv] by (auto simp: fsync_effect_def stopped_ok_def counters_ok_def below_limit_iff)
qed (use ok in \<open>auto simp: writer_effect_def status_effect_def flusher_effect_def writed_effect_def synced_effect_def only_tracing_def
    write_effect_def read_effect_def stopped_ok_def\<close>)

end
