(* ===== verification/Sched_Start.thy ===== *)
theory Sched_Start
  imports Sched_Bounds Sched_Run
begin

text \<open>
  The state in which \<open>main\<close> enters its loop, and the invariants of all states that follow.
\<close>

section \<open>Initialisation\<close>

text \<open>Starting a job changes its callback, its flag \<open>running\<close> and the queue.\<close>

definition fresh_start :: "sched \<Rightarrow> bool" where
  "fresh_start t \<longleftrightarrow> op_heap t = Map.empty \<and> page_id_check_order t = 0 \<and>
     wj_page_id (writer t) = 0 \<and> wj_inflight (writer t) = 0 \<and> rj_page_id (reader t) = 0 \<and> rj_inflight (reader t) = 0 \<and>
     fj_page_id (flusher t) = 0 \<and> fj_inflight (flusher t) = 0 \<and> td_inflight (dump_op t) = 0 \<and>
     ring t = cbuf_reset sizeof_tracing_item TRACING_BUF_LEN"

lemma fresh_frame [simp]:
  "fresh_start (set_static_callback s x c) = fresh_start s" "fresh_start (s\<lparr>calls := k\<rparr>) = fresh_start s"
  "fresh_start (s\<lparr>sq := q\<rparr>) = fresh_start s"
  by (cases x) (simp_all add: fresh_start_def)

lemma run_job_fresh:
  assumes "fresh_start s" "run_job os s x = Inr (err, t)"
  shows "fresh_start t"
proof -
  obtain c i where c: "job_callback (static_job s x) = Some c" by (cases "job_callback (static_job s x)") (use assms(2) in \<open>auto simp: run_job_def resend_job_def\<close>)
  obtain u where u: "resend_job os s x = Inr (err, u)" "t = (if err then u else set_job u x ((static_job u x)\<lparr>job_running := True\<rparr>))"
    using assms(2) by (auto simp: run_job_def bind_res_Inr_iff)
  have "fresh_start u"
    using u(1) c assms(1)
    by (auto simp: resend_job_def io_prepare_sqe_def Let_def set_static_eq bind_res_Inr_iff io_uring_prep_def split: if_splits)
  moreover have "fresh_start (set_job u x j)" if "fresh_start u" for j using that by (cases x) (simp_all add: fresh_start_def)
  ultimately show ?thesis using u(2) by simp
qed

lemma main_init_fresh:
  assumes "zero_globals s" "main_init os s argc ret fd mem trace_fd m = Inr t"
  shows "fresh_start t"
proof -
  let ?w = "word_of_int fd"
  obtain b where b: "stats_init_all mem = Inr b" using assms(2) by (auto simp: main_init_def assert_res_Inr_iff bind_res_Inr_iff)
  define u where "u = background_flusher_init (background_reader_init (background_writer_init (s\<lparr>bg := b\<rparr>) ?w) ?w) ?w"
  obtain v w where v: "background_tracing_init os u trace_fd m = Inr v" and w: "background_status_init os v = Inr w"
    and runs: "\<exists>e1 e2 e3 e4 e5 w1 w2 w3 w4. run_job os w Op_writer = Inr (e1, w1) \<and> run_job os w1 Op_reader = Inr (e2, w2) \<and>
      run_job os w2 Op_flusher = Inr (e3, w3) \<and> run_job os w3 Op_tracing = Inr (e4, w4) \<and> run_job os w4 Op_status = Inr (e5, t)"
    using assms(2) b by (auto simp: main_init_def assert_res_Inr_iff bind_res_Inr_iff Let_def u_def)
  have "fresh_start w"
    using v w assms(1)
    by (auto simp: background_tracing_init_def background_status_init_def bind_res_Inr_iff assert_res_Inr_iff clock_returns
        u_def background_writer_init_def background_reader_init_def background_flusher_init_def zero_globals_def fresh_start_def
        cbuf_init_def Let_def)
  with runs run_job_fresh show ?thesis by blast
qed

lemma fresh_bounds: "fresh_start t \<Longrightarrow> ring_ok t \<and> heap_small t"
  by (simp add: fresh_start_def ring_ok_def heap_small_def cbuf_reset_def TRACING_BUF_LEN_def cbuf_used_count_def Let_def)

section \<open>Steps\<close>

text \<open>A step between states that satisfy the invariant is a change of the data, a submission, or
  the effect of a completion.\<close>

lemma sys_step_cases:
  assumes inv: "sys_inv g \<sigma>" and step: "sys_step \<sigma> \<tau>"
  obtains (submitted) "sys_app \<tau> = (sys_app \<sigma>)\<lparr>sq := []\<rparr>" "sys_kernel \<tau> = sys_kernel \<sigma> @ sq (sys_app \<sigma>)" "sys_os \<tau> = sys_os \<sigma>"
  | (changed) m where "sys_app \<tau> = (sys_app \<sigma>)\<lparr>read_mem := m\<rparr>" "sys_kernel \<tau> = sys_kernel \<sigma>" "sys_os \<tau> = sys_os \<sigma>"
  | (completed) K e K' r L where "sys_kernel \<sigma> = K @ e # K'" "sys_kernel \<tau> = K @ K'" "sys_os \<tau> = sys_os \<sigma>"
      "io_cqe (sys_os \<sigma>) (sys_app \<sigma>) (sqe_user_data e) r = Inr (sys_app \<tau>)"
      "sched_inv g (sys_os \<sigma>) (unat (wj_page_id (writer (sys_app \<sigma>)))) (sys_app \<sigma>)
         (sqe_user_data e # map sqe_user_data (K @ K')) L"
      "io_effect (sqe_user_data e) L (r \<ge> 0 \<or> r = - ETIME) (sys_app \<sigma>) (sys_app \<tau>)"
  using step
proof cases
  case submit
  then show thesis by (intro submitted) simp_all
next
  case (complete K e K' r s)
  let ?s = "sys_app \<sigma>"
  obtain L where "sched_inv g (sys_os \<sigma>) (unat (wj_page_id (writer ?s))) ?s (map sqe_user_data (K @ e # K')) L"
    using inv complete(2) by (auto simp: sys_inv_def at_rest_def)
  then have i: "sched_inv g (sys_os \<sigma>) (unat (wj_page_id (writer ?s))) ?s (sqe_user_data e # map sqe_user_data (K @ K')) L"
    by (rule inv_reorder) simp
  from io_cqe_effect [OF i complete(3)] complete i show thesis by (intro completed) simp_all
next
  case (data m)
  then show thesis by (intro changed) simp_all
qed

text \<open>A property of the state that the queue, the data and the effects keep, holds throughout.\<close>

lemma sys_steps_keep:
  assumes "sys_step\<^sup>*\<^sup>* \<sigma> \<tau>" "sys_inv g \<sigma>" "P (sys_app \<sigma>)"
    and sub: "\<And>s. P s \<Longrightarrow> P (s\<lparr>sq := []\<rparr>)" and data: "\<And>s m. P s \<Longrightarrow> P (s\<lparr>read_mem := m\<rparr>)"
    and eff: "\<And>os hi s a A L ok t. sched_inv g os hi s (a # A) L \<Longrightarrow> io_effect a L ok s t \<Longrightarrow> P s \<Longrightarrow> P t"
  shows "sys_inv g \<tau> \<and> P (sys_app \<tau>)"
  using assms(1)
proof (induction rule: rtranclp_induct)
  case base
  then show ?case using assms(2,3) by simp
next
  case (step \<tau> \<upsilon>)
  then have i: "sys_inv g \<tau>" "P (sys_app \<tau>)" by simp_all
  from i(1) step.hyps(2) have "P (sys_app \<upsilon>)"
  proof (cases rule: sys_step_cases)
    case submitted
    then show ?thesis using sub i(2) by simp
  next
    case (changed m)
    then show ?thesis using data i(2) by simp
  next
    case (completed K e K' r L)
    then show ?thesis using eff i(2) by blast
  qed
  with sys_step_inv [OF i(1) step.hyps(2)] show ?case by simp
qed

lemma bounds_keep:
  assumes "sys_step\<^sup>*\<^sup>* \<sigma> \<tau>" "sys_inv g \<sigma>" "ring_ok (sys_app \<sigma>)" "heap_small (sys_app \<sigma>)"
  shows "ring_ok (sys_app \<tau>) \<and> heap_small (sys_app \<tau>)"
proof -
  have "sys_inv g \<tau> \<and> (ring_ok (sys_app \<tau>) \<and> heap_small (sys_app \<tau>))"
    by (rule sys_steps_keep [OF assms(1,2)])
      (use assms(3,4) effect_ring effect_heap in \<open>auto simp: ring_ok_def heap_small_def\<close>)
  then show ?thesis by simp
qed

lemma stopped_keep:
  assumes "sys_step\<^sup>*\<^sup>* \<sigma> \<tau>" "sys_inv g \<sigma>" "stopped_ok (sys_app \<sigma>)"
  shows "stopped_ok (sys_app \<tau>)"
proof -
  have "sys_inv g \<tau> \<and> stopped_ok (sys_app \<tau>)"
    by (rule sys_steps_keep [OF assms(1,2)]) (use assms(3) effect_stopped in \<open>auto simp: stopped_ok_def\<close>)
  then show ?thesis by simp
qed

end
