(* ===== verification/Sched_Live.thy ===== *)
theory Sched_Live
  imports Sched_Start
begin

text \<open>
  As long as every completion is answered, nothing gets lost: the timeout of a running job, the
  \<open>fsync\<close> and the dump in flight, the write of each page that is issued and not completed, and
  the reads that the counter of the reader stands for are all in the queue or with the kernel.
\<close>

section \<open>Operations in \<open>thread_ctx\<close>\<close>

definition posted :: "sched \<Rightarrow> u64 list \<Rightarrow> static_op \<Rightarrow> bool" where
  "posted s A x \<longleftrightarrow> static_at s x \<in> set (pending s A)"

definition jobs_live :: "sched \<Rightarrow> u64 list \<Rightarrow> bool" where
  "jobs_live s A \<longleftrightarrow>
     (job_running (wj_inner (writer s)) \<longrightarrow> posted s A Op_writer) \<and>
     (job_running (rj_inner (reader s)) \<longrightarrow> posted s A Op_reader) \<and>
     (job_running (fj_inner (flusher s)) \<longrightarrow> posted s A Op_flusher) \<and>
     (\<not> jobs_finished s \<longrightarrow> posted s A Op_tracing \<and> job_running (tj_inner (tracing s))) \<and>
     (fj_inflight (flusher s) \<noteq> 0 \<longrightarrow> posted s A Op_fsync) \<and>
     (td_inflight (dump_op s) \<noteq> 0 \<longrightarrow> posted s A Op_dump)"

lemma posted_new: "ctx_base t = ctx_base s \<Longrightarrow> static_at s x \<in> set (queued t) \<Longrightarrow> posted t A x"
  by (auto simp: posted_def pending_queued static_at_def)

lemma posted_keep:
  "posted s (a # A) x \<Longrightarrow> a \<noteq> static_at s x \<Longrightarrow> ctx_base t = ctx_base s \<Longrightarrow> set (queued s) \<subseteq> set (queued t) \<Longrightarrow> posted t A x"
  by (auto simp: posted_def pending_queued static_at_def)

text \<open>One rule for all effects: a flag that is set afterwards was set before, and its operation is
  not the one that completed, or the operation was queued.\<close>

lemma jobs_liveI:
  assumes live: "jobs_live s (a # A)" and base: "ctx_base t = ctx_base s" and q: "set (queued s) \<subseteq> set (queued t)"
    and w: "job_running (wj_inner (writer t)) \<Longrightarrow>
      job_running (wj_inner (writer s)) \<and> a \<noteq> static_at s Op_writer \<or> static_at s Op_writer \<in> set (queued t)"
    and r: "job_running (rj_inner (reader t)) \<Longrightarrow>
      job_running (rj_inner (reader s)) \<and> a \<noteq> static_at s Op_reader \<or> static_at s Op_reader \<in> set (queued t)"
    and f: "job_running (fj_inner (flusher t)) \<Longrightarrow>
      job_running (fj_inner (flusher s)) \<and> a \<noteq> static_at s Op_flusher \<or> static_at s Op_flusher \<in> set (queued t)"
    and tr: "\<not> jobs_finished t \<Longrightarrow> \<not> jobs_finished s \<and> a \<noteq> static_at s Op_tracing \<or> static_at s Op_tracing \<in> set (queued t)"
    and fs: "fj_inflight (flusher t) \<noteq> 0 \<Longrightarrow>
      fj_inflight (flusher s) \<noteq> 0 \<and> a \<noteq> static_at s Op_fsync \<or> static_at s Op_fsync \<in> set (queued t)"
    and d: "td_inflight (dump_op t) \<noteq> 0 \<Longrightarrow>
      td_inflight (dump_op s) \<noteq> 0 \<and> a \<noteq> static_at s Op_dump \<or> static_at s Op_dump \<in> set (queued t)"
    and run: "\<not> jobs_finished t \<Longrightarrow> job_running (tj_inner (tracing s)) \<Longrightarrow> \<not> jobs_finished s \<Longrightarrow> job_running (tj_inner (tracing t))"
    and fin: "jobs_finished s \<Longrightarrow> jobs_finished t"
  shows "jobs_live t A"
proof -
  have "posted t A x" if "posted s (a # A) x \<and> a \<noteq> static_at s x \<or> static_at s x \<in> set (queued t)" for x
    using that posted_keep [OF _ _ base q] posted_new [OF base] by blast
  then show ?thesis using live w r f tr fs d run fin unfolding jobs_live_def by metis
qed

lemma dump_effect_queued: "dump_effect s t \<Longrightarrow> queued t = queued s \<and> td_inflight (dump_op t) = td_inflight (dump_op s) \<or>
    queued t = queued s @ [static_at s Op_dump]"
  by (auto simp: dump_effect_def split: if_splits)

lemma tick_effect_queued:
  assumes "tick_effect s t"
  shows "set (queued s) \<subseteq> set (queued t)"
    "\<not> jobs_finished s \<Longrightarrow> static_at s Op_tracing \<in> set (queued t)"
    "td_inflight (dump_op t) \<noteq> 0 \<Longrightarrow> td_inflight (dump_op s) \<noteq> 0 \<or> static_at s Op_dump \<in> set (queued t)"
    "\<exists>xs. queued t = queued s @ xs \<and> set xs \<subseteq> range (static_at s)"
proof -
  obtain u v where u: "item_effect s u" and v: "dump_effect u v \<or> v = u"
    and t: "if \<not> jobs_finished s \<or> td_inflight (dump_op v) \<noteq> 0
      then only_tracing v t \<and> tracing t = tracing v \<and> queued t = queued v @ [static_at s Op_tracing] else dump_effect v t"
    by (rule tick_effectE [OF assms])
  have at: "static_at u = static_at s" "static_at v = static_at s"
    using u v dump_effect_only [of u v] by (auto simp: item_effect_def only_tracing_def intro!: static_at_cong)
  have uv: "queued v = queued s \<and> td_inflight (dump_op v) = td_inflight (dump_op s) \<or> queued v = queued s @ [static_at s Op_dump]"
    using u v dump_effect_queued [of u v] by (auto simp: item_effect_def at)
  show "\<exists>xs. queued t = queued s @ xs \<and> set xs \<subseteq> range (static_at s)"
  proof -
    obtain ys where "queued v = queued s @ ys" "set ys \<subseteq> range (static_at s)" using uv by (metis append_Nil2 empty_set empty_subsetI insert_subset list.simps(15) rangeI)
    moreover obtain zs where "queued t = queued v @ zs" "set zs \<subseteq> range (static_at s)"
      using t dump_effect_queued [of v t] at by (metis append_Nil2 empty_set empty_subsetI insert_subset list.simps(15) rangeI)
    ultimately show ?thesis by (intro exI [of _ "ys @ zs"]) simp
  qed
  show "set (queued s) \<subseteq> set (queued t)" "\<not> jobs_finished s \<Longrightarrow> static_at s Op_tracing \<in> set (queued t)"
    "td_inflight (dump_op t) \<noteq> 0 \<Longrightarrow> td_inflight (dump_op s) \<noteq> 0 \<or> static_at s Op_dump \<in> set (queued t)"
    using t uv dump_effect_queued [of v t] by (auto simp: at split: if_splits)
qed

lemma effect_jobs_live:
  assumes e: "io_effect a L True s t" and live: "jobs_live s (a # A)"
  shows "jobs_live t A"
  using e
proof cases
  case (writer_tick as)
  then show ?thesis by (intro jobs_liveI [OF live]) (auto simp: writer_effect_def jobs_finished_def)
next
  case (reader_tick as)
  then show ?thesis by (intro jobs_liveI [OF live]) (auto simp: reader_effect_def jobs_finished_def)
next
  case status_tick
  then show ?thesis by (intro jobs_liveI [OF live]) (auto simp: status_effect_def jobs_finished_def)
next
  case tracing_tick
  have "only_tracing s t \<and> tj_inner (tracing t) = tj_inner (tracing s)" using tick_effect_only tracing_tick(2) by blast
  then show ?thesis using tracing_tick(1) tick_effect_queued [OF tracing_tick(2)]
    by (intro jobs_liveI [OF live]) (auto simp: only_tracing_def jobs_finished_def)
next
  case flusher_tick
  then show ?thesis by (intro jobs_liveI [OF live]) (auto simp: flusher_effect_def jobs_finished_def split: if_splits)
next
  case fsync_done
  then show ?thesis by (intro jobs_liveI [OF live]) (auto simp: fsync_effect_def jobs_finished_def)
next
  case dump_written
  then show ?thesis by (intro jobs_liveI [OF live]) (auto simp: writed_effect_def only_tracing_def jobs_finished_def)
next
  case dump_synced
  then show ?thesis by (intro jobs_liveI [OF live]) (auto simp: synced_effect_def only_tracing_def jobs_finished_def)
next
  case write_done
  then show ?thesis by (intro jobs_liveI [OF live]) (auto simp: write_effect_def jobs_finished_def static_of_None)
next
  case read_done
  then show ?thesis by (intro jobs_liveI [OF live]) (auto simp: read_effect_def jobs_finished_def static_of_None)
qed simp

section \<open>Page operations\<close>

definition reads :: "sched \<Rightarrow> u64 list \<Rightarrow> u64 list" where
  "reads s xs = filter (\<lambda>a. kind_at (op_heap s) a = Some None) xs"

definition pages_live :: "sched \<Rightarrow> u64 list \<Rightarrow> bool" where
  "pages_live s A \<longleftrightarrow>
     (\<forall>i. unat (page_id_check_order s) \<le> i \<and> i < unat (wj_page_id (writer s)) \<longrightarrow>
        (\<exists>b\<in>set (pending s A). kind_at (op_heap s) b = Some (Some (of_nat i)))) \<and>
     rj_inflight (reader s) = of_nat (length (reads s (pending s A)))"

lemma pages_live_same:
  assumes live: "pages_live s (a # A)" and none: "kind_at (op_heap s) a = None"
    and same: "\<And>b. b \<in> set (pending s A) \<Longrightarrow> kind_at (op_heap t) b = kind_at (op_heap s) b"
    and q: "queued t = queued s @ xs" "\<And>b. b \<in> set xs \<Longrightarrow> kind_at (op_heap t) b = None"
    and "page_id_check_order t = page_id_check_order s" "wj_page_id (writer t) = wj_page_id (writer s)"
      "rj_inflight (reader t) = rj_inflight (reader s)"
  shows "pages_live t A"
proof -
  have pd: "pending t A = pending s A @ xs" by (simp add: pending_queued q(1))
  have ps: "pending s (a # A) = a # pending s A" by (simp add: pending_def)
  have "reads t (pending s A) = reads s (pending s A)" unfolding reads_def by (rule filter_cong) (simp_all add: same)
  moreover have "reads t xs = []" using q(2) by (simp add: reads_def filter_empty_conv del: kind_at_None)
  ultimately have "reads t (pending t A) = reads s (pending s (a # A))"
    using none unfolding pd ps by (simp add: reads_def del: kind_at_None)
  moreover have "\<exists>b\<in>set (pending t A). kind_at (op_heap t) b = Some (Some (of_nat i))"
    if i: "unat (page_id_check_order s) \<le> i" "i < unat (wj_page_id (writer s))" for i
  proof -
    obtain b where b: "b \<in> set (pending s (a # A))" "kind_at (op_heap s) b = Some (Some (of_nat i))"
      using live i unfolding pages_live_def by blast
    then have "b \<in> set (pending s A)" using none ps by (auto simp del: kind_at_None)
    then show ?thesis using same [of b] b(2) pd by auto
  qed
  ultimately show ?thesis using live assms(6-8) by (simp add: pages_live_def)
qed

text \<open>What is pending is in \<open>thread_ctx\<close> or on the heap, and stays what it is.\<close>

lemma pending_kinds:
  assumes inv: "sched_inv g os hi s A L" and b: "b \<in> set (pending s A)"
  shows "static_of s b = None \<longleftrightarrow> op_heap s b \<noteq> None" "b \<notin> set L" "op_heap s b = None \<longleftrightarrow> (\<exists>x. b = static_at s x)"
proof -
  note p = inv_parts [OF inv]
  have "static_of s b = None" if "op_heap s b \<noteq> None" using p(3) that by (auto simp: heap_ok_def)
  moreover have "op_heap s b \<noteq> None" if "static_of s b = None"
    using p(7) [OF b] that by (metis op_ready_def object_ready.simps(3) option.case(1))
  ultimately show st: "static_of s b = None \<longleftrightarrow> op_heap s b \<noteq> None" by blast
  show "b \<notin> set L" using p(6) b by auto
  show "op_heap s b = None \<longleftrightarrow> (\<exists>x. b = static_at s x)" using st static_of_None [of s b] by auto
qed

lemma static_kind: "sched_inv g os hi s A L \<Longrightarrow> kind_at (op_heap s) (static_at s x) = None"
  using inv_parts(3) by (fastforce simp: heap_ok_def)

lemma grown_pending:
  assumes inv: "sched_inv g os hi s A L" and "grown s t as fs" "b \<in> set (pending s A)"
  shows "kind_at (op_heap t) b = kind_at (op_heap s) b"
proof -
  have "b \<notin> set as" using pending_kinds(1) [OF inv assms(3)] assms(2) by (auto simp: grown_def)
  then show ?thesis using assms(2) by (simp add: grown_def)
qed

lemma grown_static: "grown s t as fs \<Longrightarrow> kind_at (op_heap t) (static_at s x) = kind_at (op_heap s) (static_at s x)"
  by (auto simp: grown_def) (metis option.distinct(1) static_of_at)

lemma grown_reads:
  assumes "grown s t as fs"
  shows "length (reads t as) = length (filter (\<lambda>f. f = None) fs)"
proof -
  have "length (filter (\<lambda>k. k = Some None) (map (kind_at (op_heap t)) as)) = length (filter (\<lambda>k. k = Some None) (map Some fs))"
    using assms by (simp only: grown_def)
  then show ?thesis by (simp add: reads_def filter_map o_def)
qed

text \<open>New page operations behind those that are pending.\<close>

lemma pages_live_grown:
  assumes inv: "sched_inv g os hi s (static_at s x # A) L" and live: "pages_live s (static_at s x # A)" and gr: "grown s t as fs"
    and q: "queued t = queued s @ as @ (if c then [static_at s x] else [])"
    and inflight: "rj_inflight (reader t) = rj_inflight (reader s) + of_nat (length (filter (\<lambda>f. f = None) fs))"
    and check: "page_id_check_order t = page_id_check_order s"
    and new: "\<And>i. unat (wj_page_id (writer s)) \<le> i \<Longrightarrow> i < unat (wj_page_id (writer t)) \<Longrightarrow> Some (of_nat i) \<in> set fs"
  shows "pages_live t A"
proof -
  let ?a = "static_at s x"
  note keep = grown_pending [OF inv_drop [OF inv] gr]
  note none = static_kind [OF inv, of x]
  have pd: "pending t A = pending s A @ as @ (if c then [?a] else [])" by (simp add: pending_queued q)
  have ps: "pending s (?a # A) = ?a # pending s A" by (simp add: pending_def)
  have old: "reads t (pending s A) = reads s (pending s A)" unfolding reads_def by (rule filter_cong) (simp_all add: keep)
  have "reads t (if c then [?a] else []) = []" using none grown_static [OF gr, of x] by (simp add: reads_def del: kind_at_None)
  moreover have "reads s (pending s (?a # A)) = reads s (pending s A)" using none unfolding ps by (simp add: reads_def del: kind_at_None)
  moreover have "reads t (xs @ ys) = reads t xs @ reads t ys" for xs ys by (simp add: reads_def)
  ultimately have "length (reads t (pending t A)) = length (reads s (pending s (?a # A))) + length (filter (\<lambda>f. f = None) fs)"
    using old grown_reads [OF gr] unfolding pd by simp
  then have "rj_inflight (reader t) = of_nat (length (reads t (pending t A)))"
    using live inflight by (simp add: pages_live_def)
  moreover have "\<exists>b\<in>set (pending t A). kind_at (op_heap t) b = Some (Some (of_nat i))"
    if i: "unat (page_id_check_order s) \<le> i" "i < unat (wj_page_id (writer t))" for i
  proof (cases "i < unat (wj_page_id (writer s))")
    case True
    then obtain b where b: "b \<in> set (pending s (?a # A))" "kind_at (op_heap s) b = Some (Some (of_nat i))"
      using live i(1) unfolding pages_live_def by blast
    then have "b \<in> set (pending s A)" using none ps by (auto simp del: kind_at_None)
    then show ?thesis using keep [of b] b(2) pd by auto
  next
    case False
    then have "Some (of_nat i) \<in> set fs" using new i by simp
    then have "Some (Some (of_nat i)) \<in> set (map (kind_at (op_heap t)) as)" using gr by (simp add: grown_def)
    then obtain b where "b \<in> set as" "kind_at (op_heap t) b = Some (Some (of_nat i))" by auto
    then show ?thesis using pd by auto
  qed
  ultimately show ?thesis using check by (simp add: pages_live_def)
qed

lemma effect_pages_live:
  assumes inv: "sched_inv g os hi s (a # A) L" and e: "io_effect a L True s t" and live: "pages_live s (a # A)"
  shows "pages_live t A"
  using e
proof cases
  case (writer_tick as)
  let ?b = "next_batch_size (wj_inflight (writer s)) (wj_batch_size (writer s))"
  note eff = writer_tick(3) [unfolded writer_effect_def]
  have "unat ?b \<le> 16382" using inv_parts(9) [OF inv] by (intro next_batch_bound) (simp add: counters_ok_def)
  moreover have "unat (wj_page_id (writer s)) < 32768" using writer_tick by (simp add: below_limit_iff)
  ultimately have new: "unat (wj_page_id (writer t)) = unat (wj_page_id (writer s)) + unat ?b" using eff by (simp add: unat_simps)
  show ?thesis
  proof (rule pages_live_grown [OF inv [unfolded writer_tick(1)] live [unfolded writer_tick(1)]])
    show "grown s t as (map (\<lambda>k. Some (wj_page_id (writer s) + of_nat k)) [0..<unat ?b])" using eff by blast
    show "queued t = queued s @ as @ (if below_limit (wj_page_id (writer t)) then [static_at s Op_writer] else [])" using eff by blast
    show "page_id_check_order t = page_id_check_order s" using eff by blast
    have no: "filter (\<lambda>f. f = None) (map (\<lambda>k. Some (wj_page_id (writer s) + of_nat k)) [0..<unat ?b]) = []" by (simp add: filter_empty_conv)
    show "rj_inflight (reader t) = rj_inflight (reader s) +
        of_nat (length (filter (\<lambda>f. f = None) (map (\<lambda>k. Some (wj_page_id (writer s) + of_nat k)) [0..<unat ?b])))"
      unfolding no using eff by simp
    fix i assume i: "unat (wj_page_id (writer s)) \<le> i" "i < unat (wj_page_id (writer t))"
    then have "i - unat (wj_page_id (writer s)) < unat ?b" using new by simp
    moreover have "of_nat i = wj_page_id (writer s) + of_nat (i - unat (wj_page_id (writer s)))"
      using i(1) by (simp add: of_nat_diff)
    ultimately show "Some (of_nat i) \<in> set (map (\<lambda>k. Some (wj_page_id (writer s) + of_nat k)) [0..<unat ?b])" by force
  qed
next
  case (reader_tick as)
  note eff = reader_tick(2) [unfolded reader_effect_def]
  show ?thesis
  proof (rule pages_live_grown [OF inv [unfolded reader_tick(1)] live [unfolded reader_tick(1)]])
    show "grown s t as (map (\<lambda>k. None) [0..<unat (reader_batch s)])" using eff by blast
    show "queued t = queued s @ as @ (if below_limit (rj_page_id (reader t)) then [static_at s Op_reader] else [])" using eff by blast
    show "page_id_check_order t = page_id_check_order s" using eff by blast
    have "of_nat (unat (reader_batch s)) = (ucast (reader_batch s) :: u8)" by simp
    then show "rj_inflight (reader t) = rj_inflight (reader s) +
        of_nat (length (filter (\<lambda>f. f = None) (map (\<lambda>k. None) [0..<unat (reader_batch s)])))"
      using eff by simp
  qed (use eff in simp)
next
  case status_tick
  then show ?thesis using static_kind [OF inv]
    by (intro pages_live_same [OF live, of t "[static_at s Op_status]"]) (simp_all add: status_effect_def)
next
  case flusher_tick
  then show ?thesis using static_kind [OF inv]
    by (intro pages_live_same [OF live, of t "(if wants_fsync s then [static_at s Op_fsync] else []) @
      (if below_limit (fj_page_id (flusher s)) then [static_at s Op_flusher] else [])"])
      (auto simp: flusher_effect_def split: if_splits)
next
  case tracing_tick
  note o = tick_effect_only [OF tracing_tick(2), THEN conjunct1, unfolded only_tracing_def]
  obtain xs where xs: "queued t = queued s @ xs" "set xs \<subseteq> range (static_at s)" using tick_effect_queued(4) [OF tracing_tick(2)] by blast
  then have "kind_at (op_heap t) b = None" if "b \<in> set xs" for b using that o static_kind [OF inv] by auto
  then show ?thesis using o tracing_tick(1) xs(1) static_kind [OF inv]
    by (intro pages_live_same [OF live, of t xs]) simp_all
next
  case fsync_done
  have "kind_at (op_heap t) b = kind_at (op_heap s) b" if "b \<in> set (pending s A)" for b
    using fsync_done pending_kinds(2) [OF inv_drop [OF inv] that] by (simp add: fsync_effect_def)
  then show ?thesis using fsync_done static_kind [OF inv]
    by (intro pages_live_same [OF live, of t "[]"]) (simp_all add: fsync_effect_def)
next
  case dump_written
  then show ?thesis using static_kind [OF inv]
    by (intro pages_live_same [OF live, of t "[static_at s Op_dump]"]) (simp_all add: writed_effect_def only_tracing_def)
next
  case dump_synced
  then show ?thesis using static_kind [OF inv]
    by (intro pages_live_same [OF live, of t "[]"]) (simp_all add: synced_effect_def only_tracing_def)
next
  case write_done
  note eff = write_done(3) [unfolded write_effect_def]
  have ps: "pending s (a # A) = a # pending s A" "pending t A = pending s A" using eff by (simp_all add: pending_queued)
  have "reads t (pending t A) = reads s (pending s (a # A))" using eff write_done(2) by (simp add: ps reads_def)
  moreover have "\<exists>b\<in>set (pending t A). kind_at (op_heap t) b = Some (Some (of_nat i))"
    if i: "unat (page_id_check_order s + 1) \<le> i" "i < unat (wj_page_id (writer s))" for i
  proof -
    have c: "unat (page_id_check_order s + 1) = Suc (unat (page_id_check_order s))"
      using inv_parts(9) [OF inv] by (auto simp: counters_ok_def unat_simps)
    then obtain b where b: "b \<in> set (pending s (a # A))" "kind_at (op_heap s) b = Some (Some (of_nat i))"
      using live i unfolding pages_live_def by (metis Suc_leD)
    have "(of_nat i :: u32) \<noteq> page_id_check_order s"
    proof
      assume "of_nat i = page_id_check_order s"
      then have "unat (of_nat i :: u32) = unat (page_id_check_order s)" by simp
      moreover have "unat (of_nat i :: u32) = i" using i(2) unat_lt_u32 [of "wj_page_id (writer s)"] by (intro unat_of_nat_nowrap) simp
      ultimately show False using c i(1) by simp
    qed
    then have "b \<noteq> a" using b(2) write_done(2) by auto
    then show ?thesis using b eff ps by auto
  qed
  ultimately show ?thesis using live eff by (simp add: pages_live_def)
next
  case read_done
  note eff = read_done(3) [unfolded read_effect_def]
  have ps: "pending s (a # A) = a # pending s A" "pending t A = pending s A" using eff by (simp_all add: pending_queued)
  have na: "a \<notin> set (pending s A)" using head_not_pending [OF inv] .
  have "reads t (pending s A) = reads s (pending s A)" unfolding reads_def by (rule filter_cong) (use eff na in auto)
  moreover have "reads s (pending s (a # A)) = a # reads s (pending s A)" using read_done(2) by (simp add: ps reads_def)
  ultimately have "rj_inflight (reader t) = of_nat (length (reads t (pending t A)))"
    using live eff by (simp add: pages_live_def ps(2))
  moreover have "\<exists>b\<in>set (pending t A). kind_at (op_heap t) b = Some (Some (of_nat i))"
    if i: "unat (page_id_check_order s) \<le> i" "i < unat (wj_page_id (writer s))" for i
  proof -
    obtain b where b: "b \<in> set (pending s (a # A))" "kind_at (op_heap s) b = Some (Some (of_nat i))"
      using live i unfolding pages_live_def by blast
    then have "b \<noteq> a" using read_done(2) by auto
    then show ?thesis using b eff ps by auto
  qed
  ultimately show ?thesis using eff by (simp add: pages_live_def)
qed simp

end
