(* ===== verification/Sched_Total.thy ===== *)
theory Sched_Total
  imports Sched_Live
begin

text \<open>
  Which completions stop the program.  When memory, clock and submission queue do not fail, a
  completion of a request in flight stops it in exactly the cases that the assertions of the
  handlers name; every other completion is handled to the end.
\<close>

section \<open>An environment that does not fail\<close>

text \<open>\<open>malloc\<close> has room for as many operations as there are ever at a time.\<close>

definition good_os :: "os \<Rightarrow> bool" where
  "good_os os \<longleftrightarrow> (\<forall>n. os_clock os n \<noteq> None) \<and> (\<forall>n. os_get_sqe os n) \<and>
     (\<forall>n h. finite (dom h) \<and> card (dom h) < 98304 \<longrightarrow> os_malloc os n h \<noteq> 0)"

lemma clock_total:
  assumes "good_os os"
  obtains now where "clock_gettime os s = Inr (now, s\<lparr>calls := (calls s)\<lparr>clocks := clocks (calls s) + 1\<rparr>\<rparr>)"
proof -
  obtain now where "os_clock os (clocks (calls s)) = Some now" using assms unfolding good_os_def by blast
  then show thesis using that by (simp add: clock_gettime_def Let_def)
qed

lemma prepare_static_total:
  assumes "good_os os" "ctx_ok (ctx_base s)"
  shows "\<exists>t. prepare_request os s (static_at s x) c r = Inr t"
  using assms by (simp add: prepare_static good_os_def)

lemma resend_total:
  assumes "good_os os" "ctx_ok (ctx_base s)" "static_callback s x = Some c"
    and "x \<in> {Op_writer, Op_reader, Op_status, Op_tracing, Op_flusher}"
  shows "\<exists>t. resend os s x = Inr t"
proof -
  have "job_callback (static_job s x) = Some c" "set_static_callback s x (Some c) = s"
    using assms(3,4) by (auto simp: static_job_def)
  from resend_static [OF assms(2) this] show ?thesis using assms(1) by (simp add: resend_def good_os_def)
qed

section \<open>Page operations\<close>

definition heap_room :: "op_heap \<Rightarrow> nat \<Rightarrow> bool" where
  "heap_room h n \<longleftrightarrow> finite (dom h) \<and> card (dom h) + n \<le> 98304"

lemma malloc_total:
  assumes "good_os os" "heap_room (op_heap s) (Suc n)"
  shows "\<exists>a k. malloc_op os s x = Inr (a, s\<lparr>calls := k, op_heap := (op_heap s)(a \<mapsto> x)\<rparr>)"
proof -
  have "os_malloc os (mallocs (calls s)) (op_heap s) \<noteq> 0" using assms by (simp add: good_os_def heap_room_def)
  then show ?thesis by (simp add: malloc_op_def Let_def) blast
qed

lemma issue_write_total:
  assumes "good_os os" "malloc_ok os (ctx_base s)" "heap_room (op_heap s) (Suc n)"
  shows "\<exists>t. issue_write os s i = Inr t"
proof -
  let ?x = "Write_op \<lparr>pw_callback = None, pw_page_id = wj_page_id (writer s) + i,
      pw_user_fsync_callback = 0, pw_next = 0, pw_issued = \<lparr>tv_sec = 0, tv_nsec = 0\<rparr>\<rparr>"
  obtain a k where a: "malloc_op os s ?x = Inr (a, s\<lparr>calls := k, op_heap := (op_heap s)(a \<mapsto> ?x)\<rparr>)" (is "_ = Inr (a, ?u)")
    using malloc_total [OF assms(1,3)] by blast
  note new = malloc_returns(1-3) [OF assms(2) a]
  obtain now where "clock_gettime os ?u = Inr (now, ?u\<lparr>calls := (calls ?u)\<lparr>clocks := clocks (calls ?u) + 1\<rparr>\<rparr>)"
    using clock_total [OF assms(1)] .
  then show ?thesis using a new assms(1) by (simp add: issue_write_def Let_def prepare_write good_os_def)
qed

lemma issue_read_total:
  assumes "good_os os" "malloc_ok os (ctx_base s)" "heap_room (op_heap s) (Suc n)"
  shows "\<exists>t. issue_read os s i = Inr t"
proof -
  let ?x = "Read_op \<lparr>pr_callback = None, pr_buf = Read_buf, pr_issued = \<lparr>tv_sec = 0, tv_nsec = 0\<rparr>,
      pr_page_id = rj_page_id (reader s) + i\<rparr>"
  obtain a k where a: "malloc_op os s ?x = Inr (a, s\<lparr>calls := k, op_heap := (op_heap s)(a \<mapsto> ?x)\<rparr>)" (is "_ = Inr (a, ?u)")
    using malloc_total [OF assms(1,3)] by blast
  note new = malloc_returns(1-3) [OF assms(2) a]
  obtain now where "clock_gettime os ?u = Inr (now, ?u\<lparr>calls := (calls ?u)\<lparr>clocks := clocks (calls ?u) + 1\<rparr>\<rparr>)"
    using clock_total [OF assms(1)] .
  then show ?thesis using a new assms(1) by (simp add: issue_read_def Let_def prepare_read good_os_def)
qed

lemma ops_issued_room:
  assumes "ops_issued f s t i 1 [a]" "heap_room (op_heap s) (Suc n)"
  shows "heap_room (op_heap t) n"
proof -
  have "grown s t [a] [f i]" using assms(1) by (simp add: ops_issued_def)
  from grown_dom(1) [OF this] have "dom (op_heap t) = dom (op_heap s) \<union> {a}" by simp
  then show ?thesis using assms(2) by (auto simp: heap_room_def card_insert_if)
qed

lemma issue_batch_total:
  assumes one: "\<And>s i n. malloc_ok os (ctx_base s) \<Longrightarrow> heap_room (op_heap s) (Suc n) \<Longrightarrow> \<exists>t. issue s i = Inr t"
    and returns: "\<And>s i t. malloc_ok os (ctx_base s) \<Longrightarrow> issue s i = Inr t \<Longrightarrow> \<exists>f a. ops_issued f s t i 1 [a]"
  shows "malloc_ok os (ctx_base s) \<Longrightarrow> heap_room (op_heap s) n \<Longrightarrow> \<exists>t. issue_batch issue s i n = Inr t \<and> same_ctx s t"
proof (induction n arbitrary: s i)
  case 0
  then show ?case by (simp add: same_ctx_def)
next
  case (Suc n)
  obtain t where t: "issue s i = Inr t" using one [OF Suc.prems] by blast
  obtain f a where iss: "ops_issued f s t i 1 [a]" using returns [OF Suc.prems(1) t] by blast
  then have st: "same_ctx s t" by (simp add: ops_issued_def)
  then have "\<exists>u. issue_batch issue t (i + 1) n = Inr u \<and> same_ctx t u"
    using Suc.prems(1) ops_issued_room [OF iss Suc.prems(2)] by (intro Suc.IH) (simp_all add: same_ctx_def)
  then show ?case using t same_ctx_trans [OF st] by auto
qed

lemma issue_writes_total:
  assumes "good_os os" "malloc_ok os (ctx_base s)" "heap_room (op_heap s) n"
  shows "\<exists>t. issue_batch (issue_write os) s i n = Inr t \<and> same_ctx s t"
proof (rule issue_batch_total [OF _ _ assms(2,3)])
  show "\<exists>t. issue_write os s i = Inr t" if "malloc_ok os (ctx_base s)" "heap_room (op_heap s) (Suc n)" for s i n
    using issue_write_total [OF assms(1) that] .
  show "\<exists>f a. ops_issued f s t i 1 [a]" if "malloc_ok os (ctx_base s)" "issue_write os s i = Inr t" for s i t
    using issue_write_returns [OF that] by blast
qed

lemma issue_reads_total:
  assumes "good_os os" "malloc_ok os (ctx_base s)" "heap_room (op_heap s) n"
  shows "\<exists>t. issue_batch (issue_read os) s i n = Inr t \<and> same_ctx s t"
proof (rule issue_batch_total [OF _ _ assms(2,3)])
  show "\<exists>t. issue_read os s i = Inr t" if "malloc_ok os (ctx_base s)" "heap_room (op_heap s) (Suc n)" for s i n
    using issue_read_total [OF assms(1) that] .
  show "\<exists>f a. ops_issued f s t i 1 [a]" if "malloc_ok os (ctx_base s)" "issue_read os s i = Inr t" for s i t
    using issue_read_returns [OF that] by blast
qed

section \<open>Ticks\<close>

lemma background_writer_total:
  assumes good: "good_os os" and inv: "sched_inv g os hi s (static_at s Op_writer # A) L" and small: "heap_small s"
  shows "\<exists>t. background_writer os s (static_at s Op_writer) = Inr t"
proof -
  note p = inv_parts [OF inv] and c = inv_parts(9) [OF inv, unfolded counters_ok_def]
  define b where "b = next_batch_size (wj_inflight (writer s)) (wj_batch_size (writer s))"
  define u where "u = s\<lparr>writer := (writer s)\<lparr>wj_batch_size := b\<rparr>\<rparr>"
  have "unat b \<le> 16382" unfolding b_def using c by (intro next_batch_bound) simp
  moreover have "unat (wj_page_id (writer s)) < 32768" using inv_static_ready [OF inv, of Op_writer] by (simp add: below_limit_iff)
  ultimately have "heap_room (op_heap u) (unat b)" using small c by (simp add: heap_small_def heap_room_def u_def)
  then obtain v where v: "issue_batch (issue_write os) u 0 (unat b) = Inr v" "same_ctx u v"
    using issue_writes_total [OF good, of u "unat b" 0] p(2) by (auto simp: u_def)
  let ?v = "v\<lparr>writer := (writer v)\<lparr>wj_inflight := wj_inflight (writer v) + ucast b, wj_page_id := wj_page_id (writer v) + b\<rparr>\<rparr>"
  have "\<exists>t. resend os ?v Op_writer = Inr t"
    using v(2) p(1,4) by (intro resend_total [OF good, where c = Background_writer]) (simp_all add: same_ctx_def u_def jobs_ready_def)
  then show ?thesis using v(1) by (simp add: background_writer_def Let_def b_def u_def)
qed

lemma background_reader_total:
  assumes good: "good_os os" and inv: "sched_inv g os hi s (static_at s Op_reader # A) L" and small: "heap_small s"
  shows "\<exists>t. background_reader os s (static_at s Op_reader) = Inr t"
proof -
  note p = inv_parts [OF inv] and c = inv_parts(9) [OF inv, unfolded counters_ok_def]
  define b where "b = reader_batch s"
  define u where "u = s\<lparr>reader := (reader s)\<lparr>rj_batch_size := b\<rparr>\<rparr>"
  have "unat b \<le> unat (fj_page_id (flusher s)) - unat (rj_page_id (reader s))"
    using c reader_batch_bound(1) [OF _ reader_batch_def [of s]] by (simp add: b_def)
  moreover have "unat (rj_page_id (reader s)) \<le> unat (fj_page_id (flusher s))" "unat (fj_page_id (flusher s)) \<le> 49150"
    "unat (wj_page_id (writer s)) \<le> 49150" using c by linarith+
  ultimately have "unat b + unat (wj_page_id (writer s)) + unat (rj_page_id (reader s)) \<le> 98304" by linarith
  then have "heap_room (op_heap u) (unat b)" using small by (simp add: heap_small_def heap_room_def u_def)
  then obtain v where v: "issue_batch (issue_read os) u 0 (unat b) = Inr v" "same_ctx u v"
    using issue_reads_total [OF good, of u "unat b" 0] p(2) by (auto simp: u_def)
  let ?v = "v\<lparr>reader := (reader v)\<lparr>rj_inflight := rj_inflight (reader v) + ucast b, rj_page_id := rj_page_id (reader v) + b\<rparr>\<rparr>"
  have "\<exists>t. resend os ?v Op_reader = Inr t"
    using v(2) p(1,4) by (intro resend_total [OF good, where c = Background_reader]) (simp_all add: same_ctx_def u_def jobs_ready_def)
  then show ?thesis using v(1) by (simp add: background_reader_def Let_def b_def reader_batch_def u_def)
qed

lemma background_flusher_total:
  assumes good: "good_os os" and inv: "sched_inv g os hi s (static_at s Op_flusher # A) L"
  shows "\<exists>t. background_flusher os s (static_at s Op_flusher) = Inr t"
proof -
  note p = inv_parts [OF inv]
  obtain now where now: "clock_gettime os s = Inr (now, s\<lparr>calls := (calls s)\<lparr>clocks := clocks (calls s) + 1\<rparr>\<rparr>)"
    using clock_total [OF good] .
  let ?u = "s\<lparr>calls := (calls s)\<lparr>clocks := clocks (calls s) + 1\<rparr>, flusher := (flusher s)\<lparr>fj_op_fsync := (fj_op_fsync (flusher s))\<lparr>fs_issued := now\<rparr>\<rparr>\<rparr>"
  obtain v where v: "prepare_request os ?u (static_at ?u Op_fsync) File_synced (Prep_fsync (fj_fd (flusher s))) = Inr v"
    using prepare_static_total [OF good, of ?u Op_fsync] p(1) by auto
  then have "v = enqueue (set_static_callback ?u Op_fsync (Some File_synced)) (static_at ?u Op_fsync) (Prep_fsync (fj_fd (flusher s)))"
    using prepare_static_returns [OF _ v] p(1) by simp
  then have "\<exists>t. resend os (v\<lparr>flusher := (flusher v)\<lparr>fj_inflight := 1\<rparr>\<rparr>) Op_flusher = Inr t"
    using p(1,4) by (intro resend_total [OF good, where c = Background_flusher]) (simp_all add: jobs_ready_def)
  moreover have "\<exists>t. resend os s Op_flusher = Inr t"
    using p(1,4) by (intro resend_total [OF good, where c = Background_flusher]) (simp_all add: jobs_ready_def)
  ultimately show ?thesis using now v by (simp add: background_flusher_def Let_def)
qed

lemma dump_total:
  assumes good: "good_os os" and "ctx_ok (ctx_base s)"
  shows "\<exists>t. dump_tracing_items os s = Inr t"
proof -
  let ?u = "\<lambda>n. s\<lparr>tracing := (tracing s)\<lparr>tj_dump_op := (dump_op s)\<lparr>td_items := n, td_to_write := n * sizeof_tracing_item, td_inflight := 1\<rparr>\<rparr>\<rparr>"
  have "\<exists>t. prepare_request os (?u n) (static_at (?u n) Op_dump) Tracing_writed r = Inr t" for n r
    using prepare_static_total [OF good, of "?u n" Op_dump] assms(2) by simp
  then show ?thesis by (simp add: dump_tracing_items_def Let_def split: prod.split)
qed

lemma background_tracing_total:
  assumes good: "good_os os" and inv: "sched_inv g os hi s (static_at s Op_tracing # A) L"
  shows "\<exists>t. background_tracing os s (static_at s Op_tracing) = Inr t"
proof -
  note p = inv_parts [OF inv]
  let ?P = "\<lambda>u. ctx_ok (ctx_base u) \<and> static_callback u Op_tracing = Some Background_tracing"
  have P: "?P s" using p(1,4) by (simp add: jobs_ready_def)
  obtain now where now: "clock_gettime os s = Inr (now, s\<lparr>calls := (calls s)\<lparr>clocks := clocks (calls s) + 1\<rparr>\<rparr>)"
    using clock_total [OF good] .
  have dump: "\<exists>v. dump_tracing_items os u = Inr v \<and> ?P v" if u: "?P u" for u
  proof -
    obtain v where v: "dump_tracing_items os u = Inr v" using dump_total [OF good, of u] u by blast
    from dump_effect_only [OF dump_tracing_items_returns [OF conjunct1 [OF u] v]] v u show ?thesis by (auto simp: only_tracing_def)
  qed
  have last: "\<exists>t. (if b then resend os v Op_tracing else dump_tracing_items os v) = Inr t" if "?P v" for b v
    using dump [OF that] resend_total [OF good, of v Op_tracing Background_tracing] that by auto
  have rest: "\<exists>t. bind_res (if b then dump_tracing_items os u else Inr u) (\<lambda>s.
      if c \<or> td_inflight (dump_op s) \<noteq> 0 then resend os s Op_tracing else dump_tracing_items os s) = Inr t" if u: "?P u" for b c u
  proof -
    obtain v where "(if b then dump_tracing_items os u else Inr u) = Inr v" "?P v" using dump [OF u] u by (cases b) auto
    with last [of v "c \<or> td_inflight (dump_op v) \<noteq> 0"] show ?thesis by simp
  qed
  have Pu: "?P (s\<lparr>calls := k, tracing := (tracing s)\<lparr>tj_cbuf := c, tj_trace_done := d\<rparr>\<rparr>)" for k c d using P by simp
  obtain room item where put: "cbuf_put (ring s) = (room, item)" by (cases "cbuf_put (ring s)") auto
  let ?m = "if room \<noteq> 0 \<and> \<not> jobs_finished s
         then bind_res (clock_gettime os s) (\<lambda>(now, s).
              let c = cbuf_write (tj_cbuf (tracing s)) item
                        (tracing_item_bytes s (trace_elapsed now (tj_start_time (tracing s))))
              in Inr (s\<lparr>tracing := (tracing s)\<lparr>tj_cbuf := cbuf_advance_tail c 1,
                                                tj_trace_done := tj_trace_done (tracing s) + 1\<rparr>\<rparr>))
         else Inr s"
  obtain u where u: "?m = Inr u" "?P u"
  proof (cases "room \<noteq> 0 \<and> \<not> jobs_finished s")
    case True
    then show thesis using that now Pu by (simp add: Let_def)
  next
    case False
    then show thesis using that [of s] P by auto
  qed
  have "background_tracing os s (static_at s Op_tracing) = bind_res ?m (\<lambda>u. bind_res
        (if cbuf_free_count (ring u) \<le> cbuf_len (ring u) div 2 then dump_tracing_items os u else Inr u) (\<lambda>t.
        if \<not> jobs_finished s \<or> td_inflight (dump_op t) \<noteq> 0 then resend os t Op_tracing else dump_tracing_items os t))"
    by (simp add: background_tracing_def put Let_def)
  then show ?thesis
    using rest [OF u(2), of "cbuf_free_count (ring u) \<le> cbuf_len (ring u) div 2" "\<not> jobs_finished s"] unfolding u(1) by simp
qed

lemma stats_total:
  assumes "stats_ready b"
  shows "\<exists>c. count_write b us = Inr c" "\<exists>c. count_read b us = Inr c" "\<exists>c. count_fsync b us = Inr c"
    "\<exists>c. move_all b e = Inr c"
proof -
  have add: "\<exists>c. stats_bucket_add d v = Inr c" if "stats_ok d" for d v using add_simulates [OF that] by blast
  obtain wc rc fc where one: "stats_bucket_add (write_count_stats b) 1 = Inr wc" "stats_bucket_add (read_count_stats b) 1 = Inr rc"
      "stats_bucket_add (fsync_count_stats b) 1 = Inr fc"
    using assms add unfolding stats_ready_def by meson
  obtain wl rl fl where us: "stats_bucket_add (write_latency_stats b) us = Inr wl" "stats_bucket_add (read_latency_stats b) us = Inr rl"
      "stats_bucket_add (fsync_latency_stats b) us = Inr fl"
    using assms add unfolding stats_ready_def by meson
  show "\<exists>c. count_write b us = Inr c" "\<exists>c. count_read b us = Inr c" "\<exists>c. count_fsync b us = Inr c"
    using one us by (simp_all add: count_write_def count_read_def count_fsync_def stats_bucket_add_one_def)
  show "\<exists>c. move_all b e = Inr c" using assms by (simp add: move_all_def stats_ready_def stats_move_run(1))
qed

lemma background_status_total:
  assumes good: "good_os os" and inv: "sched_inv g os hi s (static_at s Op_status # A) L"
  shows "\<exists>t. background_status os s (static_at s Op_status) = Inr t"
proof -
  note p = inv_parts [OF inv]
  obtain now where now: "clock_gettime os s = Inr (now, s\<lparr>calls := (calls s)\<lparr>clocks := clocks (calls s) + 1\<rparr>\<rparr>)"
    using clock_total [OF good] .
  obtain b where b: "move_all (bg s) (elapsed_ns now (sj_last_time (status s))) = Inr b" using stats_total(4) [OF p(5)] by blast
  have "\<exists>t. resend os (s\<lparr>calls := k, printed := q, bg := b, status := (status s)\<lparr>sj_last_time := now\<rparr>\<rparr>) Op_status = Inr t" for k q
    using p(1,4) by (intro resend_total [OF good, where c = Background_status]) (simp_all add: jobs_ready_def)
  then show ?thesis using now b by (simp add: background_status_def Let_def)
qed

section \<open>Completed writes\<close>

lemma append_keeps:
  "write_list_append s a = Inr t \<Longrightarrow> writer t = writer s \<and> page_id_check_order t = page_id_check_order s \<and> bg t = bg s \<and>
     fj_page_id (flusher t) = fj_page_id (flusher s) \<and> ctx_base t = ctx_base s"
  by (auto simp: write_list_append_def Let_def split: if_splits option.splits op_object.splits)

text \<open>A completed write that is the next in order succeeds.\<close>

lemma page_written_run:
  assumes inv: "sched_inv False os (unat (wj_page_id (writer s))) s (a # A) L" and w: "op_heap s a = Some (Write_op w)"
    and "pw_page_id w = page_id_check_order s" "os_clock os (clocks (calls s)) = Some now"
  shows "\<exists>t. page_written os s a = Inr t \<and> page_id_check_order t = page_id_check_order s + 1 \<and>
    wj_written_no_flush (writer t) = wj_written_no_flush (writer s) + 1 \<and> wj_inflight (writer t) = wj_inflight (writer s) - 1 \<and>
    fj_page_id (flusher t) = fj_page_id (flusher s) \<and> ctx_base t = ctx_base s \<and>
    sb_acc_val (write_count_stats (bg t)) = sb_acc_val (write_count_stats (bg s)) + 1 \<and>
    sb_acc_val (write_latency_stats (bg t)) = sb_acc_val (write_latency_stats (bg s)) + elapsed_us now (pw_issued w)"
proof -
  note p = inv_parts [OF inv]
  have a: "static_of s a = None" "a \<noteq> 0" using p(3) w by (auto simp: heap_ok_def)
  have "op_ready False (unat (wj_page_id (writer s))) s a" using p(7) [of a] by simp
  note v = op_ready_write [OF this a(1) w]
  have L: "a \<notin> set L" "distinct L" using p(6) by (auto simp: pending_def)
  have le: "unat (fj_page_id (flusher s)) \<le> unat (page_id_check_order s)" using p(9) by (simp add: counters_ok_def)
  let ?s = "s\<lparr>page_id_check_order := page_id_check_order s + 1, calls := (calls s)\<lparr>clocks := clocks (calls s) + 1\<rparr>\<rparr>"
  obtain u where u: "write_list_append ?s a = Inr u"
    using append_run [of ?s "unat (fj_page_id (flusher s))" "unat (page_id_check_order s)" L a w] p(8) L a(2) w v(2,3) le assms(3)
    by auto
  note k = append_keeps [OF u]
  have st: "stats_ok (write_count_stats (bg s))" "stats_ok (write_latency_stats (bg s))"
    using p(5) by (simp_all add: stats_ready_def)
  have add: "\<exists>c. stats_bucket_add b x = Inr c \<and> sb_acc_val c = sb_acc_val b + x" if ok: "stats_ok b" for b x
  proof -
    obtain c where c: "stats_bucket_add b x = Inr c" using add_simulates [OF ok] by blast
    then have "sb_acc_val c = sb_acc_val b + x"
      by (auto simp: stats_bucket_add_def Let_def bind_res_Inr_iff)
    with c show ?thesis by blast
  qed
  obtain c l where c: "stats_bucket_add (write_count_stats (bg s)) 1 = Inr c" "sb_acc_val c = sb_acc_val (write_count_stats (bg s)) + 1"
      "stats_bucket_add (write_latency_stats (bg s)) (elapsed_us now (pw_issued w)) = Inr l"
      "sb_acc_val l = sb_acc_val (write_latency_stats (bg s)) + elapsed_us now (pw_issued w)"
    using add st by meson
  have "write_list_append ?s a = Inr u" by (rule u)
  then have "page_written os s a = Inr (u\<lparr>writer := (writer u)\<lparr>wj_written_no_flush := wj_written_no_flush (writer u) + 1,
      wj_inflight := wj_inflight (writer u) - 1\<rparr>, bg := (bg u)\<lparr>write_count_stats := c, write_latency_stats := l\<rparr>\<rparr>)"
    using w assms(3,4) k c(1,3)
    by (simp add: page_written_def clock_gettime_def Let_def count_write_def stats_bucket_add_one_def)
  then show ?thesis using k c(2,4) by simp
qed

lemma file_synced_runs:
  assumes inv: "sched_inv g os hi s (static_at s Op_fsync # A) L" and "os_clock os (clocks (calls s)) = Some now"
  shows "\<exists>u. file_synced os s (static_at s Op_fsync) = Inr u"
proof -
  note p = inv_parts [OF inv]
  have run: "free_written u (wl_tail (fj_write_list (flusher s))) = Some (Inr (freed_list u L))" if "op_heap u = op_heap s" for u
    using p(6,8) that by (intro free_written_eq) (simp_all add: list_ok_def)
  have bgf: "bg (freed_list u L) = bg u" for u by (simp add: freed_list_def)
  have add: "\<exists>c. stats_bucket_add b x = Inr c" if ok: "stats_ok b" for b x
    using add_simulates [OF ok] by blast
  obtain c where c: "stats_bucket_add (fsync_count_stats (bg s)) 1 = Inr c"
    using add p(5) unfolding stats_ready_def by blast
  have l: "\<exists>l. stats_bucket_add (fsync_latency_stats (bg s)) x = Inr l" for x
    using add p(5) unfolding stats_ready_def by blast
  have "\<exists>b. count_fsync (bg s) x = Inr b" for x
    using l [of x] c by (auto simp: count_fsync_def stats_bucket_add_one_def)
  then show ?thesis
    by (auto simp: file_synced_def clock_gettime_def assms(2) Let_def run bgf bind_res_Inr_iff)
qed

lemma page_read_run:
  assumes good: "good_os os" and inv: "sched_inv g os hi s (a # A) L" and w: "op_heap s a = Some (Read_op q)" "pr_buf q = Read_buf"
    and "map write_buf [0..<8] = map (read_mem s) [0..<8]"
  shows "\<exists>t. page_read os s a = Inr t"
proof -
  obtain now where now: "clock_gettime os s = Inr (now, s\<lparr>calls := (calls s)\<lparr>clocks := clocks (calls s) + 1\<rparr>\<rparr>)"
    using clock_total [OF good] .
  obtain b where b: "count_read (bg s) (elapsed_us now (pr_issued q)) = Inr b" using stats_total(2) [OF inv_parts(5) [OF inv]] by blast
  have "buffer_bytes (s\<lparr>calls := k\<rparr>) Read_buf = Inr (map (read_mem s) [0..<8])" for k by (simp add: buffer_bytes_def)
  then show ?thesis using now b w assms(5) by (simp add: page_read_def Let_def free_op_def del: upt_rec_numeral)
qed

section \<open>Accepted completions\<close>

text \<open>
  What the assertions of the completion handlers ask for: a timeout is that of a job; the page
  written is the next one in order; the bytes read are those that were written; the trace was
  written in full.
\<close>

definition accepted :: "sched \<Rightarrow> u64 \<Rightarrow> int \<Rightarrow> bool" where
  "accepted s a r \<longleftrightarrow>
     (r = - ETIME \<longrightarrow> op_callback s a \<in> Some ` set job_callbacks) \<and>
     (r \<ge> 0 \<longrightarrow>
        (op_callback s a = Some Page_written \<longrightarrow> kind_at (op_heap s) a = Some (Some (page_id_check_order s))) \<and>
        (op_callback s a = Some Page_read \<longrightarrow> map write_buf [0..<8] = map (read_mem s) [0..<8]) \<and>
        (op_callback s a = Some Tracing_writed \<longrightarrow> word_of_int r = td_to_write (dump_op s)))"

lemma io_cqe_total:
  assumes good: "good_os os" and inv: "sched_inv False os (unat (wj_page_id (writer s))) s (a # A) L" and small: "heap_small s"
    and acc: "accepted s a r"
  shows "\<exists>t. io_cqe os s a r = Inr t"
proof (cases "r \<ge> 0 \<or> r = - ETIME")
  case False
  obtain c where "op_callback s a = Some c" using ready_cases [OF inv] by metis
  from io_cqe_eq [OF inv this, of r] False show ?thesis by simp
next
  case True
  have go: "\<exists>t. io_cqe os s a r = Inr t" if "op_callback s a = Some c" "\<exists>t. run_callback os s c a r = Inr t" for c
    using io_cqe_eq [OF inv that(1), of r] that True acc by (auto simp: accepted_def)
  note p = inv_parts [OF inv]
  from inv show ?thesis
  proof (cases rule: ready_cases)
    case job_writer
    with go [of Background_writer] background_writer_total [OF good _ small] inv show ?thesis by auto
  next
    case job_reader
    with go [of Background_reader] background_reader_total [OF good _ small] inv show ?thesis by auto
  next
    case job_status
    with go [of Background_status] background_status_total [OF good] inv show ?thesis by auto
  next
    case job_tracing
    with go [of Background_tracing] background_tracing_total [OF good] inv show ?thesis by auto
  next
    case job_flusher
    with go [of Background_flusher] background_flusher_total [OF good] inv show ?thesis by auto
  next
    case fsync
    obtain now where "os_clock os (clocks (calls s)) = Some now" using good unfolding good_os_def by blast
    with fsync go [of File_synced] file_synced_runs [of False os _ s A L now] inv show ?thesis by auto
  next
    case writed
    then have r: "r \<ge> 0" using True acc by (auto simp: accepted_def job_callbacks_def)
    let ?s = "s\<lparr>tracing := (tracing s)\<lparr>tj_cbuf := cbuf_advance_head (ring s) (td_items (dump_op s))\<rparr>\<rparr>"
    have "\<exists>t. prepare_request os ?s (static_at ?s Op_dump) Tracing_synced (Prep_fsync (td_fd (dump_op s))) = Inr t"
      using p(1) by (intro prepare_static_total [OF good]) simp
    with writed go [of Tracing_writed] r acc show ?thesis by (simp add: tracing_writed_def Let_def accepted_def)
  next
    case synced
    with go [of Tracing_synced] show ?thesis by (simp add: tracing_synced_def Let_def)
  next
    case (page_write w)
    then have r: "r \<ge> 0" using True acc by (auto simp: accepted_def job_callbacks_def)
    then have "pw_page_id w = page_id_check_order s" using page_write acc by (simp add: accepted_def kind_at_def)
    moreover obtain now where "os_clock os (clocks (calls s)) = Some now" using good unfolding good_os_def by blast
    ultimately have "\<exists>t. page_written os s a = Inr t" using page_written_run [OF inv page_write(2)] by blast
    with page_write go [of Page_written] show ?thesis by simp
  next
    case (page_read_op q)
    then have "r \<ge> 0" using True acc by (auto simp: accepted_def job_callbacks_def)
    then have "map write_buf [0..<8] = map (read_mem s) [0..<8]" using page_read_op acc by (simp add: accepted_def)
    from page_read_run [OF good inv page_read_op(2,4) this] page_read_op go [of Page_read] show ?thesis by simp
  qed
qed

lemma io_cqe_stops:
  assumes inv: "sched_inv False os (unat (wj_page_id (writer s))) s (a # A) L" and acc: "\<not> accepted s a r"
  shows "io_cqe os s a r = Inl AssertFail"
proof (rule ccontr)
  assume "io_cqe os s a r \<noteq> Inl AssertFail"
  then obtain t where t: "io_cqe os s a r = Inr t" using safe_cases [OF io_cqe_inv [OF inv, of r]] by blast
  obtain c where c: "op_callback s a = Some c" using ready_cases [OF inv] by metis
  note eq = io_cqe_eq [OF inv c, of r]
  have "r \<ge> 0"
  proof (rule ccontr)
    assume "\<not> r \<ge> 0"
    then have "r = - ETIME" "c \<notin> set job_callbacks" using acc c by (auto simp: accepted_def)
    then show False using t eq by simp
  qed
  then have run: "run_callback os s c a r = Inr t" using eq t by (simp add: ETIME_def)
  from inv c run acc \<open>r \<ge> 0\<close> show False
    by (cases rule: ready_cases)
      (auto simp: accepted_def ETIME_def kind_at_def page_written_def page_read_def buffer_bytes_def tracing_writed_def Let_def
        assert_res_Inr_iff bind_res_Inr_iff clock_returns)
qed

end
