(* ===== verification/Handler_Properties.thy ===== *)
theory Handler_Properties
  imports Sched_Total
begin

text \<open>The properties of the single handlers, with their applications.\<close>

section \<open>Submission and dispatch\<close>

text \<open>C33. The round trip of \<open>user_data\<close>: an operation of \<open>thread_ctx\<close> that \<open>io_prepare_sqe\<close> puts
  on the queue comes back, from the \<open>user_data\<close> of its entry, as the same operation, and
  \<open>io_tick\<close> runs the callback that was registered (results below zero other than \<open>-ETIME\<close>
  are dropped, and \<open>-ETIME\<close> is asserted to belong to a job).\<close>
theorem prepared_op_dispatched:
  assumes "ctx_ok (ctx_base s)" "os_get_sqe os (sqes (calls s))"
  shows "\<exists>t. io_prepare_sqe os s (static_at s x) c = Inr (Some (length (sq s)), t) \<and>
    sqe_user_data (sq t ! length (sq s)) = static_at s x \<and>
    io_cqe os t (sqe_user_data (sq t ! length (sq s))) r =
      (if r = - ETIME \<and> c \<notin> set job_callbacks then Inl AssertFail
       else if r \<ge> 0 \<or> r = - ETIME then run_callback os t c (static_at s x) r else Inr t)"
proof -
  let ?k = "(calls s)\<lparr>sqes := sqes (calls s) + 1\<rparr>"
  let ?t = "((set_static_callback s x (Some c))\<lparr>calls := ?k\<rparr>)\<lparr>sq := sq s @ [\<lparr>sqe_user_data = static_at s x, sqe_req = Unprepared\<rparr>]\<rparr>"
  note b = static_at_bound [OF assms(1), of x]
  have run: "io_prepare_sqe os s (static_at s x) c = Inr (Some (length (sq s)), ?t)"
    using prepare_eq(1) [OF b(2) set_static_eq assms(2)] by simp
  have "static_of ?t (static_at s x) = Some x" using static_of_cong [of ?t s] by simp
  moreover have "static_callback ?t x = Some c" by (cases x) simp_all
  ultimately have "op_callback ?t (static_at s x) = Some c" by (simp add: op_callback_def)
  then have "io_cqe os ?t (static_at s x) r =
      (if r = - ETIME \<and> c \<notin> set job_callbacks then Inl AssertFail
       else if r \<ge> 0 \<or> r = - ETIME then run_callback os ?t c (static_at s x) r else Inr ?t)"
    using b(1) user_data_flags [OF b(2)] by (simp add: io_cqe_def Let_def)
  then show ?thesis using run by (intro exI [of _ ?t]) simp
qed

lemma prepared_op_dispatched_witness:
  "\<exists>t. io_prepare_sqe sample_os sample_idle (static_at sample_idle Op_fsync) File_synced = Inr (Some 0, t) \<and>
    io_cqe sample_os t (static_at sample_idle Op_fsync) (-62) = Inl AssertFail"
proof -
  have p: "ctx_ok (ctx_base sample_idle)" "os_get_sqe sample_os (sqes (calls sample_idle))" "length (sq sample_idle) = 0"
    by (simp_all add: sample_idle_def sample_zero_def ctx_ok_def sample_os_def)
  from prepared_op_dispatched [OF p(1,2), of Op_fsync File_synced "-62"] p(3) show ?thesis
    by (auto simp: ETIME_def job_callbacks_def)
qed

section \<open>Writing\<close>

text \<open>C19. A tick of the writer: unless an assertion stops it (memory, clock or queue exhausted), it
  queues one write for each page of the batch, in page order and at the page's offset, then its
  timeout, or stops when \<open>BYTES_TO_WRITE\<close> is reached; page id, batch size and (modulo 256) the
  number in flight are advanced by the batch.\<close>
theorem background_writer_requests:
  assumes "ctx_ok (ctx_base s)" "malloc_ok os (ctx_base s)" "static_callback s Op_writer = Some Background_writer"
    and "b = next_batch_size (wj_inflight (writer s)) (wj_batch_size (writer s))"
    and "p = wj_page_id (writer s)" "go \<longleftrightarrow> below_limit (p + b)"
  shows "background_writer os s (static_at s Op_writer) = Inl AssertFail \<or>
    (\<exists>t. background_writer os s (static_at s Op_writer) = Inr t \<and>
      map sqe_req (sq t) = map sqe_req (sq s) @
        map (\<lambda>k. Prep_write (wj_fd (writer s)) (wj_buf (writer s)) BUF_SIZE (BUF_SIZE * ucast (p + of_nat k))) [0..<unat b] @
        (if go then [Prep_timeout (job_ts (wj_inner (writer s)))] else []) \<and>
      writer t = (writer s)\<lparr>wj_page_id := p + b, wj_batch_size := b, wj_inflight := wj_inflight (writer s) + ucast b,
        wj_inner := if go then wj_inner (writer s) else (wj_inner (writer s))\<lparr>job_running := False\<rparr>\<rparr>)"
proof (rule safe_cases)
  define u where "u = s\<lparr>writer := (writer s)\<lparr>wj_batch_size := b\<rparr>\<rparr>"
  let ?req = "\<lambda>i. Prep_write (wj_fd (writer u)) (wj_buf (writer u)) BUF_SIZE (BUF_SIZE * ucast (wj_page_id (writer u) + i))"
  have batch: "safe (issue_batch (issue_write os) u 0 (unat b)) (\<lambda>t. same_ctx u t \<and>
      map sqe_req (sq t) = map sqe_req (sq u) @ map (\<lambda>k. ?req (0 + of_nat k)) [0..<unat b])"
  proof (rule issue_batch_requests)
    fix t i assume t: "same_ctx u t"
    then have "malloc_ok os (ctx_base t)" using assms(2) by (simp add: same_ctx_def u_def)
    from issue_write_request [OF this, of i]
    show "safe (issue_write os t i) (\<lambda>v. same_ctx t v \<and> map sqe_req (sq v) = map sqe_req (sq t) @ [?req i])"
      using t by (simp add: same_ctx_def)
  qed (simp add: same_ctx_def)
  let ?w = "(writer s)\<lparr>wj_page_id := p + b, wj_batch_size := b, wj_inflight := wj_inflight (writer s) + ucast b\<rparr>"
  have unf: "background_writer os s (static_at s Op_writer) = bind_res (issue_batch (issue_write os) u 0 (unat b)) (\<lambda>s.
           let s = s\<lparr>writer := (writer s)\<lparr>wj_inflight := wj_inflight (writer s) + ucast b, wj_page_id := wj_page_id (writer s) + b\<rparr>\<rparr>
           in if below_limit (wj_page_id (writer s)) then resend os s Op_writer else Inr (stop_job s Op_writer))"
    by (simp add: background_writer_def Let_def u_def assms(4))
  show "safe (background_writer os s (static_at s Op_writer)) (\<lambda>t.
      map sqe_req (sq t) = map sqe_req (sq s) @
        map (\<lambda>k. Prep_write (wj_fd (writer s)) (wj_buf (writer s)) BUF_SIZE (BUF_SIZE * ucast (p + of_nat k))) [0..<unat b] @
        (if go then [Prep_timeout (job_ts (wj_inner (writer s)))] else []) \<and>
      writer t = (writer s)\<lparr>wj_page_id := p + b, wj_batch_size := b, wj_inflight := wj_inflight (writer s) + ucast b,
        wj_inner := if go then wj_inner (writer s) else (wj_inner (writer s))\<lparr>job_running := False\<rparr>\<rparr>)"
    unfolding unf
  proof (rule safe_bind [OF batch])
    fix t assume t: "same_ctx u t \<and> map sqe_req (sq t) = map sqe_req (sq u) @ map (\<lambda>k. ?req (0 + of_nat k)) [0..<unat b]"
    let ?v = "t\<lparr>writer := (writer t)\<lparr>wj_inflight := wj_inflight (writer t) + ucast b, wj_page_id := wj_page_id (writer t) + b\<rparr>\<rparr>"
    have wv: "writer ?v = ?w" using t assms(5) by (intro writer_job.equality) (simp_all add: same_ctx_def u_def)
    have "ctx_ok (ctx_base ?v)" using t assms(1) by (simp add: same_ctx_def u_def)
    moreover have cb: "job_callback (static_job ?v Op_writer) = Some Background_writer"
      using wv assms(3) by (simp add: static_job_def)
    moreover have "set_static_callback ?v Op_writer (Some Background_writer) = ?v"
      using cb by (simp add: static_job_def)
    ultimately have "safe (resend os ?v Op_writer) (\<lambda>r. same_ctx ?v r \<and>
        map sqe_req (sq r) = map sqe_req (sq ?v) @ [Prep_timeout (job_ts (static_job ?v Op_writer))])"
      by (rule resend_request)
    then show "safe (let s = ?v in if below_limit (wj_page_id (writer s)) then resend os s Op_writer else Inr (stop_job s Op_writer)) (\<lambda>t.
        map sqe_req (sq t) = map sqe_req (sq s) @
          map (\<lambda>k. Prep_write (wj_fd (writer s)) (wj_buf (writer s)) BUF_SIZE (BUF_SIZE * ucast (p + of_nat k))) [0..<unat b] @
          (if go then [Prep_timeout (job_ts (wj_inner (writer s)))] else []) \<and>
        writer t = (writer s)\<lparr>wj_page_id := p + b, wj_batch_size := b, wj_inflight := wj_inflight (writer s) + ucast b,
          wj_inner := if go then wj_inner (writer s) else (wj_inner (writer s))\<lparr>job_running := False\<rparr>\<rparr>)"
      using t wv assms(5,6)
      by (auto simp: Let_def u_def same_ctx_def static_job_def stop_job_def job_set_stopped_def elim!: safe_weaken
          intro!: writer_job.equality)
  qed
qed

lemma sample_idle_facts:
  "ctx_ok (ctx_base sample_idle)" "malloc_ok sample_os (ctx_base sample_idle)"
  "static_callback sample_idle Op_writer = Some Background_writer"
  using sample_malloc_ok by (simp_all add: sample_idle_def sample_zero_def sample_job_def ctx_ok_def)

lemma sample_first_batch: "next_batch_size (wj_inflight (writer sample_idle)) (wj_batch_size (writer sample_idle)) = 1"
  by (simp add: sample_idle_def sample_zero_def next_batch_size_def INFLIGHT_LOW_RANGE_def ENTRIES_def BATCH_INCREMENT_PERCENT_def)

lemma sample_writer_runs: "background_writer sample_os sample_idle (static_at sample_idle Op_writer) \<noteq> Inl AssertFail"
proof -
  have "static_of (sample_idle\<lparr>calls := k, op_heap := h, sq := q, writer := w\<rparr>) 65536 = None" for k h q w
    using sample_heap_addr static_of_cong [of "sample_idle\<lparr>calls := k, op_heap := h, sq := q, writer := w\<rparr>" sample_writing]
    by (simp add: sample_writing_def)
  then have st: "static_of t 65536 = None" if "ctx_base t = 4096" for t
    using that static_of_cong [of t sample_writing] sample_heap_addr
    by (simp add: sample_writing_def sample_idle_def sample_zero_def)
  have b: "next_batch_size 0 0 = 1"
    by (simp add: next_batch_size_def INFLIGHT_LOW_RANGE_def ENTRIES_def BATCH_INCREMENT_PERCENT_def)
  show ?thesis
    by (simp add: background_writer_def b Let_def issue_write_def malloc_op_def clock_gettime_def below_limit_iff
        prepare_write st resend_static resend_def enqueue_def sample_os_def sample_idle_def sample_zero_def sample_job_def
        static_job_def ctx_ok_def)
qed

lemma background_writer_requests_witness:
  "\<exists>t. background_writer sample_os sample_idle (static_at sample_idle Op_writer) = Inr t \<and>
     map sqe_req (sq t) = [Prep_write 0 Write_buf 65536 0, Prep_timeout zero_time] \<and> wj_page_id (writer t) = 1"
proof -
  have f: "wj_page_id (writer sample_idle) = 0" "below_limit 1" "BUF_SIZE = 65536" "sq sample_idle = []"
      "wj_fd (writer sample_idle) = 0" "wj_buf (writer sample_idle) = Write_buf" "job_ts (wj_inner (writer sample_idle)) = zero_time"
    by (simp_all add: sample_idle_def sample_zero_def sample_job_def below_limit_iff BUF_SIZE_def BYTE_KB_def push_bit_eq_mult)
  from background_writer_requests [OF sample_idle_facts refl f(1) [symmetric] refl] sample_writer_runs
  show ?thesis by (auto simp: sample_first_batch f)
qed

section \<open>Reading\<close>

text \<open>C20. A tick of the reader reads only pages that the flusher has counted as synced: unless an
  assertion stops it, it queues one read for each of the next \<open>b\<close> pages, where \<open>b\<close> is the
  batch size cut at the distance to the flusher's page id, and moves on by \<open>b\<close>.\<close>
theorem background_reader_requests:
  assumes "malloc_ok os (ctx_base s)" "ctx_ok (ctx_base s)" "static_callback s Op_reader = Some Background_reader"
    and "rj_page_id (reader s) \<le> fj_page_id (flusher s)"
    and "b = min (next_batch_size (rj_inflight (reader s)) (rj_batch_size (reader s))) (fj_page_id (flusher s) - rj_page_id (reader s))"
    and "p = rj_page_id (reader s)" "go \<longleftrightarrow> below_limit (p + b)"
  shows "background_reader os s (static_at s Op_reader) = Inl AssertFail \<or>
    (\<exists>t. background_reader os s (static_at s Op_reader) = Inr t \<and>
      map sqe_req (sq t) = map sqe_req (sq s) @
        map (\<lambda>k. Prep_read (rj_fd (reader s)) Read_buf BUF_SIZE (BUF_SIZE * ucast (p + of_nat k))) [0..<unat b] @
        (if go then [Prep_timeout (job_ts (rj_inner (reader s)))] else []) \<and>
      rj_page_id (reader t) = p + b \<and> p + b \<le> fj_page_id (flusher s) \<and> flusher t = flusher s \<and>
      rj_inflight (reader t) = rj_inflight (reader s) + ucast b)"
proof (rule safe_cases)
  define n where "n = next_batch_size (rj_inflight (reader s)) (rj_batch_size (reader s))"
  have b: "ucast (min_c (ucast n) ((ucast (fj_page_id (flusher s)) :: u64) - ucast p)) = b"
  proof -
    let ?d = "fj_page_id (flusher s) - p"
    have le: "unat p \<le> unat (fj_page_id (flusher s))" using assms(4,6) by (simp add: word_le_nat_alt)
    have "unat ((ucast (fj_page_id (flusher s)) :: u64) - ucast p) = unat ?d"
      using le by (simp add: unat_diff_nowrap unat_ucast_up)
    then have "(ucast (fj_page_id (flusher s)) :: u64) - ucast p = ucast ?d"
      by (intro word_unat_eq_iff [THEN iffD2]) (simp add: unat_ucast_up)
    moreover have "min (ucast n) (ucast ?d :: u64) = ucast (min n ?d)"
      by (auto simp: min_def word_le_nat_alt unat_ucast_up)
    ultimately show ?thesis by (simp add: assms(5,6) n_def)
  qed
  define u where "u = s\<lparr>reader := (reader s)\<lparr>rj_batch_size := b\<rparr>\<rparr>"
  let ?req = "\<lambda>i. Prep_read (rj_fd (reader u)) Read_buf BUF_SIZE (BUF_SIZE * ucast (rj_page_id (reader u) + i))"
  have batch: "safe (issue_batch (issue_read os) u 0 (unat b)) (\<lambda>t. same_ctx u t \<and>
      map sqe_req (sq t) = map sqe_req (sq u) @ map (\<lambda>k. ?req (0 + of_nat k)) [0..<unat b])"
  proof (rule issue_batch_requests)
    fix t i assume t: "same_ctx u t"
    then have "malloc_ok os (ctx_base t)" using assms(1) by (simp add: same_ctx_def u_def)
    from issue_read_request [OF this, of i]
    show "safe (issue_read os t i) (\<lambda>v. same_ctx t v \<and> map sqe_req (sq v) = map sqe_req (sq t) @ [?req i])"
      using t by (simp add: same_ctx_def)
  qed (simp add: same_ctx_def)
  have unf: "background_reader os s (static_at s Op_reader) = bind_res (issue_batch (issue_read os) u 0 (unat b)) (\<lambda>s.
           let s = s\<lparr>reader := (reader s)\<lparr>rj_inflight := rj_inflight (reader s) + ucast b, rj_page_id := rj_page_id (reader s) + b\<rparr>\<rparr>
           in if below_limit (rj_page_id (reader s)) then resend os s Op_reader else Inr (stop_job s Op_reader))"
    unfolding background_reader_def Let_def n_def [symmetric] assms(6) [symmetric] b u_def by simp
  have bound: "p + b \<le> fj_page_id (flusher s)"
  proof -
    have "unat b \<le> unat (fj_page_id (flusher s) - p)" unfolding assms(5,6) by (simp add: word_le_nat_alt [symmetric])
    also have "\<dots> = unat (fj_page_id (flusher s)) - unat p"
      using assms(4,6) by (intro unat_diff_nowrap) (simp add: word_le_nat_alt)
    finally have le: "unat p + unat b \<le> unat (fj_page_id (flusher s))"
      using assms(4,6) by (simp add: word_le_nat_alt)
    then have "unat (p + b) = unat p + unat b" using unat_lt_u32 [of "fj_page_id (flusher s)"] by (simp add: unat_simps)
    with le show ?thesis by (simp add: word_le_nat_alt)
  qed
  show "safe (background_reader os s (static_at s Op_reader)) (\<lambda>t.
      map sqe_req (sq t) = map sqe_req (sq s) @
        map (\<lambda>k. Prep_read (rj_fd (reader s)) Read_buf BUF_SIZE (BUF_SIZE * ucast (p + of_nat k))) [0..<unat b] @
        (if go then [Prep_timeout (job_ts (rj_inner (reader s)))] else []) \<and>
      rj_page_id (reader t) = p + b \<and> p + b \<le> fj_page_id (flusher s) \<and> flusher t = flusher s \<and>
      rj_inflight (reader t) = rj_inflight (reader s) + ucast b)"
    unfolding unf
  proof (rule safe_bind [OF batch])
    fix t assume t: "same_ctx u t \<and> map sqe_req (sq t) = map sqe_req (sq u) @ map (\<lambda>k. ?req (0 + of_nat k)) [0..<unat b]"
    let ?v = "t\<lparr>reader := (reader t)\<lparr>rj_inflight := rj_inflight (reader t) + ucast b, rj_page_id := rj_page_id (reader t) + b\<rparr>\<rparr>"
    have "ctx_ok (ctx_base ?v)" using t assms(2) by (simp add: same_ctx_def u_def)
    moreover have cb: "job_callback (static_job ?v Op_reader) = Some Background_reader"
      using t assms(3) by (simp add: static_job_def same_ctx_def u_def)
    moreover have "set_static_callback ?v Op_reader (Some Background_reader) = ?v"
      using cb by (simp add: static_job_def)
    ultimately have "safe (resend os ?v Op_reader) (\<lambda>r. same_ctx ?v r \<and>
        map sqe_req (sq r) = map sqe_req (sq ?v) @ [Prep_timeout (job_ts (static_job ?v Op_reader))])"
      by (rule resend_request)
    then show "safe (let s = ?v in if below_limit (rj_page_id (reader s)) then resend os s Op_reader else Inr (stop_job s Op_reader)) (\<lambda>t.
        map sqe_req (sq t) = map sqe_req (sq s) @
          map (\<lambda>k. Prep_read (rj_fd (reader s)) Read_buf BUF_SIZE (BUF_SIZE * ucast (p + of_nat k))) [0..<unat b] @
          (if go then [Prep_timeout (job_ts (rj_inner (reader s)))] else []) \<and>
        rj_page_id (reader t) = p + b \<and> p + b \<le> fj_page_id (flusher s) \<and> flusher t = flusher s \<and>
        rj_inflight (reader t) = rj_inflight (reader s) + ucast b)"
      using t bound assms(6,7)
      by (auto simp: Let_def u_def same_ctx_def static_job_def stop_job_def job_set_stopped_def elim!: safe_weaken)
  qed
qed

text \<open>One page between the reader and the flusher.\<close>

definition sample_reading :: sched where
  "sample_reading = sample_idle\<lparr>flusher := (flusher sample_idle)\<lparr>fj_page_id := 4\<rparr>,
     reader := (reader sample_idle)\<lparr>rj_page_id := 3, rj_batch_size := 2\<rparr>\<rparr>"

lemma sample_read_batch: "next_batch_size 0 2 = 4"
  by (simp add: next_batch_size_def INFLIGHT_LOW_RANGE_def ENTRIES_def BATCH_INCREMENT_PERCENT_def)

lemma sample_reader_runs: "background_reader sample_os sample_reading (static_at sample_reading Op_reader) \<noteq> Inl AssertFail"
proof -
  have st: "static_of t 65536 = None" if "ctx_base t = 4096" for t
    using that static_of_cong [of t sample_writing] sample_heap_addr
    by (simp add: sample_writing_def sample_idle_def sample_zero_def)
  show ?thesis
    by (simp add: background_reader_def sample_read_batch min_c_def Let_def issue_read_def malloc_op_def clock_gettime_def below_limit_iff
        prepare_read st resend_static resend_def enqueue_def sample_os_def sample_reading_def sample_idle_def sample_zero_def
        sample_job_def static_job_def ctx_ok_def)
qed

lemma background_reader_requests_witness:
  "\<exists>t. background_reader sample_os sample_reading (static_at sample_reading Op_reader) = Inr t \<and>
     map sqe_req (sq t) = [Prep_read 0 Read_buf 65536 196608, Prep_timeout zero_time] \<and> rj_page_id (reader t) = 4"
proof -
  have f: "malloc_ok sample_os (ctx_base sample_reading)" "ctx_ok (ctx_base sample_reading)"
      "static_callback sample_reading Op_reader = Some Background_reader"
      "rj_page_id (reader sample_reading) = 3" "fj_page_id (flusher sample_reading) = 4" "sq sample_reading = []"
      "job_ts (rj_inner (reader sample_reading)) = zero_time" "rj_fd (reader sample_reading) = 0" "BUF_SIZE = 65536"
      "min (next_batch_size (rj_inflight (reader sample_reading)) (rj_batch_size (reader sample_reading)))
        (fj_page_id (flusher sample_reading) - rj_page_id (reader sample_reading)) = 1"
    using sample_malloc_ok sample_read_batch
    by (simp_all add: sample_reading_def sample_idle_def sample_zero_def sample_job_def ctx_ok_def BUF_SIZE_def BYTE_KB_def push_bit_eq_mult)
  have le: "rj_page_id (reader sample_reading) \<le> fj_page_id (flusher sample_reading)" by (simp add: f(4,5))
  from background_reader_requests [OF f(1-3) le f(10) [symmetric] f(4) [symmetric] refl] sample_reader_runs
  show ?thesis by (auto simp: below_limit_iff f(4-9))
qed

section \<open>Time\<close>

text \<open>Elapsed times: when the clock does not go back, the latency of a page or an \<open>fsync\<close> is the
  elapsed time in whole microseconds; the time stamp of a trace item is off by 999999999 times
  the seconds of the start time, since only the seconds of \<open>now\<close> are scaled.\<close>
lemma elapsed_time:
  assumes "nanos issued \<le> nanos now" "nanos now < 2 ^ 64"
  shows "unat (elapsed_us now issued) = (nanos now - nanos issued) div 1000 \<and>
    trace_elapsed now issued = elapsed_ns now issued + 999999999 * tv_sec issued"
proof
  show "unat (elapsed_us now issued) = (nanos now - nanos issued) div 1000"
    using unat_elapsed_ns [OF assms] by (simp add: elapsed_us_def TIME_US_def unat_div)
  show "trace_elapsed now issued = elapsed_ns now issued + 999999999 * tv_sec issued"
    by (simp add: trace_elapsed_def elapsed_ns_def time_units algebra_simps)
qed

lemma elapsed_time_witness:
  "unat (elapsed_us \<lparr>tv_sec = 5, tv_nsec = 1000\<rparr> \<lparr>tv_sec = 4, tv_nsec = 999999000\<rparr>) = 2 \<and>
   trace_elapsed \<lparr>tv_sec = 5, tv_nsec = 1000\<rparr> \<lparr>tv_sec = 4, tv_nsec = 999999000\<rparr> = 4000001996"
proof -
  let ?i = "\<lparr>tv_sec = 4, tv_nsec = 999999000\<rparr>" and ?n = "\<lparr>tv_sec = 5, tv_nsec = 1000\<rparr>"
  have "nanos ?i = 4999999000" "nanos ?n = 5000001000" by (simp_all add: nanos_def)
  then show ?thesis
    using elapsed_time [of ?i ?n] by (simp add: elapsed_ns_def time_units)
qed

section \<open>Completed writes\<close>

text \<open>C21. A completed write, in a state that satisfies the scheduler's invariant: if its page is the
  next one in order and the clock works, it is appended to the written pages (the invariant holds
  with the list extended by it), the counters move by one and the statistics gain one write and
  its latency; any other page stops the program.\<close>
theorem page_written_correct:
  assumes "sched_inv False os (unat (wj_page_id (writer s))) s (a # A) L" "op_heap s a = Some (Write_op w)"
    and "os_clock os (clocks (calls s)) = Some now"
  shows "if pw_page_id w = page_id_check_order s
    then \<exists>t. page_written os s a = Inr t \<and> sched_inv False os (unat (wj_page_id (writer t))) t A (L @ [a]) \<and>
      page_id_check_order t = page_id_check_order s + 1 \<and>
      wj_written_no_flush (writer t) = wj_written_no_flush (writer s) + 1 \<and> wj_inflight (writer t) = wj_inflight (writer s) - 1 \<and>
      sb_acc_val (write_count_stats (bg t)) = sb_acc_val (write_count_stats (bg s)) + 1 \<and>
      sb_acc_val (write_latency_stats (bg t)) = sb_acc_val (write_latency_stats (bg s)) + elapsed_us now (pw_issued w)
    else page_written os s a = Inl AssertFail"
proof (cases "pw_page_id w = page_id_check_order s")
  case True
  from page_written_run [OF assms(1,2) True assms(3)] page_written_inv [OF assms(1,2)] True
  show ?thesis by auto
next
  case False
  then show ?thesis using assms(2) by (simp add: page_written_def)
qed

lemma page_written_correct_witness:
  "\<exists>t. page_written sample_os sample_writing 65536 = Inr t \<and> page_id_check_order t = 1 \<and> wj_inflight (writer t) = 0"
proof -
  have f: "unat (wj_page_id (writer sample_writing)) = 1" "op_heap sample_writing 65536 = Some (Write_op sample_write_op)"
      "os_clock sample_os (clocks (calls sample_writing)) = Some \<lparr>tv_sec = 0, tv_nsec = 0\<rparr>"
      "page_id_check_order sample_writing = 0" "wj_inflight (writer sample_writing) = 1" "pw_page_id sample_write_op = 0"
    by (simp_all add: sample_writing_def sample_idle_def sample_zero_def sample_os_def sample_write_op_def)
  show ?thesis
    using page_written_correct [of sample_os sample_writing 65536 "[]" "[]", OF _ f(2,3)] sample_writing_inv f by auto
qed

text \<open>C22. One failed write blocks the program: when the kernel reports an error for the write of the
  next page, the completion is only logged (nothing is counted, nothing is sent again), and the
  next write that completes, which is of a later page, fails the assertion on the order.\<close>
theorem failed_write_blocks:
  assumes "sched_inv False os (unat (wj_page_id (writer s))) s (a # b # A) L"
    and "op_heap s a = Some (Write_op v)" "op_heap s b = Some (Write_op w)"
    and "pw_page_id v = page_id_check_order s" "pw_page_id w \<noteq> pw_page_id v"
    and "r < 0" "r \<noteq> - ETIME" "0 \<le> r'"
  shows "io_cqe os s a r = Inr s \<and> io_cqe os s b r' = Inl AssertFail"
proof -
  note p = inv_parts [OF assms(1)]
  have a: "a \<noteq> 0" "unat a < 2 ^ 48" "static_of s a = None" and b: "b \<noteq> 0" "unat b < 2 ^ 48" "static_of s b = None"
    using p(3) assms(2,3) by (auto simp: heap_ok_def)
  have "op_ready False (unat (wj_page_id (writer s))) s a" "op_ready False (unat (wj_page_id (writer s))) s b"
    using p(7) [of a] p(7) [of b] by (simp_all add: pending_def)
  then have cb: "op_callback s a = Some Page_written" "op_callback s b = Some Page_written"
    using a(3) b(3) assms(2,3) by (simp_all add: op_ready_def op_callback_def)
  have "io_cqe os s a r = Inr s"
    using a cb(1) assms(6,7) user_data_flags [OF a(2)] by (simp add: io_cqe_def Let_def)
  moreover have "io_cqe os s b r' = Inl AssertFail"
    using b cb(2) assms(3,4,5,8) user_data_flags [OF b(2)] by (simp add: io_cqe_def Let_def page_written_def ETIME_def)
  ultimately show ?thesis by simp
qed

text \<open>Pages 0 and 1 are being written.\<close>

definition sample_two_writes :: sched where
  "sample_two_writes = sample_idle\<lparr>
     writer := (writer sample_idle)\<lparr>wj_page_id := 2, wj_batch_size := 1, wj_inflight := 2\<rparr>,
     op_heap := [65536 \<mapsto> Write_op sample_write_op, 65600 \<mapsto> Write_op (sample_write_op\<lparr>pw_page_id := 1\<rparr>)]\<rparr>"

lemma sample_heap_ops:
  assumes "ctx_base s = 4096"
  shows "static_of s 65536 = None" "static_of s 65600 = None"
proof -
  have "static_at s x \<noteq> 65536 \<and> static_at s x \<noteq> 65600" for x
    using assms by (cases x) (simp_all add: static_at_def)
  then show "static_of s 65536 = None" "static_of s 65600 = None" by (auto simp: static_of_None)
qed

lemma failed_write_blocks_witness:
  "io_cqe sample_os sample_two_writes 65536 (-5) = Inr sample_two_writes \<and>
   io_cqe sample_os sample_two_writes 65600 65536 = Inl AssertFail"
proof -
  have b: "ctx_base sample_two_writes = 4096" by (simp add: sample_two_writes_def sample_idle_def sample_zero_def)
  have inv: "sched_inv False sample_os (unat (wj_page_id (writer sample_two_writes))) sample_two_writes [65536, 65600] []"
    using sample_malloc_ok sample_heap_ops [OF b]
    by (simp add: sched_inv_def sample_two_writes_def sample_idle_def sample_zero_def sample_job_def ctx_ok_def heap_ok_def jobs_ready_def
        stats_ready_def sample_bucket_ok pending_def list_ok_nil counters_ok_def op_ready_def sample_write_op_def)
  have h: "op_heap sample_two_writes 65536 = Some (Write_op sample_write_op)"
      "op_heap sample_two_writes 65600 = Some (Write_op (sample_write_op\<lparr>pw_page_id := 1\<rparr>))"
      "page_id_check_order sample_two_writes = 0"
    by (simp_all add: sample_two_writes_def sample_idle_def sample_zero_def)
  from failed_write_blocks [OF inv h(1,2), of "-5" 65536] h(3) show ?thesis
    by (simp add: sample_write_op_def ETIME_def)
qed

section \<open>\<open>fsync\<close>\<close>

text \<open>C23. What \<open>fsync\<close> covers: a write that completes while an \<open>fsync\<close> is in flight is counted as
  synced when that \<open>fsync\<close> completes, although it was issued before the write was done; the
  flusher's page id, which bounds the reader, then passes that page.\<close>
theorem fsync_counts_later_writes:
  assumes "sched_inv False os (unat (wj_page_id (writer s))) s (a # static_at s Op_fsync # A) L"
    and "op_heap s a = Some (Write_op w)" "page_written os s a = Inr t" "file_synced os t (static_at s Op_fsync) = Inr u"
  shows "pw_page_id w < fj_page_id (flusher u) \<and>
    unat (fj_page_id (flusher u)) = unat (fj_page_id (flusher s)) + unat (wj_written_no_flush (writer s)) + 1"
proof -
  let ?h = "unat (wj_page_id (writer s))"
  have pid: "pw_page_id w = page_id_check_order s"
    using assms(2,3) by (auto simp: page_written_def assert_res_Inr_iff)
  have t: "sched_inv False os (unat (wj_page_id (writer t))) t (static_at s Op_fsync # A) (L @ [a])"
    using page_written_inv [OF assms(1,2)] assms(3) by simp
  obtain now where "os_clock os (clocks (calls s)) = Some now"
    using assms(2,3) pid by (auto simp: page_written_def clock_gettime_def Let_def split: option.splits)
  from page_written_run [OF assms(1,2) pid this] assms(3)
  have k: "page_id_check_order t = page_id_check_order s + 1" "ctx_base t = ctx_base s" by auto
  have "unat (fj_page_id (flusher u)) = unat (page_id_check_order t)"
    using file_synced_inv [of False os _ t A "L @ [a]"] t assms(4) static_at_cong [OF k(2)] by auto
  moreover have "unat (page_id_check_order s + 1) = unat (page_id_check_order s) + 1"
  proof -
    have "unat (page_id_check_order s) \<le> 49150" using inv_parts(9) [OF assms(1)] by (simp add: counters_ok_def)
    then show ?thesis by (simp add: unat_simps)
  qed
  moreover have "unat (fj_page_id (flusher s)) + unat (wj_written_no_flush (writer s)) = unat (page_id_check_order s)"
    using inv_parts(9) [OF assms(1)] by (simp add: counters_ok_def)
  ultimately show ?thesis using pid k(1) by (simp add: word_less_nat_alt)
qed

text \<open>Page 0 is written, page 1 is being written, and an \<open>fsync\<close> is in flight.\<close>

definition sample_syncing :: sched where
  "sample_syncing = sample_two_writes\<lparr>
     writer := (writer sample_two_writes)\<lparr>wj_inflight := 1, wj_written_no_flush := 1\<rparr>,
     flusher := (flusher sample_two_writes)\<lparr>fj_write_list := \<lparr>wl_tail = 65536, wl_head = 65536\<rparr>, fj_inflight := 1,
       fj_op_fsync := \<lparr>fs_callback = Some File_synced, fs_issued = zero_time\<rparr>\<rparr>,
     page_id_check_order := 1\<rparr>"

lemma fsync_counts_later_writes_witness:
  "\<exists>t u. page_written sample_os sample_syncing 65600 = Inr t \<and> file_synced sample_os t 4416 = Inr u \<and>
     unat (fj_page_id (flusher u)) = 2"
proof -
  have b: "ctx_base sample_syncing = 4096"
    by (simp add: sample_syncing_def sample_two_writes_def sample_idle_def sample_zero_def)
  then have fs: "static_at sample_syncing Op_fsync = 4416" by (simp add: static_at_def)
  then have so: "static_of sample_syncing 4416 = Some Op_fsync" by (simp add: static_of_eq)
  have wr: "write_at (op_heap sample_syncing) 65536 = Some sample_write_op"
    by (simp add: sample_syncing_def sample_two_writes_def)
  have l: "list_ok (op_heap sample_syncing) \<lparr>wl_tail = 65536, wl_head = 65536\<rparr> 0 1 [65536]"
    using wr by (simp add: list_ok_def written_pages_def user_calls_def sample_write_op_def del: write_at_Some)
      (simp add: sample_syncing_def sample_two_writes_def sample_write_op_def)
  have inv: "sched_inv False sample_os (unat (wj_page_id (writer sample_syncing))) sample_syncing
      (65600 # static_at sample_syncing Op_fsync # []) [65536]"
    using sample_malloc_ok sample_heap_ops [OF b] so l
    by (simp add: static_at_def sched_inv_def sample_syncing_def sample_two_writes_def sample_idle_def sample_zero_def sample_job_def ctx_ok_def
        heap_ok_def jobs_ready_def stats_ready_def sample_bucket_ok pending_def counters_ok_def op_ready_def sample_write_op_def)
  have h: "op_heap sample_syncing 65600 = Some (Write_op (sample_write_op\<lparr>pw_page_id := 1\<rparr>))"
      "page_id_check_order sample_syncing = 1" "fj_page_id (flusher sample_syncing) = 0" "wj_written_no_flush (writer sample_syncing) = 1"
    by (simp_all add: sample_syncing_def sample_two_writes_def sample_idle_def sample_zero_def)
  have clock: "\<exists>now. os_clock sample_os n = Some now" for n by (simp add: sample_os_def)
  obtain now where now: "os_clock sample_os (clocks (calls sample_syncing)) = Some now" using clock by blast
  obtain t where t: "page_written sample_os sample_syncing 65600 = Inr t" "ctx_base t = ctx_base sample_syncing"
    using page_written_run [OF inv h(1) _ now] h(2) by auto
  have at: "static_at t Op_fsync = static_at sample_syncing Op_fsync" using static_at_cong [OF t(2)] by simp
  have "sched_inv False sample_os (unat (wj_page_id (writer t))) t (static_at t Op_fsync # []) ([65536] @ [65600])"
    using page_written_inv [OF inv h(1)] t(1) at by simp
  moreover obtain now' where "os_clock sample_os (clocks (calls t)) = Some now'" using clock by blast
  ultimately obtain u where u: "file_synced sample_os t (static_at sample_syncing Op_fsync) = Inr u"
    using file_synced_runs at by metis
  from fsync_counts_later_writes [OF inv h(1) t(1) u] t(1) u h show ?thesis by (auto simp: fs)
qed

section \<open>The count of requests in flight\<close>

text \<open>C35. \<open>inflight\<close> has eight bits: when a multiple of 256 writes is outstanding, the writer takes
  itself for idle and doubles its batch, instead of reducing it as it does for 32 and more.\<close>
theorem inflight_wraps:
  assumes "sched_inv g os hi s A L" "unat (wj_page_id (writer s)) - unat (page_id_check_order s) = 256 * k"
    and "0 < wj_batch_size (writer s)" "unat (wj_batch_size (writer s)) < 8192"
  shows "wj_inflight (writer s) = 0 \<and>
    next_batch_size (wj_inflight (writer s)) (wj_batch_size (writer s)) = wj_batch_size (writer s) * 2"
proof -
  have "wj_inflight (writer s) = of_nat (256 * k)"
    using inv_parts(9) [OF assms(1)] assms(2) unfolding counters_ok_def by (metis (no_types))
  also have "\<dots> = 0"
  proof -
    have "(of_nat 256 :: u8) = 0" by simp
    then show ?thesis by (simp only: of_nat_mult mult_zero_left)
  qed
  finally have "wj_inflight (writer s) = 0" .
  moreover have "wj_batch_size (writer s) < drop_bit 1 ENTRIES"
    using assms(4) by (simp add: ENTRIES_def word_less_nat_alt)
  ultimately show ?thesis using assms(3) by (simp add: next_batch_size_def)
qed

definition sample_busy :: sched where
  "sample_busy = sample_idle\<lparr>writer := (writer sample_idle)\<lparr>wj_page_id := 256, wj_batch_size := 128, wj_inflight := 0\<rparr>\<rparr>"

lemma inflight_wraps_witness:
  "next_batch_size (wj_inflight (writer sample_busy)) (wj_batch_size (writer sample_busy)) = 256"
proof -
  have "sched_inv False sample_os 256 sample_busy [] []"
    using sample_malloc_ok
    by (simp add: sched_inv_def sample_busy_def sample_idle_def sample_zero_def sample_job_def ctx_ok_def heap_ok_def jobs_ready_def
        stats_ready_def sample_bucket_ok pending_def list_ok_nil counters_ok_def)
  from inflight_wraps [OF this, of 1] show ?thesis
    by (simp add: sample_busy_def sample_idle_def sample_zero_def)
qed

end
