(* ===== verification/Sched_Main.thy ===== *)
theory Sched_Main
  imports Sched_Total
begin

text \<open>
  The whole of \<open>main\<close>: its loop as a relation between the state before and the state at the
  return, and the rounds in which the kernel answers one request without an error.
\<close>

section \<open>The loop\<close>

text \<open>
  \<open>main_loop os s K t K'\<close>: entered with the requests \<open>K\<close> in the kernel, the loop returns in the
  state \<open>t\<close>.  Before a round the buffer of the reads may change; a round consumes completions of
  requests that the kernel holds.
\<close>

inductive main_loop :: "os \<Rightarrow> sched \<Rightarrow> io_uring_sqe list \<Rightarrow> sched \<Rightarrow> io_uring_sqe list \<Rightarrow> bool" for os :: os where
  leave: "main_round os (s\<lparr>read_mem := m\<rparr>) submitted ret cqes = Inr (True, t) \<Longrightarrow>
    (if ret \<ge> 0 then reaped (K @ sq s) cqes K' else K' = K @ sq s) \<Longrightarrow> main_loop os s K t K'"
| again: "main_round os (s\<lparr>read_mem := m\<rparr>) submitted ret cqes = Inr (False, u) \<Longrightarrow>
    (if ret \<ge> 0 then reaped (K @ sq s) cqes K1 else K1 = K @ sq s) \<Longrightarrow> main_loop os u K1 t K' \<Longrightarrow> main_loop os s K t K'"

definition exits :: "sched \<Rightarrow> bool" where
  "exits s \<longleftrightarrow> jobs_finished s \<and> \<not> job_running (tj_inner (tracing s))"

abbreviation "in_system os s K \<equiv> \<lparr>sys_os = os, sys_app = s, sys_kernel = K\<rparr>"

lemma main_loop_steps:
  "main_loop os s K t K' \<Longrightarrow> sys_step\<^sup>*\<^sup>* (in_system os s K) (in_system os t K') \<and> exits t"
proof (induction rule: main_loop.induct)
  case (leave m s submitted ret cqes t K K')
  have d: "sys_step (in_system os s K) (in_system os (s\<lparr>read_mem := m\<rparr>) K)" using sys_step.data [of "in_system os s K" m] by simp
  have "if ret \<ge> 0 then reaped (K @ sq (s\<lparr>read_mem := m\<rparr>)) cqes K' else K' = K @ sq (s\<lparr>read_mem := m\<rparr>)" using leave(2) by simp
  from main_round_steps [OF leave(1) this] d show ?case
    by (auto simp: exits_def intro: converse_rtranclp_into_rtranclp)
next
  case (again m s submitted ret cqes u K K1 t K')
  have d: "sys_step (in_system os s K) (in_system os (s\<lparr>read_mem := m\<rparr>) K)" using sys_step.data [of "in_system os s K" m] by simp
  have "if ret \<ge> 0 then reaped (K @ sq (s\<lparr>read_mem := m\<rparr>)) cqes K1 else K1 = K @ sq (s\<lparr>read_mem := m\<rparr>)" using again(2) by simp
  from main_round_steps(1) [OF again(1) this] d again.IH show ?case
    by (auto intro: converse_rtranclp_into_rtranclp rtranclp_trans)
qed

text \<open>A run of the loop in which no completion that is consumed has an error.\<close>

definition unfailed :: "(u64 \<times> int) list \<Rightarrow> bool" where
  "unfailed cqes \<longleftrightarrow> (\<forall>(a, r) \<in> set cqes. r \<ge> 0 \<or> r = - ETIME)"

inductive answered_loop :: "os \<Rightarrow> sched \<Rightarrow> io_uring_sqe list \<Rightarrow> sched \<Rightarrow> io_uring_sqe list \<Rightarrow> bool" for os :: os where
  leave: "main_round os (s\<lparr>read_mem := m\<rparr>) submitted ret cqes = Inr (True, t) \<Longrightarrow> unfailed cqes \<Longrightarrow>
    (if ret \<ge> 0 then reaped (K @ sq s) cqes K' else K' = K @ sq s) \<Longrightarrow> answered_loop os s K t K'"
| again: "main_round os (s\<lparr>read_mem := m\<rparr>) submitted ret cqes = Inr (False, u) \<Longrightarrow> unfailed cqes \<Longrightarrow>
    (if ret \<ge> 0 then reaped (K @ sq s) cqes K1 else K1 = K @ sq s) \<Longrightarrow> answered_loop os u K1 t K' \<Longrightarrow> answered_loop os s K t K'"

lemma answered_main_loop: "answered_loop os s K t K' \<Longrightarrow> main_loop os s K t K'"
  by (induction rule: answered_loop.induct) (blast intro: main_loop.intros)+

section \<open>Answered requests\<close>

text \<open>The steps of the system in which no request fails.\<close>

definition good_result :: "sched \<Rightarrow> u64 \<Rightarrow> int \<Rightarrow> bool" where
  "good_result s a r \<longleftrightarrow> (r \<ge> 0 \<or> r = - ETIME) \<and> accepted s a r"

inductive answered_step :: "system \<Rightarrow> system \<Rightarrow> bool" where
  submit: "answered_step \<sigma> (\<sigma>\<lparr>sys_app := (sys_app \<sigma>)\<lparr>sq := []\<rparr>, sys_kernel := sys_kernel \<sigma> @ sq (sys_app \<sigma>)\<rparr>)"
| answer: "sys_kernel \<sigma> = K @ e # K' \<Longrightarrow> io_cqe (sys_os \<sigma>) (sys_app \<sigma>) (sqe_user_data e) r = Inr s \<Longrightarrow>
     good_result (sys_app \<sigma>) (sqe_user_data e) r \<Longrightarrow> answered_step \<sigma> (\<sigma>\<lparr>sys_app := s, sys_kernel := K @ K'\<rparr>)"
| data: "answered_step \<sigma> (\<sigma>\<lparr>sys_app := (sys_app \<sigma>)\<lparr>read_mem := m\<rparr>\<rparr>)"

lemma answered_sys_step: "answered_step \<sigma> \<tau> \<Longrightarrow> sys_step \<sigma> \<tau>"
  by (induction rule: answered_step.induct) (auto intro: sys_step.intros)

lemma answered_sys_steps: "answered_step\<^sup>*\<^sup>* \<sigma> \<tau> \<Longrightarrow> sys_step\<^sup>*\<^sup>* \<sigma> \<tau>"
  by (rule rtranclp_mono [THEN predicate2D]) (auto intro: answered_sys_step)

text \<open>What holds as long as no request fails.\<close>

definition good_state :: "os \<Rightarrow> sched \<Rightarrow> io_uring_sqe list \<Rightarrow> bool" where
  "good_state os s K \<longleftrightarrow> at_rest False os s (map sqe_user_data K) \<and> heap_small s \<and> ring_ok s \<and> stopped_ok s \<and>
     jobs_live s (map sqe_user_data K) \<and> pages_live s (map sqe_user_data K)"

text \<open>Only what is pending matters, not whether it is in the queue or with the kernel.\<close>

lemma live_pending:
  assumes "set (pending t B) = set (pending s A)" "length (reads s (pending t B)) = length (reads s (pending s A))"
    and "writer t = writer s" "reader t = reader s" "flusher t = flusher s" "tracing t = tracing s" "ctx_base t = ctx_base s"
      "op_heap t = op_heap s" "page_id_check_order t = page_id_check_order s"
  shows "jobs_live t B = jobs_live s A" "pages_live t B = pages_live s A"
    "heap_small t = heap_small s" "ring_ok t = ring_ok s" "stopped_ok t = stopped_ok s"
  using assms static_at_cong [of t s]
  by (simp_all add: jobs_live_def posted_def pages_live_def jobs_finished_def heap_small_def ring_ok_def stopped_ok_def reads_def)

lemma good_state_submit:
  assumes "good_state os s K"
  shows "good_state os (s\<lparr>sq := []\<rparr>) (K @ sq s)"
proof -
  let ?A = "map sqe_user_data K" and ?B = "map sqe_user_data (K @ sq s)"
  have pd: "pending (s\<lparr>sq := []\<rparr>) ?B = pending s ?A" by (simp add: pending_def)
  have "sys_inv False (in_system os s K)" using assms by (simp add: good_state_def sys_inv_def)
  from sys_step_inv [OF this sys_step.submit] have "at_rest False os (s\<lparr>sq := []\<rparr>) ?B" by (simp add: sys_inv_def)
  then show ?thesis using assms live_pending [of "s\<lparr>sq := []\<rparr>" ?B s ?A] pd by (simp add: good_state_def)
qed

lemma good_state_data:
  assumes "good_state os s K"
  shows "good_state os (s\<lparr>read_mem := m\<rparr>) K"
proof -
  let ?A = "map sqe_user_data K"
  have pd: "pending (s\<lparr>read_mem := m\<rparr>) ?A = pending s ?A" by (simp add: pending_def)
  have "sys_inv False (in_system os s K)" using assms by (simp add: good_state_def sys_inv_def)
  from sys_step_inv [OF this sys_step.data] have "at_rest False os (s\<lparr>read_mem := m\<rparr>) ?A" by (simp add: sys_inv_def)
  then show ?thesis using assms live_pending [of "s\<lparr>read_mem := m\<rparr>" ?A s ?A] pd by (simp add: good_state_def)
qed

lemma good_state_answer:
  assumes good: "good_state os s (K @ e # K')" and r: "io_cqe os s (sqe_user_data e) r = Inr t" "r \<ge> 0 \<or> r = - ETIME"
  shows "good_state os t (K @ K')" "\<exists>L. io_effect (sqe_user_data e) L True s t"
proof -
  let ?a = "sqe_user_data e" and ?A = "map sqe_user_data (K @ K')" and ?B = "map sqe_user_data (K @ e # K')"
  obtain L where "sched_inv False os (unat (wj_page_id (writer s))) s ?B L"
    using good by (auto simp: good_state_def at_rest_def)
  then have inv: "sched_inv False os (unat (wj_page_id (writer s))) s (?a # ?A) L" by (rule inv_reorder) simp
  have eff: "io_effect ?a L True s t" using io_cqe_effect [OF inv r(1)] r(2) by simp
  then show "\<exists>L. io_effect ?a L True s t" by blast
  have m: "mset (pending s (?a # ?A)) = mset (pending s ?B)" by (simp add: pending_def)
  have pd: "set (pending s (?a # ?A)) = set (pending s ?B)" using mset_eq_setD [OF m] .
  have "length (reads s (pending s (?a # ?A))) = length (reads s (pending s ?B))"
    unfolding reads_def by (metis m mset_filter size_mset)
  note live = live_pending(1,2) [OF pd this]
  have "at_rest False os t ?A" using io_cqe_inv [OF inv, of r] r(1) by simp
  moreover have "jobs_live t ?A" using effect_jobs_live [OF eff] live(1) good by (simp add: good_state_def)
  moreover have "pages_live t ?A" using effect_pages_live [OF inv eff] live(2) good by (simp add: good_state_def)
  ultimately show "good_state os t (K @ K')"
    using good effect_heap [OF inv eff] effect_ring [OF eff] effect_stopped [OF inv eff] by (simp add: good_state_def)
qed

lemma good_state_steps:
  assumes "answered_step\<^sup>*\<^sup>* \<sigma> \<tau>" "good_state (sys_os \<sigma>) (sys_app \<sigma>) (sys_kernel \<sigma>)"
  shows "sys_os \<tau> = sys_os \<sigma> \<and> good_state (sys_os \<tau>) (sys_app \<tau>) (sys_kernel \<tau>)"
  using assms(1)
proof (induction rule: rtranclp_induct)
  case base
  then show ?case using assms(2) by simp
next
  case (step \<tau> \<upsilon>)
  have "good_state (sys_os \<tau>) (sys_app \<tau>) (sys_kernel \<tau>)" by (rule step.IH [THEN conjunct2])
  with step.hyps(2) have "sys_os \<upsilon> = sys_os \<tau> \<and> good_state (sys_os \<upsilon>) (sys_app \<upsilon>) (sys_kernel \<upsilon>)"
    by cases (auto simp: good_state_submit good_state_data good_result_def intro: good_state_answer)
  then show ?case using step.IH by metis
qed

section \<open>Rounds\<close>

text \<open>A round that consumes one completion, without an error, with the buffer holding what was written.\<close>

definition answered_round :: "os \<Rightarrow> sched \<times> io_uring_sqe list \<Rightarrow> sched \<times> io_uring_sqe list \<Rightarrow> bool" where
  "answered_round os p q \<longleftrightarrow> (\<exists>a r. (r \<ge> 0 \<or> r = - ETIME) \<and>
     main_round os ((fst p)\<lparr>read_mem := write_buf\<rparr>) 0 1 [(a, r)] = Inr (False, fst q) \<and>
     reaped (snd p @ sq (fst p)) [(a, r)] (snd q))"

lemma answered_round_loop:
  "(answered_round os)\<^sup>*\<^sup>* (s, K) (u, K1) \<Longrightarrow> answered_loop os u K1 t K' \<Longrightarrow> answered_loop os s K t K'"
proof (induction "(s, K)" arbitrary: s K rule: converse_rtranclp_induct)
  case (step q)
  obtain v K2 where q: "q = (v, K2)" by (cases q)
  then obtain a r where "main_round os (s\<lparr>read_mem := write_buf\<rparr>) 0 1 [(a, r)] = Inr (False, v)" "reaped (K @ sq s) [(a, r)] K2"
      "unfailed [(a, r)]"
    using step.hyps(1) by (auto simp: answered_round_def unfailed_def)
  moreover have "answered_loop os v K2 t K'" using step.hyps(3) [OF q step.prems] .
  ultimately show ?case by (intro answered_loop.again [of os write_buf s 0 1]) auto
qed

text \<open>The state in which the request is answered: the queue is handed over.\<close>

abbreviation "handed s \<equiv> s\<lparr>read_mem := write_buf, sq := []\<rparr>"

lemma round_run:
  assumes os: "good_os os" and good: "good_state os s K" and a: "a \<in> set (pending s (map sqe_user_data K))"
    and r: "good_result (handed s) a r"
  obtains t K' L where "main_round os (s\<lparr>read_mem := write_buf\<rparr>) 0 1 [(a, r)] = Inr (exits t, t)"
    "reaped (K @ sq s) [(a, r)] K'" "good_state os t K'" "io_effect a L True (handed s) t"
    "mset (pending s (map sqe_user_data K)) = mset (a # map sqe_user_data K')"
proof -
  have "a \<in> sqe_user_data ` set (K @ sq s)" using a by (auto simp: pending_def)
  then obtain e where "e \<in> set (K @ sq s)" and ae: "a = sqe_user_data e" by blast
  then obtain K1 K2 where K: "K @ sq s = K1 @ e # K2" by (auto simp only: in_set_conv_decomp)
  have g: "good_state os (handed s) (K1 @ e # K2)"
    using good_state_submit [OF good_state_data [OF good, of write_buf]] K by simp
  obtain L where "sched_inv False os (unat (wj_page_id (writer (handed s)))) (handed s) (map sqe_user_data (K1 @ e # K2)) L"
    using g by (auto simp: good_state_def at_rest_def)
  then have "sched_inv False os (unat (wj_page_id (writer (handed s)))) (handed s) (a # map sqe_user_data (K1 @ K2)) L"
    by (rule inv_reorder) (simp add: ae)
  from io_cqe_total [OF os this] obtain t where t: "io_cqe os (handed s) a r = Inr t"
    using g r by (auto simp: good_state_def good_result_def)
  note ans = good_state_answer [OF g t [unfolded ae]]
  have "good_state os t (K1 @ K2)" "\<exists>L. io_effect a L True (handed s) t"
    using ans r by (simp_all add: good_result_def ae)
  moreover have "main_round os (s\<lparr>read_mem := write_buf\<rparr>) 0 1 [(a, r)] = Inr (exits t, t)"
    using t by (simp add: main_round_def io_tick_def ETIME_def exits_def)
  moreover have "reaped (K @ sq s) [(a, r)] (K1 @ K2)" unfolding K ae by (intro reaped_Cons reaped_Nil)
  moreover have "mset (pending s (map sqe_user_data K)) = mset (a # map sqe_user_data (K1 @ K2))"
  proof -
    have "pending s (map sqe_user_data K) = map sqe_user_data (K1 @ e # K2)" unfolding K [symmetric] by (simp add: pending_def)
    then show ?thesis by (simp add: ae)
  qed
  ultimately show thesis using that by blast
qed

end
