(* ===== verification/Sched_Finish.thy ===== *)
theory Sched_Finish
  imports Sched_Main
begin

text \<open>
  From a state in which nothing got lost, rounds in which no request fails bring the writer, the
  flusher and the reader to their ends: the outstanding writes complete in order, a tick of the
  writer issues the next batch, an \<open>fsync\<close> covers what was written, and the reader follows.
\<close>

section \<open>The effect of the completion of a given operation\<close>

lemma effect_of_writer:
  "io_effect (static_at s Op_writer) L True s t \<Longrightarrow>
     \<exists>as. writer_effect s (next_batch_size (wj_inflight (writer s)) (wj_batch_size (writer s))) as t"
  by (erule io_effect.cases) auto

lemma effect_of_reader: "io_effect (static_at s Op_reader) L True s t \<Longrightarrow> \<exists>as. reader_effect s (reader_batch s) as t"
  by (erule io_effect.cases) auto

lemma effect_of_tracing: "io_effect (static_at s Op_tracing) L True s t \<Longrightarrow> tick_effect s t"
  by (erule io_effect.cases) auto

lemma effect_of_flusher: "io_effect (static_at s Op_flusher) L True s t \<Longrightarrow> flusher_effect s t"
  by (erule io_effect.cases) auto

lemma effect_of_fsync: "io_effect (static_at s Op_fsync) L True s t \<Longrightarrow> fsync_effect s L t"
  by (erule io_effect.cases) auto

lemma effect_of_dump:
  "io_effect (static_at s Op_dump) L True s t \<Longrightarrow>
     (if td_callback (dump_op s) = Some Tracing_writed then writed_effect s t else synced_effect s t)"
  by (erule io_effect.cases) auto

lemma effect_of_write:
  "io_effect a L True s t \<Longrightarrow> static_of s a = None \<Longrightarrow> kind_at (op_heap s) a = Some (Some p) \<Longrightarrow> write_effect s t"
  by (erule io_effect.cases) (auto simp: static_of_None)

lemma effect_of_read:
  "io_effect a L True s t \<Longrightarrow> static_of s a = None \<Longrightarrow> kind_at (op_heap s) a = Some None \<Longrightarrow> read_effect s a t"
  by (erule io_effect.cases) (auto simp: static_of_None)

section \<open>Good results\<close>

lemma read_mem_at [simp]: "static_at (s\<lparr>read_mem := m\<rparr>) = static_at s" "static_of (s\<lparr>read_mem := m\<rparr>) = static_of s"
  by (rule static_at_cong static_of_cong; simp)+

lemma handed_callback [simp]: "op_callback (handed s) a = op_callback s a"
  using static_callback_cong [of "handed s" s] by (simp add: op_callback_def cong: option.case_cong)

lemma good_inv:
  assumes "good_state os s K"
  obtains L where "sched_inv False os (unat (wj_page_id (writer s))) s (map sqe_user_data K) L"
  using assms by (auto simp: good_state_def at_rest_def)

lemma good_job:
  assumes "good_state os s K" "x \<in> {Op_writer, Op_reader, Op_status, Op_tracing, Op_flusher}"
  shows "good_result (handed s) (static_at s x) (- ETIME)"
proof -
  obtain L where "sched_inv False os (unat (wj_page_id (writer s))) s (map sqe_user_data K) L" using good_inv [OF assms(1)] .
  from inv_parts(4) [OF this] assms(2) have "op_callback (handed s) (static_at s x) \<in> Some ` set job_callbacks"
    by (auto simp: op_callback_def jobs_ready_def job_callbacks_def)
  then show ?thesis by (simp add: good_result_def accepted_def ETIME_def)
qed

lemma good_page:
  assumes "good_state os s K" "a \<in> set (pending s (map sqe_user_data K))"
    and "kind_at (op_heap s) a = Some (Some (page_id_check_order s)) \<or> kind_at (op_heap s) a = Some None"
  shows "static_of s a = None" "good_result (handed s) a 0"
proof -
  obtain L where inv: "sched_inv False os (unat (wj_page_id (writer s))) s (map sqe_user_data K) L" using good_inv [OF assms(1)] .
  obtain x where x: "op_heap s a = Some x" using assms(3) kind_at_SomeD by metis
  then show st: "static_of s a = None" using pending_kinds(1) [OF inv assms(2)] by simp
  have "object_ready (unat (wj_page_id (writer s))) (op_heap s a)" using inv_parts(7) [OF inv assms(2)] st by (simp add: op_ready_def)
  then show "good_result (handed s) a 0"
    using st x assms(3) by (cases x) (auto simp: good_result_def accepted_def op_callback_def kind_at_def ETIME_def)
qed

lemma good_dump:
  assumes "good_state os s K" "posted s (map sqe_user_data K) Op_dump"
  shows "good_result (handed s) (static_at s Op_dump) (uint (td_to_write (dump_op s)))"
    "td_callback (dump_op s) = Some Tracing_writed \<or> td_callback (dump_op s) = Some Tracing_synced"
proof -
  obtain L where inv: "sched_inv False os (unat (wj_page_id (writer s))) s (map sqe_user_data K) L" using good_inv [OF assms(1)] .
  from inv_static_ready [OF inv assms(2) [unfolded posted_def]]
  show cb: "td_callback (dump_op s) = Some Tracing_writed \<or> td_callback (dump_op s) = Some Tracing_synced" by simp
  have "uint (td_to_write (dump_op s)) \<ge> 0" by simp
  moreover from this have "uint (td_to_write (dump_op s)) \<noteq> - ETIME" unfolding ETIME_def by linarith
  ultimately show "good_result (handed s) (static_at s Op_dump) (uint (td_to_write (dump_op s)))"
    using cb by (auto simp: good_result_def accepted_def op_callback_def)
qed

lemma good_fsync:
  assumes "good_state os s K" "posted s (map sqe_user_data K) Op_fsync"
  shows "good_result (handed s) (static_at s Op_fsync) 0"
proof -
  obtain L where inv: "sched_inv False os (unat (wj_page_id (writer s))) s (map sqe_user_data K) L" using good_inv [OF assms(1)] .
  from inv_static_ready [OF inv assms(2) [unfolded posted_def]] have "static_callback s Op_fsync = Some File_synced" by simp
  then show ?thesis by (auto simp: good_result_def accepted_def op_callback_def ETIME_def)
qed

section \<open>Runs that leave the tracing job alone\<close>

definition reach :: "os \<Rightarrow> sched \<Rightarrow> io_uring_sqe list \<Rightarrow> (sched \<Rightarrow> io_uring_sqe list \<Rightarrow> bool) \<Rightarrow> bool" where
  "reach os s K P \<longleftrightarrow> (\<exists>t K'. (answered_round os)\<^sup>*\<^sup>* (s, K) (t, K') \<and> good_state os t K' \<and> tracing t = tracing s \<and>
     (posted s (map sqe_user_data K) Op_tracing \<longrightarrow> posted t (map sqe_user_data K') Op_tracing) \<and> P t K')"

lemma reach_now: "good_state os s K \<Longrightarrow> P s K \<Longrightarrow> reach os s K P"
  unfolding reach_def by blast

lemma reach_trans: "reach os s K P \<Longrightarrow> (\<And>t K'. good_state os t K' \<Longrightarrow> tracing t = tracing s \<Longrightarrow> P t K' \<Longrightarrow> reach os t K' Q) \<Longrightarrow> reach os s K Q"
  unfolding reach_def by (metis (no_types, lifting) rtranclp_trans)

lemma quiet_round:
  assumes os: "good_os os" and good: "good_state os s K" and running: "job_running (tj_inner (tracing s))"
    and a: "a \<in> set (pending s (map sqe_user_data K))" "a \<noteq> static_at s Op_tracing" "a \<noteq> static_at s Op_dump"
    and r: "good_result (handed s) a r"
  obtains t K' L where "io_effect a L True (handed s) t" "good_state os t K'"
    "mset (pending s (map sqe_user_data K)) = mset (a # map sqe_user_data K')"
    "tracing t = tracing s" "\<And>P. reach os t K' P \<Longrightarrow> reach os s K P"
proof -
  obtain t K' L where run: "main_round os (s\<lparr>read_mem := write_buf\<rparr>) 0 1 [(a, r)] = Inr (exits t, t)"
    "reaped (K @ sq s) [(a, r)] K'" "good_state os t K'" "io_effect a L True (handed s) t"
    "mset (pending s (map sqe_user_data K)) = mset (a # map sqe_user_data K')"
    using round_run [OF os good a(1) r] .
  have frame: "tracing t = tracing s \<and> ctx_base t = ctx_base s"
    using run(4) a(2,3)
    by cases (auto simp: writer_effect_def reader_effect_def status_effect_def flusher_effect_def fsync_effect_def
        write_effect_def read_effect_def)
  then have "exits t = False" using running by (simp add: exits_def)
  then have step: "answered_round os (s, K) (t, K')" using run(1,2) r by (auto simp: answered_round_def good_result_def)
  have "set (pending s (map sqe_user_data K)) = insert a (sqe_user_data ` set K')" using mset_eq_setD [OF run(5)] by simp
  then have "posted s (map sqe_user_data K) Op_tracing \<Longrightarrow> posted t (map sqe_user_data K') Op_tracing"
    using frame a(2) by (auto simp: posted_def pending_def static_at_def)
  then have "reach os s K P" if "reach os t K' P" for P
    using that converse_rtranclp_into_rtranclp [of "answered_round os", OF step] frame unfolding reach_def by metis
  with run(3-5) frame that show thesis by blast
qed

section \<open>The writer\<close>

lemma next_batch_idle: "next_batch_size 0 b \<noteq> 0"
proof -
  have half: "b < drop_bit (Suc 0) ENTRIES \<longleftrightarrow> unat b < 8192" by (simp add: ENTRIES_def word_less_nat_alt)
  consider "b = 0" | "b \<noteq> 0" "unat b < 8192" | "unat b \<ge> 8192" by linarith
  then show ?thesis
  proof cases
    case 1
    then show ?thesis by (simp add: next_batch_size_def INFLIGHT_LOW_RANGE_def INFLIGHT_HIGH_RANGE_def half ENTRIES_def BATCH_INCREMENT_PERCENT_def)
  next
    case 2
    then have "unat (b * 2) = unat b * 2" by (simp add: unat_mult_lem [THEN iffD1])
    moreover have "unat b > 0" using 2(1) by (simp add: unat_gt_0)
    ultimately have "b * 2 \<noteq> 0" by (metis mult_is_0 neq0_conv unsigned_0 zero_neq_numeral)
    with 2 half show ?thesis by (simp add: next_batch_size_def INFLIGHT_LOW_RANGE_def word_gt_0)
  next
    case 3
    then have "b \<noteq> 0" by auto
    then show ?thesis using 3 by (simp add: next_batch_size_def INFLIGHT_HIGH_RANGE_def half)
  qed
qed

lemma good_counters:
  assumes "good_state os s K"
  shows "unat (rj_page_id (reader s)) \<le> unat (fj_page_id (flusher s))"
    "unat (fj_page_id (flusher s)) + unat (wj_written_no_flush (writer s)) = unat (page_id_check_order s)"
    "unat (page_id_check_order s) \<le> unat (wj_page_id (writer s))" "unat (wj_page_id (writer s)) \<le> 49150"
    "unat (wj_batch_size (writer s)) \<le> 16382"
    "wj_inflight (writer s) = of_nat (unat (wj_page_id (writer s)) - unat (page_id_check_order s))"
proof -
  obtain L where "sched_inv False os (unat (wj_page_id (writer s))) s (map sqe_user_data K) L" using good_inv [OF assms] .
  note c = inv_parts(9) [OF this, unfolded counters_ok_def]
  show "unat (rj_page_id (reader s)) \<le> unat (fj_page_id (flusher s))"
    "unat (fj_page_id (flusher s)) + unat (wj_written_no_flush (writer s)) = unat (page_id_check_order s)"
    "unat (page_id_check_order s) \<le> unat (wj_page_id (writer s))" "unat (wj_page_id (writer s)) \<le> 49150"
    "unat (wj_batch_size (writer s)) \<le> 16382"
    "wj_inflight (writer s) = of_nat (unat (wj_page_id (writer s)) - unat (page_id_check_order s))"
    using c by simp_all
qed

lemma good_jobs:
  assumes "good_state os s K"
  shows "jobs_live s (map sqe_user_data K)" "stopped_ok s" "pages_live s (map sqe_user_data K)"
  using assms by (simp_all add: good_state_def)

text \<open>The measure counts the pages to be issued, and then the writes that are outstanding.\<close>

definition to_issue :: "sched \<Rightarrow> nat" where
  "to_issue s = (if job_running (wj_inner (writer s)) then Suc (32768 - unat (wj_page_id (writer s))) else 0)"

definition outstanding :: "sched \<Rightarrow> nat" where
  "outstanding s = unat (wj_page_id (writer s)) - unat (page_id_check_order s)"

definition writer_work :: "sched \<Rightarrow> nat" where
  "writer_work s = to_issue s * 100000 + outstanding s"

definition all_written :: "sched \<Rightarrow> bool" where
  "all_written s \<longleftrightarrow> \<not> job_running (wj_inner (writer s)) \<and> page_id_check_order s = wj_page_id (writer s)"

lemma writer_finishes:
  assumes os: "good_os os"
  shows "good_state os s K \<Longrightarrow> job_running (tj_inner (tracing s)) \<Longrightarrow> reach os s K (\<lambda>t K'. all_written t)"
proof (induction "writer_work s" arbitrary: s K rule: less_induct)
  case less
  let ?A = "map sqe_user_data K" and ?c = "page_id_check_order s" and ?w = "wj_page_id (writer s)"
  note c = good_counters [OF less.prems(1)] and j = good_jobs [OF less.prems(1)]
  show ?case
  proof (cases "unat ?c < unat ?w")
    case True
    have e: "(of_nat (unat ?c) :: u32) = ?c" by simp
    from True obtain a where a: "a \<in> set (pending s ?A)" "kind_at (op_heap s) a = Some (Some ?c)"
      using j(3) unfolding pages_live_def by (metis e order_refl)
    note g = good_page [OF less.prems(1) a(1) disjI1 [OF a(2)]]
    have nea: "a \<noteq> static_at s Op_tracing" "a \<noteq> static_at s Op_dump" using g(1) by (auto simp: static_of_None)
    obtain t K' L where t: "io_effect a L True (handed s) t" "good_state os t K'"
      "mset (pending s (?A)) = mset (a # map sqe_user_data K')" "tracing t = tracing s"
      "\<And>P. reach os t K' P \<Longrightarrow> reach os s K P"
    by (rule quiet_round [OF os less.prems a(1) nea g(2)]) (rule that)
    have "write_effect (handed s) t" using effect_of_write [OF t(1)] g(1) a(2) by simp
    note eff = this [unfolded write_effect_def, simplified]
    have "unat (?c + 1) = Suc (unat ?c)" using True c(4) by (simp add: unat_simps)
    then have "outstanding t < outstanding s" "to_issue t = to_issue s" using eff True by (simp_all add: outstanding_def to_issue_def)
    then have "writer_work t < writer_work s" by (simp add: writer_work_def)
    from less.hyps [OF this t(2)] t(4,5) less.prems(2) show ?thesis by simp
  next
    case False
    then have cw: "?c = ?w" using c(3) by (simp add: word_unat_eq_iff)
    show ?thesis
    proof (cases "job_running (wj_inner (writer s))")
      case False
      then show ?thesis using cw by (intro reach_now [OF less.prems(1)]) (simp add: all_written_def)
    next
      case True
      then have p: "posted s ?A Op_writer" using j(1) by (simp add: jobs_live_def)
      obtain L where inv: "sched_inv False os (unat ?w) s ?A L" using good_inv [OF less.prems(1)] .
      have low: "unat ?w < 32768" using inv_static_ready [OF inv p [unfolded posted_def]] by (simp add: below_limit_iff)
      have ne: "static_at s Op_writer \<noteq> static_at s Op_tracing" "static_at s Op_writer \<noteq> static_at s Op_dump" by simp_all
      have g: "good_result (handed s) (static_at s Op_writer) (- ETIME)" using good_job [OF less.prems(1), of Op_writer] by simp
      obtain t K' L where t: "io_effect (static_at s Op_writer) L True (handed s) t" "good_state os t K'"
      "mset (pending s (?A)) = mset ((static_at s Op_writer) # map sqe_user_data K')" "tracing t = tracing s"
      "\<And>P. reach os t K' P \<Longrightarrow> reach os s K P"
    by (rule quiet_round [OF os less.prems p [unfolded posted_def] ne g]) (rule that)
      define b where "b = next_batch_size (wj_inflight (writer s)) (wj_batch_size (writer s))"
      obtain as where "writer_effect (handed s) b as t"
        using effect_of_writer [of "handed s"] t(1) by (auto simp: b_def)
      note eff = this [unfolded writer_effect_def, simplified]
      have "b \<noteq> 0" using next_batch_idle c(6) by (simp add: b_def cw)
      then have b: "0 < unat b" "unat b \<le> 16382" using next_batch_bound [OF c(5)] by (simp_all add: b_def unat_gt_0)
      have new: "unat (wj_page_id (writer t)) = unat ?w + unat b" using eff b low by (simp add: unat_simps)
      have "to_issue t < to_issue s" using eff new b low True by (auto simp: to_issue_def below_limit_iff)
      moreover have "outstanding t < 100000" using good_counters(4) [OF t(2)] by (simp add: outstanding_def)
      ultimately have "writer_work t < writer_work s" unfolding writer_work_def by linarith
      from less.hyps [OF this t(2)] t(4,5) less.prems(2) show ?thesis by simp
    qed
  qed
qed

section \<open>The flusher\<close>

definition all_flushed :: "sched \<Rightarrow> bool" where
  "all_flushed s \<longleftrightarrow> \<not> job_running (wj_inner (writer s)) \<and> \<not> job_running (fj_inner (flusher s))"

text \<open>A tick at the limit stops the flusher.\<close>

lemma flusher_stops:
  assumes os: "good_os os" and good: "good_state os s K" and running: "job_running (tj_inner (tracing s))"
    and "\<not> job_running (wj_inner (writer s))" "\<not> below_limit (fj_page_id (flusher s))"
  shows "reach os s K (\<lambda>t K'. all_flushed t)"
proof (cases "job_running (fj_inner (flusher s))")
  case False
  then show ?thesis using assms(4) by (intro reach_now [OF good]) (simp add: all_flushed_def)
next
  case True
  have p: "posted s (map sqe_user_data K) Op_flusher" using good_jobs(1) [OF good] True by (simp add: jobs_live_def)
  have ne: "static_at s Op_flusher \<noteq> static_at s Op_tracing" "static_at s Op_flusher \<noteq> static_at s Op_dump" by simp_all
  have g: "good_result (handed s) (static_at s Op_flusher) (- ETIME)" using good_job [OF good, of Op_flusher] by simp
  obtain t K' L where t: "io_effect (static_at s Op_flusher) L True (handed s) t" "good_state os t K'"
      "mset (pending s (map sqe_user_data K)) = mset ((static_at s Op_flusher) # map sqe_user_data K')" "tracing t = tracing s"
      "\<And>P. reach os t K' P \<Longrightarrow> reach os s K P"
    by (rule quiet_round [OF os good running p [unfolded posted_def] ne g]) (rule that)
  have "flusher_effect (handed s) t" using effect_of_flusher [of "handed s"] t(1) by simp
  then have "all_flushed t" using assms(4,5) by (simp add: flusher_effect_def all_flushed_def)
  then show ?thesis by (intro t(5) reach_now [OF t(2)])
qed

lemma fsync_completes:
  assumes os: "good_os os" and good: "good_state os s K" and running: "job_running (tj_inner (tracing s))"
    and "all_written s" "fj_inflight (flusher s) \<noteq> 0"
  shows "reach os s K (\<lambda>t K'. all_flushed t)"
proof -
  have p: "posted s (map sqe_user_data K) Op_fsync" using good_jobs(1) [OF good] assms(5) by (simp add: jobs_live_def)
  have ne: "static_at s Op_fsync \<noteq> static_at s Op_tracing" "static_at s Op_fsync \<noteq> static_at s Op_dump" by simp_all
  obtain t K' L where t: "io_effect (static_at s Op_fsync) L True (handed s) t" "good_state os t K'"
      "mset (pending s (map sqe_user_data K)) = mset ((static_at s Op_fsync) # map sqe_user_data K')" "tracing t = tracing s"
      "\<And>P. reach os t K' P \<Longrightarrow> reach os s K P"
    by (rule quiet_round [OF os good running p [unfolded posted_def] ne good_fsync [OF good p]]) (rule that)
  have e: "fsync_effect (handed s) L t" using effect_of_fsync [of "handed s"] t(1) by simp
  have "\<not> below_limit (wj_page_id (writer s))" using good_jobs(2) [OF good] assms(4) by (simp add: stopped_ok_def all_written_def)
  then have "reach os t K' (\<lambda>t K'. all_flushed t)"
    using e assms(4) running t(4) by (intro flusher_stops [OF os t(2)]) (simp_all add: fsync_effect_def all_written_def)
  then show ?thesis by (rule t(5))
qed

lemma flusher_finishes:
  assumes os: "good_os os" and good: "good_state os s K" and running: "job_running (tj_inner (tracing s))" and w: "all_written s"
  shows "reach os s K (\<lambda>t K'. all_flushed t)"
proof (cases "below_limit (fj_page_id (flusher s)) \<and> fj_inflight (flusher s) = 0")
  case False
  then show ?thesis using flusher_stops [OF os good running] fsync_completes [OF os good running w] w by (auto simp: all_written_def)
next
  case True
  note c = good_counters [OF good] and j = good_jobs [OF good]
  have lim: "\<not> below_limit (page_id_check_order s)" using j(2) w by (simp add: stopped_ok_def all_written_def)
  have run: "job_running (fj_inner (flusher s))" using j(2) True by (auto simp: stopped_ok_def)
  have p: "posted s (map sqe_user_data K) Op_flusher" using j(1) run by (simp add: jobs_live_def)
  have ne: "static_at s Op_flusher \<noteq> static_at s Op_tracing" "static_at s Op_flusher \<noteq> static_at s Op_dump" by simp_all
  have g: "good_result (handed s) (static_at s Op_flusher) (- ETIME)" using good_job [OF good, of Op_flusher] by simp
  obtain t K' L where t: "io_effect (static_at s Op_flusher) L True (handed s) t" "good_state os t K'"
      "mset (pending s (map sqe_user_data K)) = mset ((static_at s Op_flusher) # map sqe_user_data K')" "tracing t = tracing s"
      "\<And>P. reach os t K' P \<Longrightarrow> reach os s K P"
    by (rule quiet_round [OF os good running p [unfolded posted_def] ne g]) (rule that)
  have "flusher_effect (handed s) t" using effect_of_flusher [of "handed s"] t(1) by simp
  note eff = this [unfolded flusher_effect_def, simplified]
  have "wj_written_no_flush (writer s) \<noteq> 0" using c(2) lim True by (auto simp: below_limit_iff)
  then have "wants_fsync (handed s)" using True by (simp add: wants_fsync_def)
  then have "fj_inflight (flusher t) \<noteq> 0" using eff by simp
  moreover have "all_written t" using eff w by (simp add: all_written_def)
  ultimately have "reach os t K' (\<lambda>t K'. all_flushed t)" using running t(4) by (intro fsync_completes [OF os t(2)]) simp_all
  then show ?thesis by (rule t(5))
qed

section \<open>The reader\<close>

lemma filter_length_mono: "(\<And>x. P x \<Longrightarrow> Q x) \<Longrightarrow> length (filter P xs) \<le> length (filter Q xs)"
  by (induction xs) (auto intro: le_SucI)

definition idle_reader :: "sched \<Rightarrow> sched \<Rightarrow> bool" where
  "idle_reader s t \<longleftrightarrow> rj_inflight (reader t) = 0 \<and> rj_page_id (reader t) = rj_page_id (reader s) \<and>
     rj_inner (reader t) = rj_inner (reader s) \<and> writer t = writer s \<and> flusher t = flusher s"

lemma reads_complete:
  assumes os: "good_os os"
  shows "good_state os s K \<Longrightarrow> job_running (tj_inner (tracing s)) \<Longrightarrow> reach os s K (\<lambda>t K'. idle_reader s t)"
proof (induction "length (reads s (pending s (map sqe_user_data K)))" arbitrary: s K rule: less_induct)
  case less
  let ?A = "map sqe_user_data K"
  note j = good_jobs [OF less.prems(1)]
  show ?case
  proof (cases "reads s (pending s ?A) = []")
    case True
    then have "rj_inflight (reader s) = 0" using j(3) by (simp add: pages_live_def)
    then show ?thesis by (intro reach_now [OF less.prems(1)]) (simp add: idle_reader_def)
  next
    case False
    then obtain a where "a \<in> set (reads s (pending s ?A))" by (meson list.set_sel(1))
    then have a: "a \<in> set (pending s ?A)" "kind_at (op_heap s) a = Some None" by (simp_all add: reads_def)
    note g = good_page [OF less.prems(1) a(1) disjI2 [OF a(2)]]
    have nea: "a \<noteq> static_at s Op_tracing" "a \<noteq> static_at s Op_dump" using g(1) by (auto simp: static_of_None)
    obtain t K' L where t: "io_effect a L True (handed s) t" "good_state os t K'"
      "mset (pending s (?A)) = mset (a # map sqe_user_data K')" "tracing t = tracing s"
      "\<And>P. reach os t K' P \<Longrightarrow> reach os s K P"
    by (rule quiet_round [OF os less.prems a(1) nea g(2)]) (rule that)
    have "read_effect (handed s) a t" using effect_of_read [OF t(1)] g(1) a(2) by simp
    note eff = this [unfolded read_effect_def, simplified]
    have q: "pending t (map sqe_user_data K') = map sqe_user_data K'" using eff by (simp add: pending_queued queued_def)
    have "length (reads s (pending s ?A)) = length (reads s (a # map sqe_user_data K'))"
      unfolding reads_def by (metis t(3) mset_filter size_mset)
    also have "\<dots> = Suc (length (reads s (map sqe_user_data K')))" using a(2) by (simp add: reads_def)
    finally have "length (reads t (pending t (map sqe_user_data K'))) < length (reads s (pending s ?A))"
      using eff by (simp add: q reads_def less_Suc_eq_le) (intro filter_length_mono, simp)
    from less.hyps [OF this t(2)] t(4) less.prems(2) have "reach os t K' (\<lambda>u K'. idle_reader t u)" by simp
    then have "reach os t K' (\<lambda>u K'. idle_reader s u)" using eff unfolding idle_reader_def by simp
    then show ?thesis by (rule t(5))
  qed
qed

text \<open>With nothing outstanding a tick of the reader moves on, until it reaches the limit.\<close>

definition reader_work :: "sched \<Rightarrow> nat" where
  "reader_work s = (if job_running (rj_inner (reader s)) then Suc (32768 - unat (rj_page_id (reader s))) else 0)"

lemma reader_tick_moves:
  assumes os: "good_os os" and good: "good_state os s K" and running: "job_running (tj_inner (tracing s))"
    and "all_flushed s" "rj_inflight (reader s) = 0" "job_running (rj_inner (reader s))"
  obtains t K' where "good_state os t K'" "tracing t = tracing s" "all_flushed t" "reader_work t < reader_work s"
    "\<And>P. reach os t K' P \<Longrightarrow> reach os s K P"
proof -
  note c = good_counters [OF good] and j = good_jobs [OF good]
  have p: "posted s (map sqe_user_data K) Op_reader" using j(1) assms(6) by (simp add: jobs_live_def)
  have ne: "static_at s Op_reader \<noteq> static_at s Op_tracing" "static_at s Op_reader \<noteq> static_at s Op_dump" by simp_all
  have g: "good_result (handed s) (static_at s Op_reader) (- ETIME)" using good_job [OF good, of Op_reader] by simp
  obtain t K' L where t: "io_effect (static_at s Op_reader) L True (handed s) t" "good_state os t K'"
      "mset (pending s (map sqe_user_data K)) = mset (static_at s Op_reader # map sqe_user_data K')" "tracing t = tracing s"
      "\<And>P. reach os t K' P \<Longrightarrow> reach os s K P"
    by (rule quiet_round [OF os good running p [unfolded posted_def] ne g]) (rule that)
  obtain as where "reader_effect (handed s) (reader_batch (handed s)) as t" using effect_of_reader [of "handed s"] t(1) by auto
  note eff = this [unfolded reader_effect_def, simplified]
  have rb: "reader_batch (handed s) = ucast (min_c (ucast (next_batch_size 0 (rj_batch_size (reader s))))
      ((ucast (fj_page_id (flusher s)) :: u64) - ucast (rj_page_id (reader s))))"
    using assms(5) by (simp add: reader_batch_def)
  note b = reader_batch_bound [OF c(1) rb]
  have "unat (next_batch_size 0 (rj_batch_size (reader s))) > 0" using next_batch_idle by (simp add: unat_gt_0)
  moreover have "32768 \<le> unat (fj_page_id (flusher s))" using j(2) assms(4) by (auto simp: stopped_ok_def all_flushed_def below_limit_iff)
  ultimately have "0 < unat (reader_batch (handed s))" if "unat (rj_page_id (reader s)) < 32768" using b(1) that by simp
  then have "reader_work t < reader_work s"
    using eff b(2) assms(6) by (cases "unat (rj_page_id (reader s)) < 32768") (auto simp: reader_work_def below_limit_iff)
  moreover have "all_flushed t" using eff assms(4) by (simp add: all_flushed_def)
  ultimately show thesis using that t(2,4,5) by blast
qed

lemma reader_finishes:
  assumes os: "good_os os"
  shows "good_state os s K \<Longrightarrow> job_running (tj_inner (tracing s)) \<Longrightarrow> all_flushed s \<Longrightarrow> reach os s K (\<lambda>t K'. jobs_finished t)"
proof (induction "reader_work s" arbitrary: s K rule: less_induct)
  case less
  show ?case
  proof (rule reach_trans [OF reads_complete [OF os less.prems(1,2)]])
    fix t K' assume good: "good_state os t K'" and tr: "tracing t = tracing s" and idle: "idle_reader s t"
    have fl: "all_flushed t" and rw: "reader_work t = reader_work s" "job_running (tj_inner (tracing t))"
      using idle less.prems(2,3) tr by (simp_all add: idle_reader_def all_flushed_def reader_work_def)
    show "reach os t K' (\<lambda>t K'. jobs_finished t)"
    proof (cases "job_running (rj_inner (reader t))")
      case False
      then show ?thesis using fl by (intro reach_now [OF good]) (simp add: all_flushed_def jobs_finished_def)
    next
      case True
      have "rj_inflight (reader t) = 0" using idle by (simp add: idle_reader_def)
      obtain u K2 where u: "good_state os u K2" "tracing u = tracing t" "all_flushed u" "reader_work u < reader_work t"
          "\<And>P. reach os u K2 P \<Longrightarrow> reach os t K' P"
        by (rule reader_tick_moves [OF os good rw(2) fl \<open>rj_inflight (reader t) = 0\<close> True]) (rule that)
      have "reach os u K2 (\<lambda>t K'. jobs_finished t)" using less.hyps [OF _ u(1)] u(2-4) rw by simp
      then show ?thesis by (rule u(5))
    qed
  qed
qed

section \<open>All three\<close>

lemma jobs_finish:
  assumes os: "good_os os" and good: "good_state os s K" and running: "job_running (tj_inner (tracing s))"
  shows "reach os s K (\<lambda>t K'. jobs_finished t)"
proof (rule reach_trans [OF writer_finishes [OF os good running]])
  fix t K' assume t: "good_state os t K'" "tracing t = tracing s" "all_written t"
  show "reach os t K' (\<lambda>t K'. jobs_finished t)"
  proof (rule reach_trans [OF flusher_finishes [OF os t(1) _ t(3)]])
    show "job_running (tj_inner (tracing t))" using t(2) running by simp
    fix u K2 assume "good_state os u K2" "tracing u = tracing t" "all_flushed u"
    then show "reach os u K2 (\<lambda>t K'. jobs_finished t)" using t(2) running by (intro reader_finishes [OF os]) simp_all
  qed
qed

section \<open>The tracing job\<close>

lemma round_loops:
  assumes "main_round os (s\<lparr>read_mem := write_buf\<rparr>) 0 1 [(a, r)] = Inr (exits t, t)" "reaped (K @ sq s) [(a, r)] K1"
    and "r \<ge> 0 \<or> r = - ETIME" "exits t \<or> (\<exists>u K'. answered_loop os t K1 u K')"
  shows "\<exists>u K'. answered_loop os s K u K'"
proof (cases "exits t")
  case True
  then show ?thesis using answered_loop.leave [of os write_buf s 0 1 "[(a, r)]" t K K1] assms(1-3) by (auto simp: unfailed_def)
next
  case False
  then show ?thesis using answered_loop.again [of os write_buf s 0 1 "[(a, r)]" t K K1] assms by (auto simp: unfailed_def)
qed

lemma dump_ends:
  assumes os: "good_os os" and good: "good_state os s K" and "jobs_finished s" "td_inflight (dump_op s) \<noteq> 0"
  shows "\<exists>t K'. answered_loop os s K t K'"
proof -
  have last: "\<exists>t K'. answered_loop os s K t K'" if good: "good_state os s K" and "jobs_finished s" "td_inflight (dump_op s) \<noteq> 0"
    "td_callback (dump_op s) = Some Tracing_synced" for s K
  proof -
    have p: "posted s (map sqe_user_data K) Op_dump" using good_jobs(1) [OF good] that(3) by (simp add: jobs_live_def)
    obtain t K' L where t: "main_round os (s\<lparr>read_mem := write_buf\<rparr>) 0 1
        [(static_at s Op_dump, uint (td_to_write (dump_op s)))] = Inr (exits t, t)"
      "reaped (K @ sq s) [(static_at s Op_dump, uint (td_to_write (dump_op s)))] K'" "good_state os t K'"
      "io_effect (static_at s Op_dump) L True (handed s) t"
      "mset (pending s (map sqe_user_data K)) = mset (static_at s Op_dump # map sqe_user_data K')"
      by (rule round_run [OF os good p [unfolded posted_def] good_dump(1) [OF good p]]) (rule that)
    have "synced_effect (handed s) t" using effect_of_dump [of "handed s"] t(4) that(4) by simp
    then have "exits t" using that(2) by (simp add: synced_effect_def only_tracing_def exits_def jobs_finished_def)
    then show ?thesis using round_loops [OF t(1,2) disjI1 [OF uint_ge_0]] by blast
  qed
  have p: "posted s (map sqe_user_data K) Op_dump" using good_jobs(1) [OF good] assms(4) by (simp add: jobs_live_def)
  show ?thesis
  proof (cases "td_callback (dump_op s) = Some Tracing_synced")
    case True
    then show ?thesis using last assms by blast
  next
    case False
    then have cb: "td_callback (dump_op s) = Some Tracing_writed" using good_dump(2) [OF good p] by simp
    obtain t K' L where t: "main_round os (s\<lparr>read_mem := write_buf\<rparr>) 0 1
        [(static_at s Op_dump, uint (td_to_write (dump_op s)))] = Inr (exits t, t)"
      "reaped (K @ sq s) [(static_at s Op_dump, uint (td_to_write (dump_op s)))] K'" "good_state os t K'"
      "io_effect (static_at s Op_dump) L True (handed s) t"
      "mset (pending s (map sqe_user_data K)) = mset (static_at s Op_dump # map sqe_user_data K')"
      by (rule round_run [OF os good p [unfolded posted_def] good_dump(1) [OF good p]]) (rule that)
    have "writed_effect (handed s) t" using effect_of_dump [of "handed s"] t(4) cb by simp
    then have "jobs_finished t" "td_inflight (dump_op t) \<noteq> 0" "td_callback (dump_op t) = Some Tracing_synced"
      using assms(3,4) by (simp_all add: writed_effect_def only_tracing_def jobs_finished_def)
    then show ?thesis using round_loops [OF t(1,2) disjI1 [OF uint_ge_0]] last [OF t(3)] by blast
  qed
qed

text \<open>An item in the ring, or a dump in flight, keeps the job going until it is stopped.\<close>

definition trace_due :: "sched \<Rightarrow> u64 list \<Rightarrow> bool" where
  "trace_due s A \<longleftrightarrow> td_inflight (dump_op s) \<noteq> 0 \<or> cbuf_used_count (ring s) \<noteq> 0 \<and> posted s A Op_tracing"

lemma tick_dumps:
  assumes "tick_effect s t" "jobs_finished s" "td_inflight (dump_op s) = 0" "cbuf_used_count (ring s) \<noteq> 0"
  shows "td_inflight (dump_op t) \<noteq> 0"
proof -
  obtain u v where u: "item_effect s u" and v: "dump_effect u v \<or> v = u"
    and t: "if \<not> jobs_finished s \<or> td_inflight (dump_op v) \<noteq> 0
      then only_tracing v t \<and> tracing t = tracing v \<and> queued t = queued v @ [static_at s Op_tracing] else dump_effect v t"
    by (rule tick_effectE [OF assms(1)])
  have "td_inflight (dump_op u) = 0" "cbuf_used_count (ring u) \<noteq> 0"
    using u assms by (simp_all add: item_effect_def cbuf_used_count_def)
  then have "td_inflight (dump_op v) = 0 \<Longrightarrow> cbuf_used_count (ring v) \<noteq> 0"
    using v by (auto simp: dump_effect_def split: if_splits)
  then show ?thesis using t assms(2) by (auto simp: dump_effect_def split: if_splits)
qed

lemma tick_adds:
  assumes "tick_effect s t" "ring_ok s" "\<not> jobs_finished s"
  shows "cbuf_used_count (ring t) \<noteq> 0"
proof -
  obtain u v where u: "item_effect s u" and v: "dump_effect u v \<or> v = u"
    and t: "if \<not> jobs_finished s \<or> td_inflight (dump_op v) \<noteq> 0
      then only_tracing v t \<and> tracing t = tracing v \<and> queued t = queued v @ [static_at s Op_tracing] else dump_effect v t"
    by (rule tick_effectE [OF assms(1)])
  have "unat (cbuf_used_count (ring u)) > 0" using item_effect_ring(2) [OF assms(2) u] assms(3) by auto
  moreover have "ring t = ring u" using v t assms(3) dump_effect_only [of u v] by auto
  ultimately show ?thesis by auto
qed

lemma tracing_round:
  assumes os: "good_os os" and good: "good_state os s K" and p: "posted s (map sqe_user_data K) Op_tracing"
  obtains t K' where "good_state os t K'" "tick_effect (handed s) t"
    "exits t \<or> (\<exists>u K2. answered_loop os t K' u K2) \<Longrightarrow> \<exists>u K2. answered_loop os s K u K2"
proof -
  have g: "good_result (handed s) (static_at s Op_tracing) (- ETIME)" using good_job [OF good, of Op_tracing] by simp
  obtain t K' L where t: "main_round os (s\<lparr>read_mem := write_buf\<rparr>) 0 1 [(static_at s Op_tracing, - ETIME)] = Inr (exits t, t)"
    "reaped (K @ sq s) [(static_at s Op_tracing, - ETIME)] K'" "good_state os t K'"
    "io_effect (static_at s Op_tracing) L True (handed s) t"
    "mset (pending s (map sqe_user_data K)) = mset (static_at s Op_tracing # map sqe_user_data K')"
    by (rule round_run [OF os good p [unfolded posted_def] g]) (rule that)
  have "tick_effect (handed s) t" using effect_of_tracing [of "handed s"] t(4) by simp
  then show thesis using that [OF t(3) _ round_loops [OF t(1,2) disjI2 [OF refl]]] by blast
qed

lemma due_ends:
  assumes os: "good_os os" and good: "good_state os s K" and "jobs_finished s" "trace_due s (map sqe_user_data K)"
  shows "\<exists>t K'. answered_loop os s K t K'"
proof (cases "td_inflight (dump_op s) = 0")
  case False
  then show ?thesis using dump_ends [OF os good assms(3)] by simp
next
  case True
  then have p: "posted s (map sqe_user_data K) Op_tracing" "cbuf_used_count (ring s) \<noteq> 0" using assms(4) by (simp_all add: trace_due_def)
  obtain t K' where t: "good_state os t K'" "tick_effect (handed s) t"
      "exits t \<or> (\<exists>u K2. answered_loop os t K' u K2) \<Longrightarrow> \<exists>u K2. answered_loop os s K u K2"
    by (rule tracing_round [OF os good p(1)]) (rule that)
  have fin: "jobs_finished (handed s)" using assms(3) by (simp add: jobs_finished_def)
  have "td_inflight (dump_op t) \<noteq> 0" using tick_dumps [OF t(2) fin] True p(2) by simp
  moreover have "jobs_finished t" using tick_effect_only [OF t(2)] fin by (simp add: only_tracing_def jobs_finished_def)
  ultimately show ?thesis using dump_ends [OF os t(1)] t(3) by blast
qed

lemma loop_can_return:
  assumes os: "good_os os" and good: "good_state os s K" and "\<not> jobs_finished s"
  shows "\<exists>t K'. answered_loop os s K t K'"
proof -
  have j: "posted s (map sqe_user_data K) Op_tracing" "job_running (tj_inner (tracing s))"
    using good_jobs(1) [OF good] assms(3) by (simp_all add: jobs_live_def)
  obtain t K' where t: "good_state os t K'" "tick_effect (handed s) t"
      "exits t \<or> (\<exists>u K2. answered_loop os t K' u K2) \<Longrightarrow> \<exists>u K2. answered_loop os s K u K2"
    by (rule tracing_round [OF os good j(1)]) (rule that)
  have fin: "\<not> jobs_finished (handed s)" "ring_ok (handed s)" using assms(3) good by (simp_all add: jobs_finished_def good_state_def ring_ok_def)
  have used: "cbuf_used_count (ring t) \<noteq> 0" using tick_adds [OF t(2)] fin by simp
  have o: "\<not> jobs_finished t" "job_running (tj_inner (tracing t))"
    using tick_effect_only [OF t(2)] fin j(2) by (simp_all add: only_tracing_def jobs_finished_def)
  have pt: "posted t (map sqe_user_data K') Op_tracing" using good_jobs(1) [OF t(1)] o(1) by (simp add: jobs_live_def)
  obtain u K2 where u: "(answered_round os)\<^sup>*\<^sup>* (t, K') (u, K2)" "good_state os u K2" "tracing u = tracing t"
      "posted t (map sqe_user_data K') Op_tracing \<longrightarrow> posted u (map sqe_user_data K2) Op_tracing" "jobs_finished u"
    using jobs_finish [OF os t(1) o(2)] unfolding reach_def by metis
  have "trace_due u (map sqe_user_data K2)" using used u(3,4) pt by (simp add: trace_due_def)
  from due_ends [OF os u(2,5) this] answered_round_loop [OF u(1)] t(3) show ?thesis by blast
qed

end
