(* ===== verification/Sched_Hang.thy ===== *)
theory Sched_Hang
  imports Sched_Finish
begin

text \<open>
  The states from which \<open>main\<close> never returns: the other jobs have finished, the tracing job counts
  as running and has nothing to dump, or no tick that would dump it.
\<close>

definition doomed :: "sched \<Rightarrow> u64 list \<Rightarrow> bool" where
  "doomed s A \<longleftrightarrow> jobs_finished s \<and> job_running (tj_inner (tracing s)) \<and> \<not> trace_due s A"

lemma doomed_iff:
  "doomed s A \<longleftrightarrow> jobs_finished s \<and> job_running (tj_inner (tracing s)) \<and> td_inflight (dump_op s) = 0 \<and>
     (cbuf_used_count (ring s) = 0 \<or> \<not> posted s A Op_tracing)"
  by (auto simp: doomed_def trace_due_def)

section \<open>They are not left\<close>

lemma tick_idle:
  assumes "tick_effect s t" "jobs_finished s" "td_inflight (dump_op s) = 0" "cbuf_used_count (ring s) = 0"
  shows "td_inflight (dump_op t) = 0 \<and> cbuf_used_count (ring t) = 0"
proof -
  obtain u v where u: "item_effect s u" and v: "dump_effect u v \<or> v = u"
    and t: "if \<not> jobs_finished s \<or> td_inflight (dump_op v) \<noteq> 0
      then only_tracing v t \<and> tracing t = tracing v \<and> queued t = queued v @ [static_at s Op_tracing] else dump_effect v t"
    by (rule tick_effectE [OF assms(1)])
  have used: "td_inflight (dump_op u) = 0" "cbuf_used_count (ring u) = 0"
    using u assms by (simp_all add: item_effect_def cbuf_used_count_def)
  then have "v = u" using v by (auto simp: dump_effect_def split: if_splits)
  then show ?thesis using t used assms(2) by (simp add: dump_effect_def)
qed

lemma not_posted:
  assumes "\<not> posted s (a # A) x" "ctx_base t = ctx_base s" "queued t = queued s @ xs" "static_at s x \<notin> set xs"
  shows "\<not> posted t A x"
  using assms static_at_cong [OF assms(2)] by (auto simp: posted_def pending_queued)

lemma grown_fresh: "grown s t as fs \<Longrightarrow> static_at s x \<notin> set as"
  unfolding grown_def by (metis option.distinct(1) static_of_at)

lemma effect_doomed:
  assumes e: "io_effect a L ok s t" and d: "doomed s (a # A)"
  shows "doomed t A"
proof -
  note d = d [unfolded doomed_iff]
  have quiet: "doomed t A"
    if "jobs_finished t" "tracing t = tracing s" "ctx_base t = ctx_base s" "queued t = queued s @ xs" "static_at s Op_tracing \<notin> set xs" for xs
    using that d not_posted [OF _ that(3-5)] by (auto simp: doomed_iff)
  have fin: "\<not> job_running (wj_inner (writer s))" "\<not> job_running (fj_inner (flusher s))" "\<not> job_running (rj_inner (reader s))"
    using d by (simp_all add: jobs_finished_def)
  show ?thesis using e
  proof cases
    case failed
    then show ?thesis using d by (auto simp: doomed_iff posted_def pending_def)
  next
    case (writer_tick as)
    then show ?thesis using fin grown_fresh [of s t as _ Op_tracing] unfolding writer_effect_def
      by (intro quiet [of "as @ (if below_limit (wj_page_id (writer t)) then [static_at s Op_writer] else [])"]) (auto simp: jobs_finished_def)
  next
    case (reader_tick as)
    then show ?thesis using fin grown_fresh [of s t as _ Op_tracing] unfolding reader_effect_def
      by (intro quiet [of "as @ (if below_limit (rj_page_id (reader t)) then [static_at s Op_reader] else [])"]) (auto simp: jobs_finished_def)
  next
    case status_tick
    then show ?thesis using fin unfolding status_effect_def
      by (intro quiet [of "[static_at s Op_status]"]) (auto simp: jobs_finished_def)
  next
    case tracing_tick
    then have "cbuf_used_count (ring s) = 0" using d by (auto simp: posted_def)
    from tick_idle [OF tracing_tick(3) _ _ this] tick_effect_only [OF tracing_tick(3)] d show ?thesis
      by (auto simp: doomed_iff only_tracing_def jobs_finished_def)
  next
    case flusher_tick
    then show ?thesis using fin unfolding flusher_effect_def
      by (intro quiet [of "(if wants_fsync s then [static_at s Op_fsync] else []) @
        (if below_limit (fj_page_id (flusher s)) then [static_at s Op_flusher] else [])"]) (auto simp: jobs_finished_def)
  next
    case fsync_done
    then show ?thesis using fin unfolding fsync_effect_def by (intro quiet [of "[]"]) (auto simp: jobs_finished_def)
  next
    case write_done
    then show ?thesis using fin unfolding write_effect_def by (intro quiet [of "[]"]) (auto simp: jobs_finished_def)
  next
    case read_done
    then show ?thesis using fin unfolding read_effect_def by (intro quiet [of "[]"]) (auto simp: jobs_finished_def)
  qed (use d in simp_all)
qed

lemma doomed_pending:
  assumes "set (pending t B) = set (pending s A)" "writer t = writer s" "reader t = reader s" "flusher t = flusher s"
    "tracing t = tracing s" "ctx_base t = ctx_base s"
  shows "doomed t B = doomed s A"
  using assms static_at_cong [of t s] by (simp add: doomed_iff posted_def jobs_finished_def)

lemma doomed_steps:
  assumes "sys_step\<^sup>*\<^sup>* \<sigma> \<tau>" "sys_inv False \<sigma>" "doomed (sys_app \<sigma>) (map sqe_user_data (sys_kernel \<sigma>))"
  shows "doomed (sys_app \<tau>) (map sqe_user_data (sys_kernel \<tau>))"
proof -
  have "sys_inv False \<tau> \<and> doomed (sys_app \<tau>) (map sqe_user_data (sys_kernel \<tau>))"
    using assms(1)
  proof (induction rule: rtranclp_induct)
    case (step \<tau> \<upsilon>)
    then have i: "sys_inv False \<tau>" "doomed (sys_app \<tau>) (map sqe_user_data (sys_kernel \<tau>))" by simp_all
    from i(1) step.hyps(2) have "doomed (sys_app \<upsilon>) (map sqe_user_data (sys_kernel \<upsilon>))"
    proof (cases rule: sys_step_cases)
      case submitted
      then show ?thesis using i(2) doomed_pending [of "sys_app \<upsilon>" "map sqe_user_data (sys_kernel \<upsilon>)" "sys_app \<tau>" "map sqe_user_data (sys_kernel \<tau>)"]
        by (simp add: pending_def)
    next
      case (changed m)
      then show ?thesis using i(2) doomed_pending [of "sys_app \<upsilon>" "map sqe_user_data (sys_kernel \<upsilon>)" "sys_app \<tau>" "map sqe_user_data (sys_kernel \<tau>)"]
        by (simp add: pending_def)
    next
      case (completed K e K' r L)
      have "doomed (sys_app \<tau>) (sqe_user_data e # map sqe_user_data (K @ K'))"
        using i(2) completed(1) doomed_pending [of "sys_app \<tau>" "sqe_user_data e # map sqe_user_data (K @ K')" "sys_app \<tau>" "map sqe_user_data (sys_kernel \<tau>)"]
        by (simp add: pending_def)
      from effect_doomed [OF completed(6) this] completed(2) show ?thesis by simp
    qed
    with sys_step_inv [OF i(1) step.hyps(2)] show ?case by simp
  qed (use assms(2,3) in simp)
  then show ?thesis by simp
qed

lemma doomed_loop:
  assumes "at_rest False os s (map sqe_user_data K)" "doomed s (map sqe_user_data K)"
  shows "\<not> main_loop os s K t K'"
proof
  assume "main_loop os s K t K'"
  then have m: "sys_step\<^sup>*\<^sup>* (in_system os s K) (in_system os t K')" "exits t" using main_loop_steps by blast+
  have "doomed t (map sqe_user_data K')" using doomed_steps [OF m(1)] assms by (simp add: sys_inv_def)
  then show False using m(2) by (simp add: doomed_def exits_def)
qed

section \<open>From all others \<open>main\<close> can return\<close>

lemma exits_loop:
  assumes "exits s"
  shows "\<exists>t K'. answered_loop os s K t K'"
proof -
  have "main_round os (s\<lparr>read_mem := write_buf\<rparr>) 0 (- ETIME) [] = Inr (True, handed s)"
    using assms by (simp add: main_round_def io_tick_def exits_def jobs_finished_def)
  from answered_loop.leave [OF this, of K "K @ sq s"] show ?thesis by (auto simp: ETIME_def unfailed_def)
qed

lemma loop_returns_iff:
  assumes os: "good_os os" and good: "good_state os s K"
  shows "(\<exists>t K'. main_loop os s K t K') \<longleftrightarrow> \<not> doomed s (map sqe_user_data K)"
proof
  assume "\<exists>t K'. main_loop os s K t K'"
  then show "\<not> doomed s (map sqe_user_data K)" using doomed_loop good unfolding good_state_def by blast
next
  assume "\<not> doomed s (map sqe_user_data K)"
  then consider "\<not> jobs_finished s" | "exits s" | "jobs_finished s" "trace_due s (map sqe_user_data K)"
    by (auto simp: doomed_def exits_def)
  then show "\<exists>t K'. main_loop os s K t K'"
    using loop_can_return [OF os good] exits_loop due_ends [OF os good] answered_main_loop by cases blast+
qed

section \<open>The start\<close>

lemma main_init_args:
  assumes "main_init os s argc ret fd mem tfd m = Inr t"
  shows "argc = 2" "ret = 0" "fd \<noteq> -1" "mem" "0 < tfd" "map_fd m \<ge> 0" "map_buf m \<noteq> 0" "map_first m = map_buf m"
    "map_second m = map_buf m + 4096"
  using assms ring_size
  by (auto simp: main_init_def assert_res_Inr_iff bind_res_Inr_iff background_tracing_init_def cbuf_init_def Let_def
      stats_init_all_def stats_bucket_init_def)

lemma start_running:
  assumes z: "zero_globals s" and os: "good_os os" and i: "main_init os s argc ret fd mem tfd m = Inr t"
  shows "queued t = map (static_at t) [Op_writer, Op_reader, Op_flusher, Op_tracing, Op_status]"
    "\<forall>x\<in>{Op_writer, Op_reader, Op_status, Op_tracing, Op_flusher}. job_running (static_job t x)"
proof -
  note a = main_init_args [OF i]
  obtain u where u: "main_init os s 2 0 fd True tfd m = Inr u"
    "sq u = map2 (\<lambda>x ms. \<lparr>sqe_user_data = static_at s x, sqe_req = Prep_timeout \<lparr>tv_sec = 0, tv_nsec = ms\<rparr>\<rparr>)
      [Op_writer, Op_reader, Op_flusher, Op_tracing, Op_status] [5000000, 100000000, 100000000, 10000000, 200000000]"
    "\<forall>x\<in>{Op_writer, Op_reader, Op_status, Op_tracing, Op_flusher}. job_running (static_job u x)" "ctx_base u = ctx_base s"
    using main_run [of s os tfd fd m] z os a unfolding zero_globals_def good_os_def by auto
  have ut: "u = t" using u(1) i a by simp
  have "ctx_base t = ctx_base s" using u(4) by (simp add: ut)
  then have "static_at t = static_at s" by (rule static_at_cong)
  then show "queued t = map (static_at t) [Op_writer, Op_reader, Op_flusher, Op_tracing, Op_status]"
    using u(2) by (simp add: queued_def ut)
  show "\<forall>x\<in>{Op_writer, Op_reader, Op_status, Op_tracing, Op_flusher}. job_running (static_job t x)" using u(3) ut by simp
qed

text \<open>Where \<open>main\<close> enters its loop, nothing is lost and nothing is traced.\<close>

lemma start_good:
  assumes st: "sys_start \<sigma>" and os: "good_os (sys_os \<sigma>)"
  shows "good_state (sys_os \<sigma>) (sys_app \<sigma>) (sys_kernel \<sigma>)" "\<not> jobs_finished (sys_app \<sigma>)"
    "td_inflight (dump_op (sys_app \<sigma>)) = 0" "cbuf_used_count (ring (sys_app \<sigma>)) = 0"
proof -
  let ?t = "sys_app \<sigma>"
  obtain s argc ret fd mem tfd m where z: "zero_globals s" "malloc_ok (sys_os \<sigma>) (ctx_base s)"
      "main_init (sys_os \<sigma>) s argc ret fd mem tfd m = Inr ?t" "sys_kernel \<sigma> = []"
    using st unfolding sys_start_def by blast
  note fr = main_init_fresh [OF z(1,3)] and run = start_running [OF z(1) os z(3)]
  note fresh = fr [unfolded fresh_start_def]
  have rest: "at_rest False (sys_os \<sigma>) ?t []" using main_init_inv [OF z(1,2), of argc ret fd mem tfd m] z(3) by simp
  have posted: "posted ?t [] x" if "x \<in> {Op_writer, Op_reader, Op_flusher, Op_tracing, Op_status}" for x
    using that run(1) by (auto simp: posted_def pending_queued)
  have running: "job_running (wj_inner (writer ?t))" "job_running (rj_inner (reader ?t))" "job_running (fj_inner (flusher ?t))"
    "job_running (tj_inner (tracing ?t))" using run(2) by (simp_all add: static_job_def)
  then have "jobs_live ?t []" "stopped_ok ?t" using posted fresh by (simp_all add: jobs_live_def stopped_ok_def)
  moreover have "pages_live ?t []" using fresh by (simp add: pages_live_def reads_def kind_at_def)
  ultimately show "good_state (sys_os \<sigma>) ?t (sys_kernel \<sigma>)"
    using rest fresh_bounds [OF fr] z(4) by (simp add: good_state_def)
  show "\<not> jobs_finished ?t" using running by (simp add: jobs_finished_def)
  show "td_inflight (dump_op ?t) = 0" "cbuf_used_count (ring ?t) = 0"
    using fresh by (simp_all add: cbuf_reset_def cbuf_used_count_def Let_def)
qed

text \<open>Without a tick of the tracing job before the end of the others, a doomed state is reached.\<close>

lemma start_doomed:
  assumes st: "sys_start \<sigma>" and os: "good_os (sys_os \<sigma>)"
  shows "\<exists>t K. (answered_round (sys_os \<sigma>))\<^sup>*\<^sup>* (sys_app \<sigma>, sys_kernel \<sigma>) (t, K) \<and>
    good_state (sys_os \<sigma>) t K \<and> doomed t (map sqe_user_data K)"
proof -
  note g = start_good [OF st os]
  have "job_running (tj_inner (tracing (sys_app \<sigma>)))" using good_jobs(1) [OF g(1)] g(2) by (simp add: jobs_live_def)
  from jobs_finish [OF os g(1) this] obtain t K where
    t: "(answered_round (sys_os \<sigma>))\<^sup>*\<^sup>* (sys_app \<sigma>, sys_kernel \<sigma>) (t, K)" "good_state (sys_os \<sigma>) t K"
      "tracing t = tracing (sys_app \<sigma>)" "jobs_finished t"
    unfolding reach_def by metis
  then have "doomed t (map sqe_user_data K)"
    using \<open>job_running (tj_inner (tracing (sys_app \<sigma>)))\<close> g(3,4) by (simp add: doomed_iff)
  with t(1,2) show ?thesis by blast
qed

end
