(* ===== verification/Sched_Progress.thy ===== *)
theory Sched_Progress
  imports Sched_Hang Sched_Properties
begin

text \<open>
  Progress: which completions stop the program, the bounds on its memory, what has been done when
  \<open>main\<close> returns, and when it can return at all.
\<close>

section \<open>A sample environment\<close>

text \<open>\<open>malloc\<close> returns the first free block of a region, and \<open>NULL\<close> when there is none.\<close>

definition roomy_addr :: "nat \<Rightarrow> u64" where "roomy_addr i = 65536 + 64 * of_nat i"

definition roomy_os :: os where
  "roomy_os = \<lparr>os_malloc = (\<lambda>n h. case List.find (\<lambda>i. h (roomy_addr i) = None) [0..<131072] of Some i \<Rightarrow> roomy_addr i | None \<Rightarrow> 0),
     os_clock = (\<lambda>n. Some \<lparr>tv_sec = 0, tv_nsec = 1000 * of_nat n\<rparr>), os_get_sqe = (\<lambda>_. True)\<rparr>"

lemma unat_roomy: "i < 131072 \<Longrightarrow> unat (roomy_addr i) = 65536 + 64 * i"
proof -
  assume i: "i < 131072"
  then have "unat (64 * of_nat i :: u64) = 64 * i" by (simp add: unat_mult_lem [THEN iffD1] unat_of_nat_nowrap)
  then show ?thesis using i by (simp add: roomy_addr_def unat_simps)
qed

lemma roomy_found:
  assumes "os_malloc roomy_os n h \<noteq> 0"
  obtains i where "i < 131072" "os_malloc roomy_os n h = roomy_addr i" "h (roomy_addr i) = None"
proof -
  obtain i where i: "List.find (\<lambda>i. h (roomy_addr i) = None) [0..<131072] = Some i"
    using assms by (auto simp: roomy_os_def split: option.splits)
  then have "i < 131072" "h (roomy_addr i) = None" by (auto simp: find_Some_iff)
  with i that show thesis by (simp add: roomy_os_def)
qed

lemma roomy_malloc_ok: "malloc_ok roomy_os 4096"
proof -
  have "h (os_malloc roomy_os n h) = None \<and> unat (os_malloc roomy_os n h) < 2 ^ 48 \<and> (\<forall>x. 4096 + static_offset x \<noteq> os_malloc roomy_os n h)"
    if a: "os_malloc roomy_os n h \<noteq> 0" for n h
  proof -
    obtain i where i: "i < 131072" "os_malloc roomy_os n h = roomy_addr i" "h (roomy_addr i) = None" using roomy_found [OF a] .
    have "unat (4096 + static_offset x) < unat (roomy_addr i)" for x using unat_roomy [OF i(1)] by (cases x) simp_all
    then have "4096 + static_offset x \<noteq> roomy_addr i" for x using less_irrefl by metis
    moreover have "unat (roomy_addr i) < 2 ^ 48" using unat_roomy [OF i(1)] i(1) by simp
    ultimately show ?thesis using i(2,3) by simp
  qed
  then show ?thesis by (simp add: malloc_ok_def Let_def)
qed

lemma roomy_good: "good_os roomy_os"
proof -
  have "os_malloc roomy_os n h \<noteq> 0" if fin: "finite (dom h)" and small: "card (dom h) < 98304" for n h
  proof -
    have inj: "inj_on roomy_addr {..<131072}"
      by (rule inj_onI) (metis add_left_cancel lessThan_iff mult_left_cancel unat_roomy zero_neq_numeral)
    have "\<not> roomy_addr ` {..<131072} \<subseteq> dom h"
    proof
      assume "roomy_addr ` {..<131072} \<subseteq> dom h"
      then have "card (roomy_addr ` {..<131072}) \<le> card (dom h)" using fin by (rule card_mono [rotated])
      then show False using small card_image [OF inj] by simp
    qed
    then have "List.find (\<lambda>i. h (roomy_addr i) = None) [0..<131072] \<noteq> None" by (auto simp: find_None_iff)
    then obtain i where i: "List.find (\<lambda>i. h (roomy_addr i) = None) [0..<131072] = Some i" by blast
    then have "i < 131072" by (auto simp: find_Some_iff)
    then have "unat (roomy_addr i) \<noteq> 0" using unat_roomy by simp
    then have "roomy_addr i \<noteq> 0" by auto
    then show ?thesis using i by (simp add: roomy_os_def)
  qed
  then show ?thesis by (simp add: good_os_def) (simp add: roomy_os_def)
qed

lemma roomy_start: "\<exists>\<sigma>. sys_start \<sigma> \<and> good_os (sys_os \<sigma>) \<and> length (sq (sys_app \<sigma>)) = 5 \<and>
  job_running (wj_inner (writer (sys_app \<sigma>))) \<and> job_running (fj_inner (flusher (sys_app \<sigma>))) \<and>
  job_running (rj_inner (reader (sys_app \<sigma>)))"
proof -
  obtain t where t: "main_init roomy_os sample_zero 2 0 3 True 4 sample_mapping = Inr t" "length (sq t) = 5"
      "\<forall>x\<in>{Op_writer, Op_reader, Op_status, Op_tracing, Op_flusher}. job_running (static_job t x)"
    using main_run [of sample_zero roomy_os 4 3 sample_mapping]
    by (auto simp: sample_zero_def roomy_os_def sample_mapping_def ctx_ok_def)
  have "malloc_ok roomy_os (ctx_base sample_zero)" using roomy_malloc_ok sample_zero_globals(2) by simp
  then have "sys_start \<lparr>sys_os = roomy_os, sys_app = t, sys_kernel = []\<rparr>"
    unfolding sys_start_def
    by (intro conjI exI) (rule sample_zero_globals(1), simp, simp, rule t(1), simp)
  then show ?thesis using t(2,3) roomy_good by (intro exI conjI) (auto simp: static_job_def)
qed

section \<open>Answered rounds\<close>

lemma answered_round_steps:
  assumes good: "good_state os s K" and r: "answered_round os (s, K) (t, K')"
  shows "answered_step\<^sup>*\<^sup>* (in_system os s K) (in_system os t K')"
proof -
  obtain a r where a: "r \<ge> 0 \<or> r = - ETIME" "main_round os (s\<lparr>read_mem := write_buf\<rparr>) 0 1 [(a, r)] = Inr (False, t)"
      "reaped (K @ sq s) [(a, r)] K'"
    using r by (auto simp: answered_round_def)
  from a(3) obtain K1 e K2 where K: "K @ sq s = K1 @ e # K2" "K' = K1 @ K2" "a = sqe_user_data e"
    by (auto elim!: reaped.cases)
  have io: "io_cqe os (handed s) a r = Inr t"
    using a(2) by (auto simp: main_round_def io_tick_def ETIME_def assert_res_Inr_iff bind_res_Inr_iff split: if_splits)
  have g: "good_state os (handed s) (K1 @ e # K2)"
    using good_state_submit [OF good_state_data [OF good, of write_buf]] K(1) by simp
  then obtain L where "sched_inv False os (unat (wj_page_id (writer (handed s)))) (handed s) (map sqe_user_data (K1 @ e # K2)) L"
    by (auto simp: good_state_def at_rest_def)
  then have "sched_inv False os (unat (wj_page_id (writer (handed s)))) (handed s) (a # map sqe_user_data (K1 @ K2)) L"
    by (rule inv_reorder) (simp add: K(3))
  from io_cqe_stops [OF this, of r] io a(1) have res: "good_result (handed s) a r" by (auto simp: good_result_def)
  have "answered_step (in_system os s K) (in_system os (s\<lparr>read_mem := write_buf\<rparr>) K)"
    using answered_step.data [of "in_system os s K" write_buf] by simp
  moreover have "answered_step (in_system os (s\<lparr>read_mem := write_buf\<rparr>) K) (in_system os (handed s) (K1 @ e # K2))"
    using answered_step.submit [of "in_system os (s\<lparr>read_mem := write_buf\<rparr>) K"] K(1) by simp
  moreover have "answered_step (in_system os (handed s) (K1 @ e # K2)) (in_system os t K')"
    using answered_step.answer [of "in_system os (handed s) (K1 @ e # K2)" K1 e K2 r t] io res K by simp
  ultimately show ?thesis by (meson rtranclp.rtrancl_refl rtranclp.rtrancl_into_rtrancl)
qed

lemma answered_rounds_steps:
  "(answered_round os)\<^sup>*\<^sup>* (s, K) p \<Longrightarrow> good_state os s K \<Longrightarrow>
     answered_step\<^sup>*\<^sup>* (in_system os s K) (in_system os (fst p) (snd p)) \<and> good_state os (fst p) (snd p)"
proof (induction rule: rtranclp_induct)
  case (step p q)
  then have i: "answered_step\<^sup>*\<^sup>* (in_system os s K) (in_system os (fst p) (snd p))" "good_state os (fst p) (snd p)" by simp_all
  have st: "answered_step\<^sup>*\<^sup>* (in_system os (fst p) (snd p)) (in_system os (fst q) (snd q))"
    using answered_round_steps [OF i(2), of "fst q" "snd q"] step.hyps(2) by simp
  from good_state_steps [OF st] i(2) have "good_state os (fst q) (snd q)" by simp
  with rtranclp_trans [OF i(1) st] show ?case by simp
qed simp

lemma in_system_self [simp]: "in_system (sys_os \<sigma>) (sys_app \<sigma>) (sys_kernel \<sigma>) = \<sigma>"
  by simp

lemma start_hangs:
  assumes st: "sys_start \<sigma>" and os: "good_os (sys_os \<sigma>)"
  shows "\<exists>\<tau>. answered_step\<^sup>*\<^sup>* \<sigma> \<tau> \<and> doomed (sys_app \<tau>) (map sqe_user_data (sys_kernel \<tau>))"
proof -
  obtain t K where t: "(answered_round (sys_os \<sigma>))\<^sup>*\<^sup>* (sys_app \<sigma>, sys_kernel \<sigma>) (t, K)" "doomed t (map sqe_user_data K)"
    using start_doomed [OF st os] by blast
  have "answered_step\<^sup>*\<^sup>* (in_system (sys_os \<sigma>) (sys_app \<sigma>) (sys_kernel \<sigma>)) (in_system (sys_os \<sigma>) t K)"
    using answered_rounds_steps [OF t(1) start_good(1) [OF st os]] by simp
  then show ?thesis using t(2) unfolding in_system_self by (intro exI [of _ "in_system (sys_os \<sigma>) t K"]) simp
qed

lemma answered_returns_iff:
  assumes st: "sys_start \<sigma>" and os: "good_os (sys_os \<sigma>)" and steps: "answered_step\<^sup>*\<^sup>* \<sigma> \<tau>"
  shows "(\<exists>t K'. main_loop (sys_os \<tau>) (sys_app \<tau>) (sys_kernel \<tau>) t K') \<longleftrightarrow>
    \<not> doomed (sys_app \<tau>) (map sqe_user_data (sys_kernel \<tau>))"
  using good_state_steps [OF steps start_good(1) [OF st os]] os by (intro loop_returns_iff) auto

section \<open>Completions\<close>

text \<open>C6. Which completions stop the program.  In a reachable state, with an environment that does not
  run out of memory, clock or queue, the completion of a request in flight stops the program in
  exactly these cases: a timeout that is not that of a job; a successful write of a page that is
  not the next one in order; a successful read of bytes that were not written; a write of the
  trace with another length.  Every other completion, failed requests included, is handled to the end.\<close>
theorem completion_stops_iff:
  assumes "sys_start \<sigma>" "sys_step\<^sup>*\<^sup>* \<sigma> \<tau>" "good_os (sys_os \<tau>)" "e \<in> set (sys_kernel \<tau>)"
    and "s = sys_app \<tau>" "a = sqe_user_data e"
  shows "(io_cqe (sys_os \<tau>) s a r = Inl AssertFail \<longleftrightarrow>
      r = - 62 \<and> op_callback s a \<notin> {Some Background_flusher, Some Background_status, Some Background_writer,
        Some Background_reader, Some Background_tracing} \<or>
      r \<ge> 0 \<and> (\<exists>w. op_heap s a = Some (Write_op w) \<and> pw_page_id w \<noteq> page_id_check_order s) \<or>
      r \<ge> 0 \<and> (\<exists>q. op_heap s a = Some (Read_op q) \<and> map (read_mem s) [0..<8] \<noteq> [97, 0, 0, 0, 0, 0, 0, 0]) \<or>
      r \<ge> 0 \<and> op_callback s a = Some Tracing_writed \<and> word_of_int r \<noteq> td_to_write (tj_dump_op (tracing s))) \<and>
    (io_cqe (sys_os \<tau>) s a r \<noteq> Inl AssertFail \<longrightarrow> (\<exists>t. io_cqe (sys_os \<tau>) s a r = Inr t))"
proof -
  obtain K K' where K: "sys_kernel \<tau> = K @ e # K'" using assms(4) by (auto simp: in_set_conv_decomp)
  have z: "sys_inv False \<sigma>" "ring_ok (sys_app \<sigma>) \<and> heap_small (sys_app \<sigma>)"
    using scheduler.start_inv [OF assms(1)] assms(1) main_init_fresh fresh_bounds unfolding sys_start_def by blast+
  have small: "heap_small s" using bounds_keep [OF assms(2) z(1)] z(2) assms(5) by simp
  obtain L where "sched_inv False (sys_os \<tau>) (unat (wj_page_id (writer s))) s (map sqe_user_data (sys_kernel \<tau>)) L"
    using scheduler.reachable_inv [OF assms(1,2)] assms(5) by (auto simp: sys_inv_def at_rest_def)
  then have inv: "sched_inv False (sys_os \<tau>) (unat (wj_page_id (writer s))) s (a # map sqe_user_data (K @ K')) L"
    by (rule inv_reorder) (simp add: K assms(6))
  have iff: "io_cqe (sys_os \<tau>) s a r = Inl AssertFail \<longleftrightarrow> \<not> accepted s a r"
    using io_cqe_total [OF assms(3) inv small, of r] io_cqe_stops [OF inv, of r] by auto
  moreover have "io_cqe (sys_os \<tau>) s a r \<noteq> Inl AssertFail \<longrightarrow> (\<exists>t. io_cqe (sys_os \<tau>) s a r = Inr t)"
    using io_cqe_total [OF assms(3) inv small, of r] io_cqe_stops [OF inv, of r] by blast
  moreover have bytes: "map write_buf [0..<8] = [97, 0, 0, 0, 0, 0, 0, 0]" by (simp add: write_buf_def upt_rec)
  have acc: "accepted s a r \<longleftrightarrow> \<not> (r = - 62 \<and> op_callback s a \<notin> {Some Background_flusher, Some Background_status, Some Background_writer,
        Some Background_reader, Some Background_tracing} \<or>
      r \<ge> 0 \<and> (\<exists>w. op_heap s a = Some (Write_op w) \<and> pw_page_id w \<noteq> page_id_check_order s) \<or>
      r \<ge> 0 \<and> (\<exists>q. op_heap s a = Some (Read_op q) \<and> map (read_mem s) [0..<8] \<noteq> [97, 0, 0, 0, 0, 0, 0, 0]) \<or>
      r \<ge> 0 \<and> op_callback s a = Some Tracing_writed \<and> word_of_int r \<noteq> td_to_write (tj_dump_op (tracing s)))"
  proof -
    note h = inv_parts(3) [OF inv]
    from inv have w: "op_callback s a = Some Page_written \<longleftrightarrow> (\<exists>w. op_heap s a = Some (Write_op w))"
      by (cases rule: ready_cases) (use h in \<open>auto simp: heap_ok_def\<close>)
    from inv have q: "op_callback s a = Some Page_read \<longleftrightarrow> (\<exists>q. op_heap s a = Some (Read_op q))"
      by (cases rule: ready_cases) (use h in \<open>auto simp: heap_ok_def\<close>)
    show ?thesis unfolding accepted_def bytes w q
      by (auto simp: ETIME_def job_callbacks_def kind_at_def)
  qed
  ultimately show ?thesis by blast
qed

text \<open>A failed request does not stop the program.\<close>
lemma completion_stops_iff_witness:
  "\<exists>\<sigma> \<tau> e t. sys_start \<sigma> \<and> sys_step\<^sup>*\<^sup>* \<sigma> \<tau> \<and> e \<in> set (sys_kernel \<tau>) \<and>
     io_cqe (sys_os \<tau>) (sys_app \<tau>) (sqe_user_data e) (- 5) = Inr t"
proof -
  obtain \<sigma> where s: "sys_start \<sigma>" "good_os (sys_os \<sigma>)" "length (sq (sys_app \<sigma>)) = 5" using roomy_start by blast
  define \<tau> where "\<tau> = \<sigma>\<lparr>sys_app := (sys_app \<sigma>)\<lparr>sq := []\<rparr>, sys_kernel := sys_kernel \<sigma> @ sq (sys_app \<sigma>)\<rparr>"
  have st: "sys_step\<^sup>*\<^sup>* \<sigma> \<tau>" unfolding \<tau>_def by (intro r_into_rtranclp sys_step.submit)
  obtain e where e: "e \<in> set (sys_kernel \<tau>)" using s(3) by (cases "sq (sys_app \<sigma>)") (auto simp: \<tau>_def)
  have "good_os (sys_os \<tau>)" using s(2) by (simp add: \<tau>_def)
  from completion_stops_iff [OF s(1) st this e refl refl, of "- 5"]
  obtain t where "io_cqe (sys_os \<tau>) (sys_app \<tau>) (sqe_user_data e) (- 5) = Inr t" by auto
  with s(1) st e show ?thesis by blast
qed

section \<open>Bounds\<close>

text \<open>C18. The memory of the program is bounded.  In every reachable state the heap holds at most one
  operation per issued page, at most 98300 in all; the ring of the tracing job, of 64 items, is never
  overfull, and a dump that the kernel is writing never covers more items than the ring holds.\<close>
theorem memory_bounded:
  assumes "sys_start \<sigma>" "sys_step\<^sup>*\<^sup>* \<sigma> \<tau>" "s = sys_app \<tau>" "c = tj_cbuf (tracing s)"
  shows "finite (dom (op_heap s)) \<and>
    card (dom (op_heap s)) \<le> unat (wj_page_id (writer s)) + unat (rj_page_id (reader s)) \<and>
    card (dom (op_heap s)) \<le> 98300 \<and> cbuf_len c = 64 \<and> unat (cbuf_used_count c) \<le> 64 \<and>
    (td_inflight (tj_dump_op (tracing s)) \<noteq> 0 \<and> td_callback (tj_dump_op (tracing s)) = Some Tracing_writed \<longrightarrow>
      unat (td_items (tj_dump_op (tracing s))) \<le> unat (cbuf_used_count c))"
proof -
  have z: "sys_inv False \<sigma>" "ring_ok (sys_app \<sigma>) \<and> heap_small (sys_app \<sigma>)"
    using scheduler.start_inv [OF assms(1)] assms(1) main_init_fresh fresh_bounds unfolding sys_start_def by blast+
  have b: "ring_ok s" "heap_small s" using bounds_keep [OF assms(2) z(1)] z(2) assms(3) by simp_all
  obtain hi L A where "sched_inv False (sys_os \<tau>) hi s A L"
    using scheduler.reachable_inv [OF assms(1,2)] assms(3) by (auto simp: sys_inv_def at_rest_def)
  from inv_parts(9) [OF this] have "unat (wj_page_id (writer s)) \<le> 49150" "unat (rj_page_id (reader s)) \<le> 49150"
    unfolding counters_ok_def by linarith+
  with b(2) have "finite (dom (op_heap s)) \<and>
      card (dom (op_heap s)) \<le> unat (wj_page_id (writer s)) + unat (rj_page_id (reader s)) \<and> card (dom (op_heap s)) \<le> 98300"
    by (simp add: heap_small_def)
  with b(1) show ?thesis unfolding assms(4) by (simp add: ring_ok_def)
qed

text \<open>The bounds hold where the jobs of a sample run have finished.\<close>
lemma memory_bounded_witness:
  "\<exists>\<sigma> \<tau>. sys_start \<sigma> \<and> sys_step\<^sup>*\<^sup>* \<sigma> \<tau> \<and> jobs_finished (sys_app \<tau>) \<and> card (dom (op_heap (sys_app \<tau>))) \<le> 98300"
proof -
  obtain \<sigma> where s: "sys_start \<sigma>" "good_os (sys_os \<sigma>)" using roomy_start by blast
  obtain \<tau> where t: "answered_step\<^sup>*\<^sup>* \<sigma> \<tau>" "doomed (sys_app \<tau>) (map sqe_user_data (sys_kernel \<tau>))"
    using start_hangs [OF s] by blast
  then have "sys_step\<^sup>*\<^sup>* \<sigma> \<tau>" "jobs_finished (sys_app \<tau>)" using answered_sys_steps by (auto simp: doomed_def)
  with memory_bounded [OF s(1) this(1) refl refl] s(1) show ?thesis by blast
qed

section \<open>The end of \<open>main\<close>\<close>

text \<open>C5. What has been done when \<open>main\<close> returns.  Whatever requests failed on the way, if the jobs
  were started, then when the loop of \<open>main\<close> is left at least 32768 pages (\<open>BYTES_TO_WRITE\<close>) have
  been written in order, synced and requested by the reader, which is behind the flusher, which is
  behind the completed writes, which are behind the issued ones; and no more than 49150 were issued.\<close>
theorem main_exit_complete:
  assumes "sys_start \<sigma>" "job_running (wj_inner (writer (sys_app \<sigma>)))" "job_running (fj_inner (flusher (sys_app \<sigma>)))"
    "job_running (rj_inner (reader (sys_app \<sigma>)))"
    and "main_loop (sys_os \<sigma>) (sys_app \<sigma>) (sys_kernel \<sigma>) t K'"
  shows "32768 \<le> unat (rj_page_id (reader t)) \<and> unat (rj_page_id (reader t)) \<le> unat (fj_page_id (flusher t)) \<and>
    unat (fj_page_id (flusher t)) \<le> unat (page_id_check_order t) \<and>
    unat (page_id_check_order t) \<le> unat (wj_page_id (writer t)) \<and> unat (wj_page_id (writer t)) \<le> 49150"
proof -
  have steps: "sys_step\<^sup>*\<^sup>* \<sigma> (in_system (sys_os \<sigma>) t K')" and ex: "exits t"
    using main_loop_steps [OF assms(5)] unfolding in_system_self by blast+
  have "stopped_ok (sys_app \<sigma>)" using assms(2-4) by (simp add: stopped_ok_def)
  then have "stopped_ok t" using stopped_keep [OF steps scheduler.start_inv [OF assms(1)]] by simp
  then have "32768 \<le> unat (rj_page_id (reader t))"
    using ex by (auto simp: exits_def jobs_finished_def stopped_ok_def below_limit_iff)
  moreover obtain hi L A where "sched_inv False (sys_os \<sigma>) hi t A L"
    using scheduler.reachable_inv [OF assms(1) steps] by (auto simp: sys_inv_def at_rest_def)
  note c = inv_parts(9) [OF this, unfolded counters_ok_def]
  ultimately show ?thesis using c by linarith
qed

text \<open>From a sample start, the loop of \<open>main\<close> returns with all pages read.\<close>
lemma main_exit_complete_witness:
  "\<exists>\<sigma> t K'. sys_start \<sigma> \<and> main_loop (sys_os \<sigma>) (sys_app \<sigma>) (sys_kernel \<sigma>) t K' \<and>
     32768 \<le> unat (rj_page_id (reader t)) \<and> unat (wj_page_id (writer t)) \<le> 49150"
proof -
  obtain \<sigma> where s: "sys_start \<sigma>" "good_os (sys_os \<sigma>)" "job_running (wj_inner (writer (sys_app \<sigma>)))"
      "job_running (fj_inner (flusher (sys_app \<sigma>)))" "job_running (rj_inner (reader (sys_app \<sigma>)))"
    using roomy_start by blast
  obtain t K' where m: "main_loop (sys_os \<sigma>) (sys_app \<sigma>) (sys_kernel \<sigma>) t K'"
    using loop_can_return [OF s(2) start_good(1) [OF s(1,2)] start_good(2) [OF s(1,2)]] answered_main_loop by blast
  from main_exit_complete [OF s(1,3-5) m] s(1) m show ?thesis by blast
qed

section \<open>When \<open>main\<close> returns\<close>

text \<open>C4. When \<open>main\<close> can return.  As long as no request fails, in an environment that does not run out
  of memory, clock or queue, the loop of \<open>main\<close> can still return from a state exactly unless the
  writer, flusher and reader have stopped, the tracing job still counts as running, no dump is in
  flight, and the ring is empty or no timeout of the tracing job is pending.  From such a state it
  runs for ever, whatever the kernel answers.\<close>
theorem main_returns_iff:
  assumes "sys_start \<sigma>" "good_os (sys_os \<sigma>)" "answered_step\<^sup>*\<^sup>* \<sigma> \<tau>" "s = sys_app \<tau>"
  shows "(\<exists>t K'. main_loop (sys_os \<tau>) s (sys_kernel \<tau>) t K') \<longleftrightarrow>
    \<not> (\<not> job_running (wj_inner (writer s)) \<and> \<not> job_running (fj_inner (flusher s)) \<and> \<not> job_running (rj_inner (reader s)) \<and>
       job_running (tj_inner (tracing s)) \<and> td_inflight (tj_dump_op (tracing s)) = 0 \<and>
       (cbuf_used_count (tj_cbuf (tracing s)) = 0 \<or> static_at s Op_tracing \<notin> sqe_user_data ` set (sys_kernel \<tau> @ sq s)))"
  unfolding assms(4) answered_returns_iff [OF assms(1-3)]
  by (auto simp: doomed_iff jobs_finished_def posted_def pending_def)

text \<open>At a sample start \<open>main\<close> can return.\<close>
lemma main_returns_iff_witness:
  "\<exists>\<sigma> t K'. sys_start \<sigma> \<and> good_os (sys_os \<sigma>) \<and> main_loop (sys_os \<sigma>) (sys_app \<sigma>) (sys_kernel \<sigma>) t K'"
proof -
  obtain \<sigma> where s: "sys_start \<sigma>" "good_os (sys_os \<sigma>)" "job_running (wj_inner (writer (sys_app \<sigma>)))"
    using roomy_start by blast
  with main_returns_iff [OF s(1,2) rtranclp.rtrancl_refl refl] show ?thesis by blast
qed

text \<open>C3. Whether \<open>main\<close> returns depends on the order of completions.  From every start, and
  with no completion that has an error, there is a run of the loop of \<open>main\<close> that returns, and one
  that reaches a state from which it never returns, whatever the kernel answers from then on.\<close>
theorem main_may_return_or_hang:
  assumes "sys_start \<sigma>" "good_os (sys_os \<sigma>)"
  shows "(\<exists>t K'. answered_loop (sys_os \<sigma>) (sys_app \<sigma>) (sys_kernel \<sigma>) t K' \<and>
      main_loop (sys_os \<sigma>) (sys_app \<sigma>) (sys_kernel \<sigma>) t K') \<and>
    (\<exists>\<tau>. answered_step\<^sup>*\<^sup>* \<sigma> \<tau> \<and> (\<forall>t K'. \<not> main_loop (sys_os \<tau>) (sys_app \<tau>) (sys_kernel \<tau>) t K'))"
  using loop_can_return [OF assms(2) start_good(1) [OF assms] start_good(2) [OF assms]]
    answered_main_loop start_hangs [OF assms] answered_returns_iff [OF assms] by blast

text \<open>From a sample start the program can return, and it can run for ever.\<close>
lemma main_may_return_or_hang_witness:
  "\<exists>\<sigma> \<tau> u K. sys_start \<sigma> \<and> good_os (sys_os \<sigma>) \<and> answered_loop (sys_os \<sigma>) (sys_app \<sigma>) (sys_kernel \<sigma>) u K \<and>
     answered_step\<^sup>*\<^sup>* \<sigma> \<tau> \<and> (\<forall>t K'. \<not> main_loop (sys_os \<tau>) (sys_app \<tau>) (sys_kernel \<tau>) t K')"
proof -
  obtain \<sigma> where s: "sys_start \<sigma>" "good_os (sys_os \<sigma>)" using roomy_start by blast
  from main_may_return_or_hang [OF s] s show ?thesis by blast
qed

end
