(* ===== verification/Spec2Isabelle.thy ===== *)
theory Spec2Isabelle
  imports Node_Properties Btree_Properties Sched_Properties Handler_Properties Sched_Progress
begin

text \<open>
  A verification library for ioscheduler: an io_uring scheduler of background jobs
  (src/scheduler.c, src/main.c), the ring buffer of its tracing job (src/cbuf.c), and the B-tree
  of byte pages it is meant to serve (src/tree/).  The B-tree and the scheduler do not call each
  other yet; both are modelled.

  \<^bold>\<open>The program and its theories.\<close>

  Shared: \<open>Prelude\<close> (machine integers, the result type \<open>res\<close> whose errors are \<open>AssertFail\<close>,
  \<open>OutOfBounds\<close>, \<open>BadPointer\<close> and others, lists), \<open>Memory\<close> (bytes, little-endian loads and
  stores), \<open>Utils\<close> (the macros of src/include/utils.h), \<open>Refine\<close> (runs of fallible operations
  that refine an abstract machine; the predicate \<open>safe\<close>; the locale of invariants of a
  transition system).

  Nodes, src/tree/cell.c and src/tree/node.c: a page is its bytes, a pointer into it an offset.
  \<open>Key_Order\<close> has \<open>__key_compare\<close> and the order it decides; \<open>Cell\<close> and \<open>Node\<close> the struct
  fields, the header and the layout invariant \<open>node_layout\<close> (cell pointers, live cells and
  tombstones do not overlap); \<open>Node_Search\<close> the binary search, under a locale for the comparison;
  \<open>Node_Space\<close> the free space and the tombstone list; \<open>Node_Ops\<close> writing, inserting and deleting
  cells; \<open>Node_Debug\<close> the printing of cells and nodes, as the calls of \<open>LOG\<close> with their
  arguments; \<open>Node_Split\<close> the partition index and the two splits; \<open>Leaf\<close> a leaf as a finite map,
  the interface of the store as a locale, interpreted on the node operations; \<open>Samples\<close>
  concrete pages built by those operations.

  Tree, src/tree/btree.c: \<open>Btree\<close> has every function over a heap from addresses to pages;
  \<open>Btree_Tree\<close> the tree a heap represents, its in-order sequence, the descent and the insertion
  without a split; \<open>Btree_Split\<close> the split of the root leaf; \<open>Btree_Grow\<close> and \<open>Btree_Grow_Tree\<close>
  the split of a leaf below a parent with room, on the pages and on the tree; \<open>Btree_Left\<close> the
  insertion into the left half of a split leaf when it fails; \<open>Btree_Routes\<close> the steps of the
  descent through a single inner page.

  Ring buffer, src/cbuf.c: \<open>Cbuf\<close>.  The double mapping of the storage is reading addresses
  modulo its size; the two counters are 32-bit words that wrap.

  Scheduler: \<open>Stats\<close> has the statistics buckets; \<open>Sched\<close> the constants and records of
  src/include/scheduler.h, the submission queue and the jobs; \<open>Handlers\<close> each completion handler,
  \<open>io_tick\<close>, the initialisation of the jobs, and the setup and loop of \<open>main\<close>.  The record
  \<open>sched\<close> holds the globals: the members of \<open>thread_ctx\<close>, the buckets, the counters and the heap
  of operations.  A completion is the pair of an operation's \<open>user_data\<close> and \<open>res\<close>; it is
  dispatched on the callback stored in the operation, as in the code.
  \<open>Sched_Addr\<close> shows that the operations inside \<open>thread_ctx\<close> have addresses of their own;
  \<open>Sched_List\<close> treats the linked list of written pages; \<open>Sched_Inv\<close>, \<open>Sched_Jobs\<close> and
  \<open>Sched_Ticks\<close> the invariant of the scheduler and its preservation by each handler;
  \<open>Sched_System\<close> the scheduler with the kernel, as a step relation; \<open>Sched_Run\<close> the requests
  that a tick queues and the main loop as steps of that system; \<open>Sched_Samples\<close> concrete states.
  The theories on progress are layered on these.  \<open>Sched_Effects\<close> states for each handler what
  has changed when it returns, \<open>Sched_Dispatch\<close> collects this into one relation \<open>io_effect\<close>;
  \<open>Sched_Bounds\<close> and \<open>Sched_Live\<close> derive further invariants from it, with \<open>Sched_Start\<close> for
  the state in which \<open>main\<close> enters its loop; \<open>Sched_Total\<close> shows when each handler returns;
  \<open>Sched_Main\<close> has the whole loop of \<open>main\<close> as a relation and the rounds without an error;
  \<open>Sched_Finish\<close> constructs runs that end the jobs, \<open>Sched_Hang\<close> the states that are never
  left, and \<open>Sched_Progress\<close> the theorems.

  The properties of the program are the theorems of \<open>Node_Properties\<close>, \<open>Btree_Properties\<close>,
  \<open>Cbuf\<close>, \<open>Stats\<close>, \<open>Sched_Properties\<close>, \<open>Handler_Properties\<close> and \<open>Sched_Progress\<close>, each with its statement in
  words before it and an application at a concrete input after it.

  \<^bold>\<open>What the lemmas show.\<close>

  A leaf refines a finite map under insertion, deletion and lookup as long as new cells come from
  the gap between the pointers and the cells (\<open>leaf_run_refines\<close>).  The search is a binary search
  by \<open>key_compare_total_order\<close>; it returns on every page with fewer than \<open>2 ^ 31\<close>
  cells.  Splits partition the entries.
  Insertion into a tree keeps the order of the tree: without a split, with the split of the root
  leaf, and with the split of a leaf below a parent that has room for the separator, when the new
  key belongs to the right half or its entry fits the gap of the old leaf.  Otherwise the left
  half offers the space of the moved cells as tombstones only, and \<open>btree_insert_left_half\<close> says
  what happens: an assertion fails, or a tombstone is reused and the page may break.

  For the scheduler, \<open>scheduler_invariant\<close> holds in every state that the kernel and the handlers
  can reach from \<open>main_init\<close>: the page counters are ordered, the list holds exactly the pages
  that completed since the last \<open>fsync\<close>, and each operation is in flight at most once.  From it
  \<open>completions_safe\<close>: the completion of any request in flight ends in a new state or an
  assertion, never in a bad pointer or an endless walk; and \<open>requests_typed\<close>: a request points to
  an operation of the struct its callback expects.  \<open>main_round_refines\<close> connects this to
  the loop of \<open>main\<close>.  \<open>completion_stops_iff\<close> names the completions that stop the program,
  \<open>memory_bounded\<close> bounds the heap and the ring, and \<open>main_exit_complete\<close> says what has been
  written, synced and read when \<open>main\<close> returns, also when requests failed.  Whether it returns
  depends on the order of completions, even when none has an error (\<open>main_may_return_or_hang\<close>,
  over the relation \<open>answered_loop\<close> of runs without an error); \<open>main_returns_iff\<close> gives
  the states from which it can.

  \<^bold>\<open>Parameters.\<close>

  Code outside the repository is an argument: \<open>malloc\<close> for the tree, and the record \<open>os\<close> with
  malloc, the clock and \<open>io_uring_get_sqe\<close> for the scheduler.  Memory that malloc returns has
  arbitrary contents.  What the invariant relies on is \<open>malloc_ok\<close>: a block that is not in use, apart from
  \<open>thread_ctx\<close>, with the 16 upper address bits clear.  The kernel is the choice of the next
  completion in \<open>sys_step\<close>: any request in flight, in any order, with any result.  The theorems
  of the invariant hold for every such choice.  The theorems on progress rely further on
  \<open>good_os\<close>: the clock and the queue never fail, and malloc does not as long as fewer than 98304
  operations are allocated, more than the program ever holds.

  \<^bold>\<open>Bounds and loops.\<close>

  The binary search, the walk over the tombstones and \<open>free_written\<close> are
  \<open>partial_function (option)\<close>: a walk that does not return is \<open>None\<close>, the error \<open>Diverges\<close>
  where it is used.  That they return is part of the theorems (\<open>bin_search_terminates\<close>,
  \<open>node_is_full_correct\<close>, \<open>completions_safe\<close>); \<open>debug_node_diverges\<close> is the walk that does
  not.  The loops of the two splits and of the partition index are total functions, with a
  measure.  The descent in the tree recurses on the breadcrumbs left, 15 after the root as in the
  code; running out is \<open>OutOfBounds\<close>, the write past the array.  There is no other fuel.

  \<^bold>\<open>What the model shows to be wrong.\<close>

  Reusing a tombstone raises \<open>cell_offset\<close> above live cells; the test for free space forgets the
  4 bytes of the cell pointer; the two space tests disagree; a light leaf does not split; after
  the split of a leaf the entry may find no place in the half it belongs to; the split of an inner
  node drops a child and misroutes keys (\<open>internal_split_misroutes\<close>); \<open>btree_search\<close> finds nothing (\<open>btree_search_null\<close>);
  equal keys are inserted twice; the breadcrumbs overflow at depth 16.  The ring buffer uses an
  item counter as a byte offset, and loses its size at \<open>2 ^ 32\<close> bytes (\<open>cbuf_init_wraps\<close>).
  In the scheduler, a failed write blocks the writer for good; pages written while an \<open>fsync\<close> is
  in flight count as synced; the 8-bit \<open>inflight\<close> wraps; the trace uses a wrong time scale; the
  tracing job can be left neither waiting nor stopped, after which \<open>main\<close> never ends.

  \<^bold>\<open>Not modelled.\<close>

  src/json.c is an unfinished file that does not compile; src/wal.c and its header are
  empty; src/configure.h only selects the code that is built.  Of the functions that print,
  the values printed are modelled (\<open>Node_Debug\<close>, the status job) and \<open>printf\<close> is not; the layout
  of the status line is left out.
  The setup of the io_uring instance and the opening of the files are arguments of \<open>main_init\<close>, their
  results, on which it asserts as the code does, as are the results of \<open>memfd_create\<close> and \<open>mmap\<close>
  for \<open>cbuf_init\<close>; the setup flags are left out.  The programs under tests/ are drivers
  of the operations modelled here.  The split of an inner node below a further parent is modelled
  in \<open>write_down\<close>, but has no correctness theorem, because \<open>internal_node_split\<close> loses a child.
\<close>

end
